(* ===== verification/Prelude.thy ===== *)
theory Prelude
  imports Main "HOL-Library.Word"
begin

text \<open>
  Shared vocabulary of the development: the machine types of the Rust sources, the
  outcome of a fallible Rust function (a value, an error value or a panic), Rust's
  \<open>core::cmp::Ordering\<close>, checked slice access, and the transition-system
  interface that the stateful components interpret.

  Rust \<open>usize\<close> quantities that only count or index slices are modelled as
  \<^typ>\<open>nat\<close>: a slice never has more than \<open>isize::MAX\<close> bytes, so sums of
  an index and a small constant do not reach \<open>2 ^ 64\<close>. Where the source spells
  \<open>checked_add\<close> the bound is written out (\<open>checked_add\<close> below), and where a
  computation really works modulo \<open>2 ^ 64\<close> the model uses \<open>64 word\<close>.
\<close>

unbundle bit_operations_syntax

type_synonym u8 = "8 word"
type_synonym u16 = "16 word"
type_synonym u32 = "32 word"
type_synonym u64 = "64 word"
type_synonym bytes = "8 word list"

named_theorems outcome_simps \<open>unfolding of checked slice access and outcome sequencing\<close>
named_theorems unat_bits \<open>bit operations on words as arithmetic on natural numbers\<close>

subsection \<open>Outcomes of fallible functions\<close>

text \<open>
  \<open>Ok\<close> and \<open>Err\<close> are Rust's \<open>Result\<close>. \<open>Panic\<close> is a slice index or
  range out of bounds (the workspace builds with \<open>panic = "abort"\<close>), kept as a
  value so that its absence is a theorem.
\<close>

datatype ('a, 'e) outcome = Ok 'a | Err 'e | Panic

primrec and_then :: "('a, 'e) outcome \<Rightarrow> ('a \<Rightarrow> ('b, 'e) outcome) \<Rightarrow> ('b, 'e) outcome" where
  "and_then (Ok a) f = f a"
| "and_then (Err e) f = Err e"
| "and_then Panic f = Panic"

definition get_byte :: "'a list \<Rightarrow> nat \<Rightarrow> ('a, 'e) outcome" where
  "get_byte xs i = (if i < length xs then Ok (xs ! i) else Panic)"

definition get_range :: "'a list \<Rightarrow> nat \<Rightarrow> nat \<Rightarrow> ('a list, 'e) outcome" where
  "get_range xs i j = (if i \<le> j \<and> j \<le> length xs then Ok (take (j - i) (drop i xs)) else Panic)"

text \<open>Overwriting \<open>length ys\<close> cells of a buffer from index \<open>i\<close>, Rust's
  \<open>copy_from_slice\<close> into a sub-slice.\<close>

definition splice :: "'a list \<Rightarrow> nat \<Rightarrow> 'a list \<Rightarrow> 'a list" where
  "splice xs i ys = take i xs @ ys @ drop (i + length ys) xs"

definition put_range :: "'a list \<Rightarrow> nat \<Rightarrow> 'a list \<Rightarrow> ('a list, 'e) outcome" where
  "put_range xs i ys = (if i + length ys \<le> length xs then Ok (splice xs i ys) else Panic)"

lemma and_then_eq_case: "and_then m f = (case m of Ok a \<Rightarrow> f a | Err e \<Rightarrow> Err e | Panic \<Rightarrow> Panic)"
  by (cases m) auto

lemma and_then_Ok_conv:
  "and_then m f = Ok b \<longleftrightarrow> (\<exists>a. m = Ok a \<and> f a = Ok b)"
  by (cases m) auto

lemma and_then_Err_conv:
  "and_then m f = Err e \<longleftrightarrow> m = Err e \<or> (\<exists>a. m = Ok a \<and> f a = Err e)"
  by (cases m) auto

lemma and_then_Panic_conv:
  "and_then m f = Panic \<longleftrightarrow> m = Panic \<or> (\<exists>a. m = Ok a \<and> f a = Panic)"
  by (cases m) auto

lemma get_byte_Ok [outcome_simps]: "i < length xs \<Longrightarrow> get_byte xs i = Ok (xs ! i)"
  by (simp add: get_byte_def)

lemma get_byte_eq_Ok_iff [simp]: "get_byte xs i = Ok b \<longleftrightarrow> i < length xs \<and> b = xs ! i"
  by (auto simp: get_byte_def)

lemma get_byte_not_Err [simp]: "get_byte xs i \<noteq> Err e"
  by (simp add: get_byte_def)

lemma get_byte_eq_Panic_iff [simp]: "get_byte xs i = Panic \<longleftrightarrow> length xs \<le> i"
  by (simp add: get_byte_def not_less)

lemma get_range_Ok [outcome_simps]:
  "i \<le> j \<Longrightarrow> j \<le> length xs \<Longrightarrow> get_range xs i j = Ok (take (j - i) (drop i xs))"
  by (simp add: get_range_def)

lemma put_range_Ok [outcome_simps]:
  "i + length ys \<le> length xs \<Longrightarrow> put_range xs i ys = Ok (splice xs i ys)"
  by (simp add: put_range_def)

lemma length_splice [simp]: "i + length ys \<le> length xs \<Longrightarrow> length (splice xs i ys) = length xs"
  by (simp add: splice_def)

lemma take_splice: "i \<le> length xs \<Longrightarrow> take (i + length ys) (splice xs i ys) = take i xs @ ys"
  by (simp add: splice_def)

lemma drop_splice: "i \<le> length xs \<Longrightarrow> drop (i + length ys) (splice xs i ys) = drop (i + length ys) xs"
  by (simp add: splice_def)

lemma take_splice_before: "i \<le> length xs \<Longrightarrow> k \<le> i \<Longrightarrow> take k (splice xs i ys) = take k xs"
  by (simp add: splice_def min_def)

lemma nth_splice:
  assumes "i + length ys \<le> length xs" and "k < length xs"
  shows "splice xs i ys ! k = (if i \<le> k \<and> k < i + length ys then ys ! (k - i) else xs ! k)"
proof -
  have "k < i \<or> (i \<le> k \<and> k < i + length ys) \<or> i + length ys \<le> k" by linarith
  then show ?thesis using assms
    by (auto simp: splice_def nth_append not_less)
qed

lemma splice_splice:
  "p + length (xs @ ys) \<le> length out \<Longrightarrow> splice (splice out p xs) (p + length xs) ys = splice out p (xs @ ys)"
  by (simp add: splice_def ac_simps)

lemma list_update_splice: "p < length out \<Longrightarrow> out[p := b] = splice out p [b]"
  by (simp add: splice_def upd_conv_take_nth_drop)

lemma splice_0: "splice out 0 ys = ys @ drop (length ys) out"
  by (simp add: splice_def)

subsection \<open>Unsigned 64-bit checked addition\<close>

definition checked_add :: "nat \<Rightarrow> nat \<Rightarrow> nat option" where
  "checked_add a b = (if a + b < 2 ^ 64 then Some (a + b) else None)"

definition ok_or :: "'a option \<Rightarrow> 'e \<Rightarrow> ('a, 'e) outcome" where
  "ok_or x e = (case x of Some a \<Rightarrow> Ok a | None \<Rightarrow> Err e)"

lemma ok_or_simps [simp]: "ok_or (Some a) e = Ok a" "ok_or None e = Err e"
  by (simp_all add: ok_or_def)

text \<open>A Rust slice never spans more than \<open>isize::MAX\<close> bytes.\<close>

definition slice_len_ok :: "'a list \<Rightarrow> bool" where
  "slice_len_ok xs \<longleftrightarrow> length xs < 2 ^ 63"

lemma checked_add_small [outcome_simps]:
  "a + b < 2 ^ 64 \<Longrightarrow> checked_add a b = Some (a + b)"
  by (simp add: checked_add_def)

subsection \<open>Signed machine integers\<close>

text \<open>The value an integer keeps when it is stored in an \<open>i32\<close> or \<open>i64\<close>: reduction modulo
  \<open>2 ^ 32\<close> or \<open>2 ^ 64\<close> into the signed range. It is the identity on values in range.\<close>

definition i32_of :: "int \<Rightarrow> int" where
  "i32_of x = (x + 2 ^ 31) mod 2 ^ 32 - 2 ^ 31"

definition i64_of :: "int \<Rightarrow> int" where
  "i64_of x = (x + 2 ^ 63) mod 2 ^ 64 - 2 ^ 63"

lemma i32_of_id: "- (2 ^ 31) \<le> x \<Longrightarrow> x < 2 ^ 31 \<Longrightarrow> i32_of x = x"
  by (simp add: i32_of_def)

lemma i64_of_id: "- (2 ^ 63) \<le> x \<Longrightarrow> x < 2 ^ 63 \<Longrightarrow> i64_of x = x"
  by (simp add: i64_of_def)

text \<open>Wrapping only once, at the end, gives the same result.\<close>

lemma i64_of_mod: "i64_of x mod 2 ^ 64 = x mod 2 ^ 64"
  by (simp add: i64_of_def mod_diff_left_eq)

lemma i64_of_cong: "x mod 2 ^ 64 = y mod 2 ^ 64 \<Longrightarrow> i64_of x = i64_of y"
  unfolding i64_of_def by (metis mod_add_left_eq)

lemma i64_of_wrap:
  "i64_of (i64_of x + y) = i64_of (x + y)" "i64_of (x + i64_of y) = i64_of (x + y)"
  "i64_of (i64_of x - y) = i64_of (x - y)" "i64_of (x - i64_of y) = i64_of (x - y)"
  "i64_of (i64_of x * y) = i64_of (x * y)" "i64_of (x * i64_of y) = i64_of (x * y)"
  by (rule i64_of_cong; metis i64_of_mod mod_add_eq mod_diff_eq mod_mult_eq)+

lemma i32_of_range: "- (2 ^ 31) \<le> i32_of x \<and> i32_of x < 2 ^ 31"
  by (simp add: i32_of_def)

subsection \<open>Rust's Ordering\<close>

datatype ordering = Less | Equal | Greater

definition cmp :: "'a::linorder \<Rightarrow> 'a \<Rightarrow> ordering" where
  "cmp a b = (if a < b then Less else if a = b then Equal else Greater)"

primrec reverse_ordering :: "ordering \<Rightarrow> ordering" where
  "reverse_ordering Less = Greater"
| "reverse_ordering Equal = Equal"
| "reverse_ordering Greater = Less"

lemma cmp_Equal_iff [simp]: "cmp a b = Equal \<longleftrightarrow> a = b"
  by (auto simp: cmp_def)

lemma cmp_Less_iff [simp]: "cmp a b = Less \<longleftrightarrow> a < b"
  by (auto simp: cmp_def)

lemma cmp_Greater_iff [simp]: "cmp a b = Greater \<longleftrightarrow> b < a"
  by (auto simp: cmp_def)

lemma cmp_same [simp]: "cmp a a = Equal"
  by simp

lemma reverse_cmp: "reverse_ordering (cmp a b) = cmp b a"
  by (auto simp: cmp_def)

lemma reverse_ordering_idem [simp]: "reverse_ordering (reverse_ordering c) = c"
  by (cases c) simp_all

subsection \<open>Bit operations as arithmetic\<close>

lemma unat_and_mask_mod: "unat (x AND mask n) = unat x mod 2 ^ n" for x :: "'a::len word"
  by (simp flip: take_bit_eq_mask take_bit_eq_mod add: unsigned_take_bit_eq)

lemma unat_drop_bit_div [unat_bits]: "unat (drop_bit n x) = unat x div 2 ^ n" for x :: "'a::len word"
proof -
  have "unat (drop_bit n x) = drop_bit n (unat x)" by (rule unat_drop_bit_eq)
  then show ?thesis by (simp only: drop_bit_eq_div)
qed

lemma or_eq_plus_disjoint:
  fixes x y :: "'a::len word"
  assumes "x AND y = 0"
  shows "x OR y = x + y"
  using word_plus_and_or [of x y] assms by (metis add_0)

lemma unat_u8_less: "unat (b :: u8) < 256"
  using unsigned_less [of b, where ?'a = nat] by simp

lemma unat_u16_less: "unat (x :: u16) < 65536"
  using unsigned_less [of x, where ?'a = nat] by simp

lemma unat_u32_less: "unat (x :: u32) < 4294967296"
  using unsigned_less [of x, where ?'a = nat] by simp

lemma unat_or_disjoint:
  fixes m x :: "'a::len word"
  assumes "unat x < 2 ^ k" and "2 ^ k dvd unat m"
  shows "unat (m OR x) = unat m + unat x"
proof -
  obtain q where q: "unat m = 2 ^ k * q" using assms(2) by blast
  have "unat x = take_bit k (unat x)" using assms(1) by (simp add: take_bit_nat_eq_self)
  moreover have "unat m = push_bit k q" using q by (simp add: push_bit_eq_mult mult.commute)
  ultimately have "\<not> (bit (unat m) n \<and> bit (unat x) n)" for n
    by (metis bit_push_bit_iff bit_take_bit_iff leD)
  then have "unat m + unat x = unat m OR unat x"
    by (intro disjunctive_add) blast
  then show ?thesis by (simp add: unsigned_or_eq)
qed

lemma unat_ucast_mod: "unat (ucast x :: 'b::len word) = unat x mod 2 ^ LENGTH('b)" for x :: "'a::len word"
  by (simp add: unsigned_ucast_eq take_bit_eq_mod)

lemma mask_numerals:
  "0x3f = (mask 6 :: 'a::len word)" "0x1f = (mask 5 :: 'a word)" "0xf = (mask 4 :: 'a word)"
  "7 = (mask 3 :: 'a word)" "0x3ff = (mask 10 :: 'a word)"
  by (simp_all add: mask_eq_exp_minus_1)

lemma unat_and_low [unat_bits]:
  fixes x :: "'a::len word"
  shows "unat (x AND 0x3f) = unat x mod 64" "unat (x AND 0x1f) = unat x mod 32"
    "unat (x AND 0xf) = unat x mod 16" "unat (x AND 7) = unat x mod 8"
    "unat (x AND 0x3ff) = unat x mod 1024"
  unfolding mask_numerals unat_and_mask_mod by simp_all

lemma mod_offset:
  fixes x :: nat
  assumes "k dvd p" "p \<le> x" "x < p + k"
  shows "x mod k = x - p"
proof -
  obtain r where r: "x = p + r" "r < k" using assms(2,3) by (metis le_Suc_ex nat_add_left_cancel_less)
  then show ?thesis using assms(1) by auto
qed

subsection \<open>Byte order\<close>

text \<open>\<open>from_be_bytes\<close>, \<open>to_le_bytes\<close> and the like of the primitive integers.\<close>

definition u16_from_be_bytes :: "u8 \<Rightarrow> u8 \<Rightarrow> u16" where
  "u16_from_be_bytes a b = (push_bit 8 (ucast a)) OR ucast b"

definition u16_from_le_bytes :: "u8 \<Rightarrow> u8 \<Rightarrow> u16" where
  "u16_from_le_bytes a b = u16_from_be_bytes b a"

definition u32_from_be_bytes :: "u8 \<Rightarrow> u8 \<Rightarrow> u8 \<Rightarrow> u8 \<Rightarrow> u32" where
  "u32_from_be_bytes a b c d =
     (push_bit 24 (ucast a)) OR (push_bit 16 (ucast b)) OR (push_bit 8 (ucast c)) OR ucast d"

definition u32_from_le_bytes :: "u8 \<Rightarrow> u8 \<Rightarrow> u8 \<Rightarrow> u8 \<Rightarrow> u32" where
  "u32_from_le_bytes a b c d = u32_from_be_bytes d c b a"

definition u16_to_be_bytes :: "u16 \<Rightarrow> bytes" where
  "u16_to_be_bytes x = [ucast (drop_bit 8 x), ucast x]"

definition u16_to_le_bytes :: "u16 \<Rightarrow> bytes" where
  "u16_to_le_bytes x = rev (u16_to_be_bytes x)"

definition u32_to_be_bytes :: "u32 \<Rightarrow> bytes" where
  "u32_to_be_bytes x =
     [ucast (drop_bit 24 x), ucast (drop_bit 16 x), ucast (drop_bit 8 x), ucast x]"

definition u32_to_le_bytes :: "u32 \<Rightarrow> bytes" where
  "u32_to_le_bytes x = rev (u32_to_be_bytes x)"

lemma bit_u8_ge: "8 \<le> n \<Longrightarrow> \<not> bit (b :: u8) n"
  using bit_imp_le_length [of b n] by auto

lemma u16_be_from_to: "u16_from_be_bytes (ucast (drop_bit 8 x)) (ucast x) = x"
  unfolding u16_from_be_bytes_def
  by (rule bit_word_eqI) (auto simp: bit_simps)

lemma u16_be_to_from: "u16_to_be_bytes (u16_from_be_bytes a b) = [a, b]"
  unfolding u16_from_be_bytes_def u16_to_be_bytes_def
  by (auto intro!: bit_word_eqI simp: bit_simps bit_u8_ge)

lemma u32_be_from_to:
  "u32_from_be_bytes (ucast (drop_bit 24 x)) (ucast (drop_bit 16 x)) (ucast (drop_bit 8 x)) (ucast x) = x"
  unfolding u32_from_be_bytes_def
proof (rule bit_word_eqI)
  fix n assume "n < LENGTH(32)"
  consider "n < 8" | "8 \<le> n" "n < 16" | "16 \<le> n" "n < 24" | "24 \<le> n" by linarith
  then show "bit (push_bit 24 (ucast (ucast (drop_bit 24 x) :: u8)) OR push_bit 16 (ucast (ucast (drop_bit 16 x) :: u8))
     OR push_bit 8 (ucast (ucast (drop_bit 8 x) :: u8)) OR ucast (ucast x :: u8) :: u32) n = bit x n"
    using \<open>n < LENGTH(32)\<close> by cases (auto simp: bit_simps)
qed

lemma u32_be_to_from: "u32_to_be_bytes (u32_from_be_bytes a b c d) = [a, b, c, d]"
  unfolding u32_from_be_bytes_def u32_to_be_bytes_def
  by (auto intro!: bit_word_eqI simp: bit_simps bit_u8_ge)

subsection \<open>Transition systems\<close>

text \<open>
  The interface of a stateful component whose operations are run in any order: an
  initial state, a step relation and an invariant that the first establishes and the
  second keeps. The lemmas lift the invariant to every reachable state and to whole
  runs; each stateful component interprets the locale on its own operations.
\<close>

locale transition_system =
  fixes init :: "'s \<Rightarrow> bool"
    and step :: "'s \<Rightarrow> 's \<Rightarrow> bool"
    and inv :: "'s \<Rightarrow> bool"
  assumes init_inv: "init s \<Longrightarrow> inv s"
    and step_inv: "inv s \<Longrightarrow> step s t \<Longrightarrow> inv t"
begin

lemma steps_inv: "step\<^sup>*\<^sup>* s t \<Longrightarrow> inv s \<Longrightarrow> inv t"
  by (induction rule: rtranclp_induct) (auto intro: step_inv)

lemma reachable_inv: "init s \<Longrightarrow> step\<^sup>*\<^sup>* s t \<Longrightarrow> inv t"
  using steps_inv init_inv by blast

end

end
