(* ===== verification/Text.thy ===== *)
theory Text
  imports Prelude "HOL-Library.Sublist"
begin

text \<open>
  \<open>crabc-core/src/text.rs\<close>: ASCII case-insensitive comparison and search, musl
  version ordering, and the two non-mutating cursors over delimiter-separated bytes;
  and \<open>libc/src/strverscmp.rs\<close>, the C entry that implements the same version order.
  Every \<open>while\<close> loop over an index is a recursive function on that index.
\<close>

subsection \<open>ASCII case folding\<close>

definition ascii_lower :: "u8 \<Rightarrow> u8" where
  "ascii_lower byte = (if 65 \<le> byte \<and> byte \<le> 90 then byte + (97 - 65) else byte)"

function ascii_case_insensitive_cmp_from :: "bytes \<Rightarrow> bytes \<Rightarrow> nat \<Rightarrow> ordering" where
  "ascii_case_insensitive_cmp_from left right index =
     (if index < length left \<and> index < length right then
        (case cmp (ascii_lower (left ! index)) (ascii_lower (right ! index)) of
           Equal \<Rightarrow> ascii_case_insensitive_cmp_from left right (index + 1)
         | Less \<Rightarrow> Less
         | Greater \<Rightarrow> Greater)
      else cmp (length left) (length right))"
  by pat_completeness auto
termination
  by (relation "measure (\<lambda>(left, right, index). length left - index)") auto

declare ascii_case_insensitive_cmp_from.simps [simp del]

definition ascii_case_insensitive_cmp :: "bytes \<Rightarrow> bytes \<Rightarrow> ordering" where
  "ascii_case_insensitive_cmp left right = ascii_case_insensitive_cmp_from left right 0"

definition ascii_case_insensitive_eq :: "bytes \<Rightarrow> bytes \<Rightarrow> bool" where
  "ascii_case_insensitive_eq left right \<longleftrightarrow> ascii_case_insensitive_cmp left right = Equal"

function ascii_case_insensitive_find_from :: "bytes \<Rightarrow> bytes \<Rightarrow> nat \<Rightarrow> nat option" where
  "ascii_case_insensitive_find_from haystack needle start =
     (if start \<le> length haystack - length needle then
        if ascii_case_insensitive_eq (take (length needle) (drop start haystack)) needle
        then Some start
        else ascii_case_insensitive_find_from haystack needle (start + 1)
      else None)"
  by pat_completeness auto
termination
  by (relation "measure (\<lambda>(haystack, needle, start). Suc (length haystack) - start)") auto

declare ascii_case_insensitive_find_from.simps [simp del]

definition ascii_case_insensitive_find :: "bytes \<Rightarrow> bytes \<Rightarrow> nat option" where
  "ascii_case_insensitive_find haystack needle =
     (if needle = [] then Some 0
      else if length needle > length haystack then None
      else ascii_case_insensitive_find_from haystack needle 0)"

subsection \<open>Version order\<close>

definition is_ascii_digit :: "u8 \<Rightarrow> bool" where
  "is_ascii_digit byte \<longleftrightarrow> 48 \<le> byte \<and> byte \<le> 57"

text \<open>\<open>slice.get(i).copied().unwrap_or(d)\<close>, and \<open>get(i).is_some_and(p)\<close>.\<close>

definition byte_or :: "bytes \<Rightarrow> nat \<Rightarrow> u8 \<Rightarrow> u8" where
  "byte_or xs i d = (if i < length xs then xs ! i else d)"

definition byte_is :: "bytes \<Rightarrow> nat \<Rightarrow> (u8 \<Rightarrow> bool) \<Rightarrow> bool" where
  "byte_is xs i p \<longleftrightarrow> i < length xs \<and> p (xs ! i)"

function version_prefix :: "bytes \<Rightarrow> bytes \<Rightarrow> nat \<Rightarrow> nat \<Rightarrow> bool \<Rightarrow> nat \<times> nat \<times> bool" where
  "version_prefix left right index digit_prefix all_zero =
     (if index < length left \<and> index < length right \<and> left ! index = right ! index then
        let byte = left ! index in
        if \<not> is_ascii_digit byte then version_prefix left right (index + 1) (index + 1) True
        else if byte \<noteq> 48 then version_prefix left right (index + 1) digit_prefix False
        else version_prefix left right (index + 1) digit_prefix all_zero
      else (index, digit_prefix, all_zero))"
  by pat_completeness auto
termination
  by (relation "measure (\<lambda>(left, right, index, dp, z). length left - index)") auto

declare version_prefix.simps [simp del]

text \<open>The digit-run loop: the ordering it returns early, or the index where it stopped.\<close>

function version_digit_run :: "bytes \<Rightarrow> bytes \<Rightarrow> nat \<Rightarrow> ordering + nat" where
  "version_digit_run left right left_end =
     (if byte_is left left_end is_ascii_digit then
        if \<not> byte_is right left_end is_ascii_digit then Inl Greater
        else version_digit_run left right (left_end + 1)
      else Inr left_end)"
  by pat_completeness auto
termination
  by (relation "measure (\<lambda>(left, right, e). length left - e)") (auto simp: byte_is_def)

declare version_digit_run.simps [simp del]

definition version_cmp_bytes :: "bytes \<Rightarrow> bytes \<Rightarrow> nat \<Rightarrow> ordering" where
  "version_cmp_bytes left right index = cmp (byte_or left index 0) (byte_or right index 0)"

definition version_cmp :: "bytes \<Rightarrow> bytes \<Rightarrow> ordering" where
  "version_cmp left right =
     (case version_prefix left right 0 0 True of (index, digit_prefix, all_zero) \<Rightarrow>
        if index = length left \<and> index = length right then Equal
        else if byte_is left digit_prefix (\<lambda>byte. byte - 49 < 9)
              \<and> byte_is right digit_prefix (\<lambda>byte. byte - 49 < 9) then
          (case version_digit_run left right index of
             Inl early \<Rightarrow> early
           | Inr left_end \<Rightarrow>
               if byte_is right left_end is_ascii_digit then Less
               else version_cmp_bytes left right index)
        else if all_zero \<and> digit_prefix < index
              \<and> (byte_is left index is_ascii_digit \<or> byte_is right index is_ascii_digit) then
          cmp (byte_or left index 48 - 48) (byte_or right index 48 - 48)
        else version_cmp_bytes left right index)"

text \<open>
  The C entry \<open>strverscmp\<close> of \<open>libc/src/strverscmp.rs\<close>. A C string is the list of
  its bytes before the terminator, and \<open>cbyte\<close> reads the terminator at its length.
\<close>

definition cbyte :: "bytes \<Rightarrow> nat \<Rightarrow> u8" where
  "cbyte xs i = byte_or xs i 0"

function strverscmp_prefix :: "bytes \<Rightarrow> bytes \<Rightarrow> nat \<Rightarrow> nat \<Rightarrow> bool \<Rightarrow> (nat \<times> nat \<times> bool) option" where
  "strverscmp_prefix l r i dp z =
     (if cbyte l i = cbyte r i then
        let c = cbyte l i in
        if c = 0 then None
        else if \<not> is_ascii_digit c then strverscmp_prefix l r (i + 1) (i + 1) True
        else if c \<noteq> 48 then strverscmp_prefix l r (i + 1) dp False
        else strverscmp_prefix l r (i + 1) dp z
      else Some (i, dp, z))"
  by pat_completeness auto
termination
  by (relation "measure (\<lambda>(l, r, i, dp, z). length l - i)")
     (auto simp: cbyte_def byte_or_def split: if_splits)

declare strverscmp_prefix.simps [simp del]

function strverscmp_digits :: "bytes \<Rightarrow> bytes \<Rightarrow> nat \<Rightarrow> int + nat" where
  "strverscmp_digits l r j =
     (if is_ascii_digit (cbyte l j) then
        if \<not> is_ascii_digit (cbyte r j) then Inl 1 else strverscmp_digits l r (j + 1)
      else Inr j)"
  by pat_completeness auto
termination
  by (relation "measure (\<lambda>(l, r, j). length l - j)")
     (auto simp: cbyte_def byte_or_def is_ascii_digit_def split: if_splits)

declare strverscmp_digits.simps [simp del]

definition strverscmp :: "bytes \<Rightarrow> bytes \<Rightarrow> int" where
  "strverscmp l r =
     (case strverscmp_prefix l r 0 0 True of
        None \<Rightarrow> 0
      | Some (i, dp, z) \<Rightarrow>
          if cbyte l dp - 49 < 9 \<and> cbyte r dp - 49 < 9 then
            (case strverscmp_digits l r i of
               Inl v \<Rightarrow> v
             | Inr j \<Rightarrow>
                 if is_ascii_digit (cbyte r j) then -1
                 else uint (cbyte l i) - uint (cbyte r i))
          else if z \<and> dp < i \<and> (is_ascii_digit (cbyte l i) \<or> is_ascii_digit (cbyte r i)) then
            uint (cbyte l i - 48) - uint (cbyte r i - 48)
          else uint (cbyte l i) - uint (cbyte r i))"

subsection \<open>Cursors\<close>

record split_cursor =
  sc_input :: bytes
  sc_delimiters :: bytes
  sc_offset :: nat
  sc_finished :: bool

definition split_new :: "bytes \<Rightarrow> bytes \<Rightarrow> split_cursor" where
  "split_new input delimiters =
     \<lparr>sc_input = input, sc_delimiters = delimiters, sc_offset = 0, sc_finished = False\<rparr>"

text \<open>The two scanning loops: \<open>scan_while p\<close> advances while the byte satisfies \<open>p\<close>.\<close>

function scan_while :: "(u8 \<Rightarrow> bool) \<Rightarrow> bytes \<Rightarrow> nat \<Rightarrow> nat" where
  "scan_while p input offset =
     (if offset < length input \<and> p (input ! offset) then scan_while p input (offset + 1)
      else offset)"
  by pat_completeness auto
termination
  by (relation "measure (\<lambda>(p, input, offset). length input - offset)") auto

declare scan_while.simps [simp del]

definition split_next_field :: "split_cursor \<Rightarrow> bytes option \<times> split_cursor" where
  "split_next_field self =
     (if sc_finished self then (None, self)
      else
        let start = sc_offset self;
            offset = scan_while (\<lambda>b. b \<notin> set (sc_delimiters self)) (sc_input self) start;
            field = take (offset - start) (drop start (sc_input self))
        in (Some field,
            if offset = length (sc_input self)
            then self\<lparr>sc_offset := offset, sc_finished := True\<rparr>
            else self\<lparr>sc_offset := offset + 1\<rparr>))"

definition split_remainder :: "split_cursor \<Rightarrow> bytes" where
  "split_remainder self = (if sc_finished self then [] else drop (sc_offset self) (sc_input self))"

record token_cursor =
  tc_input :: bytes
  tc_delimiters :: bytes
  tc_offset :: nat

definition token_new :: "bytes \<Rightarrow> bytes \<Rightarrow> token_cursor" where
  "token_new input delimiters =
     \<lparr>tc_input = input, tc_delimiters = delimiters, tc_offset = 0\<rparr>"

definition token_next_token :: "token_cursor \<Rightarrow> bytes option \<times> token_cursor" where
  "token_next_token self =
     (let start = scan_while (\<lambda>b. b \<in> set (tc_delimiters self)) (tc_input self) (tc_offset self)
      in if start = length (tc_input self) then (None, self\<lparr>tc_offset := start\<rparr>)
         else
           let offset = scan_while (\<lambda>b. b \<notin> set (tc_delimiters self)) (tc_input self) start
           in (Some (take (offset - start) (drop start (tc_input self))),
               self\<lparr>tc_offset := offset\<rparr>))"

definition token_remainder :: "token_cursor \<Rightarrow> bytes" where
  "token_remainder self = drop (tc_offset self) (tc_input self)"

text \<open>Draining an iterator: at most \<open>fuel\<close> calls of its \<open>next\<close>.\<close>

fun collect :: "nat \<Rightarrow> ('c \<Rightarrow> 'a option \<times> 'c) \<Rightarrow> 'c \<Rightarrow> 'a list" where
  "collect 0 next c = []"
| "collect (Suc fuel) next c =
     (case next c of (None, c') \<Rightarrow> [] | (Some x, c') \<Rightarrow> x # collect fuel next c')"


subsection \<open>Case-insensitive comparison is the lexicographic order of the folded bytes\<close>

lemma drop_Cons_nth: "i < length xs \<Longrightarrow> drop i xs = xs ! i # drop (Suc i) xs"
  by (simp add: Cons_nth_drop_Suc)

lemma ascii_case_insensitive_cmp_from_Equal_iff:
  "index \<le> length left \<Longrightarrow> index \<le> length right \<Longrightarrow>
   ascii_case_insensitive_cmp_from left right index = Equal \<longleftrightarrow>
   map ascii_lower (drop index left) = map ascii_lower (drop index right)"
proof (induction left right index rule: ascii_case_insensitive_cmp_from.induct)
  case (1 left right index)
  show ?case
  proof (cases "index < length left \<and> index < length right")
    case True
    then show ?thesis using 1
      by (subst ascii_case_insensitive_cmp_from.simps)
         (auto simp: drop_Cons_nth split: ordering.splits)
  next
    case False
    with "1.prems" show ?thesis
      by (subst ascii_case_insensitive_cmp_from.simps) auto
  qed
qed

lemma ascii_case_insensitive_cmp_from_Less_iff:
  "index \<le> length left \<Longrightarrow> index \<le> length right \<Longrightarrow>
   ascii_case_insensitive_cmp_from left right index = Less \<longleftrightarrow>
   (map ascii_lower (drop index left), map ascii_lower (drop index right)) \<in> lexord {(x, y). x < y}"
proof (induction left right index rule: ascii_case_insensitive_cmp_from.induct)
  case (1 left right index)
  show ?case
  proof (cases "index < length left \<and> index < length right")
    case True
    then show ?thesis using 1
      by (subst ascii_case_insensitive_cmp_from.simps)
         (auto simp: drop_Cons_nth split: ordering.splits)
  next
    case False
    then have "ascii_case_insensitive_cmp_from left right index = cmp (length left) (length right)"
      by (subst ascii_case_insensitive_cmp_from.simps) auto
    with False "1.prems" show ?thesis
      by (cases "drop index right"; cases "drop index left")
         (auto dest: arg_cong [where f = length])
  qed
qed

lemma ascii_case_insensitive_cmp_from_reverse:
  "ascii_case_insensitive_cmp_from right left index =
   reverse_ordering (ascii_case_insensitive_cmp_from left right index)"
proof (induction left right index rule: ascii_case_insensitive_cmp_from.induct)
  case (1 left right index)
  show ?case
  proof (cases "index < length left \<and> index < length right")
    case True
    then show ?thesis using 1
      by (subst (1 2) ascii_case_insensitive_cmp_from.simps)
         (auto split: ordering.splits)
  next
    case False
    then show ?thesis
      by (subst (1 2) ascii_case_insensitive_cmp_from.simps) (auto simp: reverse_cmp)
  qed
qed

lemma ascii_case_insensitive_eq_iff:
  "ascii_case_insensitive_eq left right \<longleftrightarrow> map ascii_lower left = map ascii_lower right"
  by (simp add: ascii_case_insensitive_eq_def ascii_case_insensitive_cmp_def
      ascii_case_insensitive_cmp_from_Equal_iff)

text \<open>C39. the three results of \<open>ascii_case_insensitive_cmp\<close> are exactly the three cases
  of the lexicographic order of the case-folded byte strings, so it is a total preorder
  whose equivalence is equality up to ASCII case.\<close>

theorem ascii_case_insensitive_cmp_lexicographic:
  "(ascii_case_insensitive_cmp left right = Less \<longleftrightarrow>
      (map ascii_lower left, map ascii_lower right) \<in> lexord {(x, y). x < y}) \<and>
   (ascii_case_insensitive_cmp left right = Equal \<longleftrightarrow>
      map ascii_lower left = map ascii_lower right) \<and>
   (ascii_case_insensitive_cmp left right = Greater \<longleftrightarrow>
      (map ascii_lower right, map ascii_lower left) \<in> lexord {(x, y). x < y})"
proof -
  have "ascii_case_insensitive_cmp left right = Greater \<longleftrightarrow>
      ascii_case_insensitive_cmp_from right left 0 = Less"
    by (subst ascii_case_insensitive_cmp_from_reverse)
       (cases "ascii_case_insensitive_cmp_from left right 0";
        simp add: ascii_case_insensitive_cmp_def)
  then show ?thesis
    by (simp add: ascii_case_insensitive_cmp_def ascii_case_insensitive_cmp_from_Less_iff
        ascii_case_insensitive_cmp_from_Equal_iff)
qed

subsection \<open>Case-insensitive search finds the first occurrence\<close>

definition ci_occurs :: "bytes \<Rightarrow> bytes \<Rightarrow> nat \<Rightarrow> bool" where
  "ci_occurs haystack needle i \<longleftrightarrow>
     i + length needle \<le> length haystack \<and>
     map ascii_lower (take (length needle) (drop i haystack)) = map ascii_lower needle"

lemma ascii_case_insensitive_find_from_correct:
  assumes "length needle \<le> length haystack"
  shows "case ascii_case_insensitive_find_from haystack needle start of
           Some i \<Rightarrow> start \<le> i \<and> ci_occurs haystack needle i \<and>
                     (\<forall>j. start \<le> j \<and> j < i \<longrightarrow> \<not> ci_occurs haystack needle j)
         | None \<Rightarrow> \<forall>j. start \<le> j \<longrightarrow> \<not> ci_occurs haystack needle j"
  using assms
proof (induction haystack needle start rule: ascii_case_insensitive_find_from.induct)
  case (1 haystack needle start)
  let ?occ = "ci_occurs haystack needle"
  show ?case
  proof (cases "start \<le> length haystack - length needle")
    case False
    with "1.prems" show ?thesis
      by (subst ascii_case_insensitive_find_from.simps) (auto simp: ci_occurs_def)
  next
    case inside: True
    show ?thesis
    proof (cases "?occ start")
      case True
      with inside "1.prems" show ?thesis
        by (subst ascii_case_insensitive_find_from.simps)
           (auto simp: ci_occurs_def ascii_case_insensitive_eq_iff)
    next
      case False
      with inside "1.prems" have neq: "\<not> ascii_case_insensitive_eq
          (take (length needle) (drop start haystack)) needle"
        by (auto simp: ci_occurs_def ascii_case_insensitive_eq_iff)
      have step: "start \<le> j \<longleftrightarrow> j = start \<or> start + 1 \<le> j" for j by auto
      have "ascii_case_insensitive_find_from haystack needle start =
          ascii_case_insensitive_find_from haystack needle (start + 1)"
        by (subst ascii_case_insensitive_find_from.simps) (simp add: inside neq)
      with "1.IH" [OF inside neq "1.prems"] False show ?thesis
        by (auto simp: step split: option.splits)
    qed
  qed
qed

text \<open>C38. \<open>ascii_case_insensitive_find\<close> returns the least offset at which the needle
  occurs up to ASCII case, and \<open>None\<close> exactly when it occurs nowhere.\<close>

theorem ascii_case_insensitive_find_least:
  "ascii_case_insensitive_find haystack needle =
     (if \<exists>i. ci_occurs haystack needle i
      then Some (LEAST i. ci_occurs haystack needle i) else None)"
proof -
  consider "needle = []" | "length needle > length haystack"
    | "needle \<noteq> []" "length needle \<le> length haystack" by linarith
  then show ?thesis
  proof cases
    case 1
    then have occ: "ci_occurs haystack needle 0" by (simp add: ci_occurs_def)
    then have "(LEAST i. ci_occurs haystack needle i) = 0" by (rule Least_eq_0)
    with occ 1 show ?thesis by (auto simp: ascii_case_insensitive_find_def)
  next
    case 2
    then show ?thesis by (auto simp: ascii_case_insensitive_find_def ci_occurs_def)
  next
    case 3
    then have eq: "ascii_case_insensitive_find haystack needle =
        ascii_case_insensitive_find_from haystack needle 0"
      by (simp add: ascii_case_insensitive_find_def)
    show ?thesis
    proof (cases "ascii_case_insensitive_find_from haystack needle 0")
      case None
      with ascii_case_insensitive_find_from_correct [OF 3(2), of 0] eq show ?thesis by simp
    next
      case (Some i)
      with ascii_case_insensitive_find_from_correct [OF 3(2), of 0]
      have "ci_occurs haystack needle i" "\<And>j. j < i \<Longrightarrow> \<not> ci_occurs haystack needle j" by auto
      then have "(LEAST k. ci_occurs haystack needle k) = i"
        by (intro Least_equality) (auto simp: not_less [symmetric])
      with Some eq \<open>ci_occurs haystack needle i\<close> show ?thesis by auto
    qed
  qed
qed


subsection \<open>Version order: the common prefix\<close>

text \<open>What the prefix loop knows at index \<open>i\<close>: both strings agree below \<open>i\<close>,
  \<open>dp\<close> is the start of the digit run that ends at \<open>i\<close>, and \<open>z\<close> says whether that
  run holds zeros only.\<close>

definition prefix_state :: "bytes \<Rightarrow> bytes \<Rightarrow> nat \<times> nat \<times> bool \<Rightarrow> bool" where
  "prefix_state l r s = (case s of (i, dp, z) \<Rightarrow>
     i \<le> length l \<and> i \<le> length r \<and> take i l = take i r \<and> dp \<le> i \<and>
     (\<forall>k. dp \<le> k \<and> k < i \<longrightarrow> is_ascii_digit (l ! k)) \<and>
     (dp = 0 \<or> \<not> is_ascii_digit (l ! (dp - 1))) \<and>
     (z \<longleftrightarrow> (\<forall>k. dp \<le> k \<and> k < i \<longrightarrow> l ! k = 48)))"

definition prefix_stop :: "bytes \<Rightarrow> bytes \<Rightarrow> nat \<Rightarrow> bool" where
  "prefix_stop l r i \<longleftrightarrow> \<not> (i < length l \<and> i < length r \<and> l ! i = r ! i)"

lemma digit_48 [simp]: "is_ascii_digit 48"
  by (simp add: is_ascii_digit_def)

lemma version_prefix_state:
  "prefix_state l r (i, dp, z) \<Longrightarrow>
   prefix_state l r (version_prefix l r i dp z) \<and>
   prefix_stop l r (fst (version_prefix l r i dp z))"
proof (induction l r i dp z rule: version_prefix.induct)
  case (1 l r i dp z)
  show ?case
  proof (cases "i < length l \<and> i < length r \<and> l ! i = r ! i")
    case False
    with "1.prems" show ?thesis
      by (subst (1 2) version_prefix.simps) (auto simp: prefix_stop_def)
  next
    case True
    have below: "k < Suc i \<longleftrightarrow> k = i \<or> k < i" for k by auto
    from True "1.prems" have tk: "take (Suc i) l = take (Suc i) r"
      by (simp add: prefix_state_def take_Suc_conv_app_nth)
    show ?thesis
    proof (cases "is_ascii_digit (l ! i)")
      case False
      with True tk "1.prems" have st: "prefix_state l r (i + 1, i + 1, True)"
        by (auto simp: prefix_state_def)
      have eq: "version_prefix l r i dp z = version_prefix l r (i + 1) (i + 1) True"
        using True False by (subst version_prefix.simps) (simp add: Let_def)
      show ?thesis unfolding eq by (rule "1.IH"(1) [OF True refl False st])
    next
      case digit: True
      show ?thesis
      proof (cases "l ! i = 48")
        case False
        with True tk digit "1.prems" have st: "prefix_state l r (i + 1, dp, False)"
          by (auto simp: prefix_state_def below)
        have eq: "version_prefix l r i dp z = version_prefix l r (i + 1) dp False"
          using True False digit by (subst version_prefix.simps) (simp add: Let_def)
        from digit False show ?thesis unfolding eq
          by (intro "1.IH"(2) [OF True refl _ _ st]) auto
      next
        case zero: True
        with True tk digit "1.prems" have st: "prefix_state l r (i + 1, dp, z)"
          by (auto simp: prefix_state_def below)
        have eq: "version_prefix l r i dp z = version_prefix l r (i + 1) dp z"
          using True zero digit by (subst version_prefix.simps) (simp add: Let_def)
        from digit zero show ?thesis unfolding eq
          by (intro "1.IH"(3) [OF True refl _ _ st]) auto
      qed
    qed
  qed
qed

lemma version_prefix_start:
  "prefix_state l r (version_prefix l r 0 0 True)"
  "prefix_stop l r (fst (version_prefix l r 0 0 True))"
  using version_prefix_state [of l r 0 0 True] by (simp_all add: prefix_state_def)

lemma version_prefix_commute: "version_prefix r l i dp z = version_prefix l r i dp z"
proof (induction l r i dp z rule: version_prefix.induct)
  case (1 l r i dp z)
  show ?case
  proof (cases "i < length l \<and> i < length r \<and> l ! i = r ! i")
    case True
    with 1 show ?thesis
      by (subst (1 2) version_prefix.simps) (simp add: Let_def)
  next
    case False
    then show ?thesis by (subst (1 2) version_prefix.simps) auto
  qed
qed

lemma prefix_state_agree:
  assumes "prefix_state l r (a, x, y)" "k < a"
  shows "k < length l \<and> k < length r \<and> l ! k = r ! k"
proof -
  from assms have "take a l = take a r" "a \<le> length l" "a \<le> length r"
    by (simp_all add: prefix_state_def)
  with \<open>k < a\<close> show ?thesis by (metis nth_take order_less_le_trans)
qed

text \<open>The prefix state is determined by the two strings: the index is the length of the
  common prefix and the digit run is its maximal digit suffix.\<close>

lemma prefix_state_unique:
  assumes "prefix_state l r (i, dp, z)" "prefix_stop l r i"
    and "prefix_state l r (i', dp', z')" "prefix_stop l r i'"
  shows "i = i' \<and> dp = dp' \<and> z = z'"
proof -
  have agree: "prefix_state l r (a, x, y) \<Longrightarrow> k < a \<Longrightarrow> k < length l \<and> k < length r \<and> l ! k = r ! k" for a x y k
    by (rule prefix_state_agree)
  have i: "i = i'"
    using assms agree by (metis linorder_neqE_nat prefix_stop_def)
  have digits: "dp \<le> k \<Longrightarrow> k < i \<Longrightarrow> is_ascii_digit (l ! k)"
      "dp' \<le> k \<Longrightarrow> k < i \<Longrightarrow> is_ascii_digit (l ! k)" for k
    using assms i by (auto simp: prefix_state_def)
  have ends: "dp \<le> i" "dp' \<le> i" "dp = 0 \<or> \<not> is_ascii_digit (l ! (dp - 1))"
      "dp' = 0 \<or> \<not> is_ascii_digit (l ! (dp' - 1))"
    using assms i by (auto simp: prefix_state_def)
  have dp: "dp = dp'"
  proof (rule ccontr)
    assume "dp \<noteq> dp'"
    then consider "dp < dp'" | "dp' < dp" by linarith
    then show False
      using digits(1) [of "dp' - 1"] digits(2) [of "dp - 1"] ends by cases auto
  qed
  from assms i dp show ?thesis by (auto simp: prefix_state_def)
qed

subsection \<open>Version order: the digit runs\<close>

lemma scan_while_ge: "i \<le> scan_while p xs i"
proof (induction p xs i rule: scan_while.induct)
  case (1 p xs i)
  then show ?case by (subst scan_while.simps) auto
qed

lemma scan_while_le: "i \<le> length xs \<Longrightarrow> scan_while p xs i \<le> length xs"
proof (induction p xs i rule: scan_while.induct)
  case (1 p xs i)
  then show ?case by (subst scan_while.simps) auto
qed

lemma scan_while_all: "i \<le> k \<Longrightarrow> k < scan_while p xs i \<Longrightarrow> k < length xs \<and> p (xs ! k)"
proof (induction p xs i rule: scan_while.induct)
  case (1 p xs i)
  show ?case
  proof (cases "i < length xs \<and> p (xs ! i)")
    case True
    then have "scan_while p xs i = scan_while p xs (i + 1)" by (subst scan_while.simps) simp
    with 1 True show ?thesis by (cases "k = i") auto
  next
    case False
    then have "scan_while p xs i = i" by (subst scan_while.simps) auto
    with 1 show ?thesis by simp
  qed
qed

lemma scan_while_stop: "\<not> (scan_while p xs i < length xs \<and> p (xs ! scan_while p xs i))"
proof (induction p xs i rule: scan_while.induct)
  case (1 p xs i)
  show ?case
  proof (cases "i < length xs \<and> p (xs ! i)")
    case True
    then have "scan_while p xs i = scan_while p xs (i + 1)" by (subst scan_while.simps) simp
    with 1 True show ?thesis by simp
  next
    case False
    then have "scan_while p xs i = i" by (subst scan_while.simps) auto
    with False show ?thesis by simp
  qed
qed

lemma scan_while_Suc:
  "i < length xs \<Longrightarrow> p (xs ! i) \<Longrightarrow> scan_while p xs i = scan_while p xs (Suc i)"
  by (subst scan_while.simps) simp

abbreviation digits_end :: "bytes \<Rightarrow> nat \<Rightarrow> nat" where
  "digits_end \<equiv> scan_while is_ascii_digit"

lemma version_digit_run_eq:
  "version_digit_run l r i =
     (if digits_end r i < digits_end l i then Inl Greater else Inr (digits_end l i))"
proof (induction l r i rule: version_digit_run.induct)
  case (1 l r i)
  consider (stop) "\<not> byte_is l i is_ascii_digit"
    | (gt) "byte_is l i is_ascii_digit" "\<not> byte_is r i is_ascii_digit"
    | (go) "byte_is l i is_ascii_digit" "byte_is r i is_ascii_digit" by blast
  then show ?case
  proof cases
    case stop
    then have "digits_end l i = i" by (subst scan_while.simps) (auto simp: byte_is_def)
    moreover have "version_digit_run l r i = Inr i" using stop by (subst version_digit_run.simps) simp
    ultimately show ?thesis using scan_while_ge [of i is_ascii_digit r] by auto
  next
    case gt
    then have "digits_end r i = i" by (subst scan_while.simps) (auto simp: byte_is_def)
    moreover have "i < digits_end l i"
      using gt scan_while_Suc [of i l is_ascii_digit] scan_while_ge [of "Suc i" is_ascii_digit l]
      by (auto simp: byte_is_def)
    moreover have "version_digit_run l r i = Inl Greater"
      using gt by (subst version_digit_run.simps) simp
    ultimately show ?thesis by simp
  next
    case go
    then have "version_digit_run l r i = version_digit_run l r (i + 1)"
      by (subst version_digit_run.simps) simp
    with 1 go show ?thesis
      by (auto simp: byte_is_def scan_while_Suc)
  qed
qed

lemma byte_is_digits_end:
  assumes "digits_end l i \<le> digits_end r i"
  shows "byte_is r (digits_end l i) is_ascii_digit \<longleftrightarrow> digits_end l i < digits_end r i"
  using scan_while_all [of i "digits_end l i" is_ascii_digit r]
    scan_while_stop [of is_ascii_digit r i] scan_while_ge [of i is_ascii_digit l] assms
  by (auto simp: byte_is_def le_less)


text \<open>The digit-run branch of both comparisons, in closed form.\<close>

lemma version_cmp_run:
  "(case version_digit_run l r i of
      Inl early \<Rightarrow> early
    | Inr e \<Rightarrow> if byte_is r e is_ascii_digit then Less else version_cmp_bytes l r i) =
   (case cmp (digits_end l i) (digits_end r i) of
      Greater \<Rightarrow> Greater | Less \<Rightarrow> Less | Equal \<Rightarrow> version_cmp_bytes l r i)"
  by (auto simp: version_digit_run_eq byte_is_digits_end cmp_def not_less)

lemma version_cmp_bytes_reverse:
  "version_cmp_bytes r l i = reverse_ordering (version_cmp_bytes l r i)"
  by (simp add: version_cmp_bytes_def reverse_cmp)

text \<open>Exchanging the operands of \<open>version_cmp\<close> reverses the result, on every branch
  (digit runs, zero runs, plain bytes, exhausted strings).\<close>

lemma version_cmp_reverse:
  "version_cmp right left = reverse_ordering (version_cmp left right)"
proof -
  obtain i dp z where st: "version_prefix left right 0 0 True = (i, dp, z)" by (metis surj_pair)
  then have st': "version_prefix right left 0 0 True = (i, dp, z)"
    by (simp add: version_prefix_commute)
  have run: "(case cmp (digits_end right i) (digits_end left i) of
        Greater \<Rightarrow> Greater | Less \<Rightarrow> Less | Equal \<Rightarrow> version_cmp_bytes right left i) =
      reverse_ordering (case cmp (digits_end left i) (digits_end right i) of
        Greater \<Rightarrow> Greater | Less \<Rightarrow> Less | Equal \<Rightarrow> version_cmp_bytes left right i)"
    by (auto simp: cmp_def version_cmp_bytes_reverse [symmetric])
  show ?thesis
    by (auto simp: version_cmp_def st st' version_cmp_run run reverse_cmp
        version_cmp_bytes_reverse [symmetric])
qed

subsection \<open>Version order against the C entry\<close>

definition nul_free :: "bytes \<Rightarrow> bool" where
  "nul_free xs \<longleftrightarrow> 0 \<notin> set xs"

text \<open>The sign of a C comparison result.\<close>

definition sign_ordering :: "int \<Rightarrow> ordering" where
  "sign_ordering v = cmp v 0"

lemma sign_ordering_uint_diff: "sign_ordering (uint a - uint b) = cmp a b" for a b :: u8
  by (simp add: sign_ordering_def cmp_def word_less_def word_uint_eq_iff)

lemma cbyte_in: "i < length xs \<Longrightarrow> cbyte xs i = xs ! i"
  and cbyte_out: "length xs \<le> i \<Longrightarrow> cbyte xs i = 0"
  by (simp_all add: cbyte_def byte_or_def)

lemma nul_free_nth: "nul_free xs \<Longrightarrow> i < length xs \<Longrightarrow> xs ! i \<noteq> 0"
  by (metis nth_mem nul_free_def)

lemma not_digit_0 [simp]: "\<not> is_ascii_digit 0"
  by (simp add: is_ascii_digit_def)

lemma digit_cbyte: "is_ascii_digit (cbyte xs i) \<longleftrightarrow> byte_is xs i is_ascii_digit"
  by (simp add: cbyte_def byte_or_def byte_is_def)

lemma nonzero_digit_cbyte: "cbyte xs i - 49 < 9 \<longleftrightarrow> byte_is xs i (\<lambda>byte. byte - 49 < 9)"
  by (simp add: cbyte_def byte_or_def byte_is_def)

lemma cmp_cbyte: "cmp (cbyte l i) (cbyte r i) = version_cmp_bytes l r i"
  by (simp add: version_cmp_bytes_def cbyte_def)

lemma strverscmp_prefix_eq:
  assumes "nul_free l" "nul_free r"
  shows "i \<le> length l \<Longrightarrow> i \<le> length r \<Longrightarrow>
    strverscmp_prefix l r i dp z =
      (case version_prefix l r i dp z of (i', dp', z') \<Rightarrow>
         if i' = length l \<and> i' = length r then None else Some (i', dp', z'))"
  using assms
proof (induction l r i dp z rule: version_prefix.induct)
  case (1 l r i dp z)
  show ?case
  proof (cases "i < length l \<and> i < length r \<and> l ! i = r ! i")
    case True
    have c: "cbyte l i = l ! i" "cbyte r i = l ! i" "l ! i \<noteq> 0"
      using True "1.prems" by (auto simp: cbyte_in nul_free_nth)
    have b: "i + 1 \<le> length l" "i + 1 \<le> length r" using True by auto
    note IH = "1.IH"(1) [OF True refl _ b "1.prems"(3,4)]
      "1.IH"(2) [OF True refl _ _ b "1.prems"(3,4)] "1.IH"(3) [OF True refl _ _ b "1.prems"(3,4)]
    from True c IH show ?thesis
      by (subst strverscmp_prefix.simps, subst version_prefix.simps)
         (simp add: Let_def split: prod.splits)
  next
    case False
    then have v: "version_prefix l r i dp z = (i, dp, z)"
      by (subst version_prefix.simps) auto
    have "cbyte l i = cbyte r i \<longleftrightarrow> i = length l \<and> i = length r"
      using False "1.prems" by (auto simp: cbyte_def byte_or_def nul_free_nth)
    moreover have "i = length l \<Longrightarrow> cbyte l i = 0" by (simp add: cbyte_out)
    ultimately show ?thesis
      by (subst strverscmp_prefix.simps) (simp add: v Let_def)
  qed
qed

lemma strverscmp_digits_eq:
  "strverscmp_digits l r j =
     (case version_digit_run l r j of Inl _ \<Rightarrow> Inl 1 | Inr e \<Rightarrow> Inr e)"
proof (induction l r j rule: version_digit_run.induct)
  case (1 l r j)
  then show ?case
    by (subst strverscmp_digits.simps, subst version_digit_run.simps) (simp add: digit_cbyte)
qed

text \<open>The pairs on which the two orders differ: one string is the other cut off inside or
  right after a digit run whose digits so far are all zero, and the longer string goes on
  with a digit.\<close>

definition zero_run_cut :: "bytes \<Rightarrow> bytes \<Rightarrow> bool" where
  "zero_run_cut l r \<longleftrightarrow>
     (\<exists>p n d s. (p = [] \<or> \<not> is_ascii_digit (last p)) \<and> 0 < n \<and> is_ascii_digit d \<and>
        l = p @ replicate n 48 \<and> r = p @ replicate n 48 @ d # s)"


lemma zero_run_cut_state:
  assumes "version_prefix l r 0 0 True = (i, dp, z)"
  shows "zero_run_cut l r \<longleftrightarrow> z \<and> dp < i \<and> i = length l \<and> byte_is r i is_ascii_digit"
proof
  have st: "prefix_state l r (i, dp, z)" "prefix_stop l r i"
    using version_prefix_start [of l r] assms by simp_all
  show "z \<and> dp < i \<and> i = length l \<and> byte_is r i is_ascii_digit" if cut: "zero_run_cut l r"
  proof -
    from cut obtain p n d s where p: "p = [] \<or> \<not> is_ascii_digit (last p)" and n: "0 < n"
        and d: "is_ascii_digit d" and l: "l = p @ replicate n 48"
        and r: "r = p @ replicate n 48 @ d # s"
      unfolding zero_run_cut_def by blast
    have "prefix_state l r (length p + n, length p, True)"
      using p by (auto simp: prefix_state_def l r nth_append last_conv_nth)
    moreover have "prefix_stop l r (length p + n)"
      by (simp add: prefix_stop_def l)
    ultimately have "i = length p + n \<and> dp = length p \<and> z = True"
      using prefix_state_unique st by blast
    with n d show ?thesis by (simp add: l r byte_is_def nth_append)
  qed
  show "zero_run_cut l r" if "z \<and> dp < i \<and> i = length l \<and> byte_is r i is_ascii_digit"
    unfolding zero_run_cut_def
  proof (intro exI conjI)
    from that st have z: "\<And>k. dp \<le> k \<Longrightarrow> k < length l \<Longrightarrow> l ! k = 48" and tk: "take i l = take i r"
        and dpl: "dp \<le> length l" and ir: "i < length r"
      by (auto simp: prefix_state_def byte_is_def)
    show "take dp l = [] \<or> \<not> is_ascii_digit (last (take dp l))"
      using st that by (auto simp: prefix_state_def last_conv_nth)
    show "0 < i - dp" "is_ascii_digit (r ! i)" using that by (auto simp: byte_is_def)
    have "drop dp l = replicate (i - dp) 48"
      by (rule nth_equalityI) (use that z in \<open>auto\<close>)
    then show l: "l = take dp l @ replicate (i - dp) 48"
      by (metis append_take_drop_id)
    have "r = l @ r ! i # drop (Suc i) r"
      using tk that ir by (metis append_take_drop_id drop_Cons_nth take_all order_refl)
    then show "r = take dp l @ replicate (i - dp) 48 @ r ! i # drop (Suc i) r"
      using l by (metis append.assoc)
  qed
qed

lemma zero_digit_neq:
  fixes d :: u8
  assumes "is_ascii_digit d"
  shows "cmp 0 (d - 48) \<noteq> cmp (- 48) (d - 48)" "cmp (d - 48) 0 \<noteq> cmp (d - 48) (- 48)"
proof -
  have "d - 48 < - 48"
    using assms unfolding is_ascii_digit_def by unat_arith
  then have "cmp (- 48) (d - 48) = Greater" "cmp (d - 48) (- 48) = Less" by simp_all
  moreover have "cmp 0 (d - 48) \<noteq> Greater" "cmp (d - 48) 0 \<noteq> Less" by simp_all
  ultimately show "cmp 0 (d - 48) \<noteq> cmp (- 48) (d - 48)" "cmp (d - 48) 0 \<noteq> cmp (d - 48) (- 48)"
    by metis+
qed

text \<open>Where the names first differ after equal digit runs without a leading zero, both compare the runs.\<close>

lemma digit_run_agrees:
  "sign_ordering (case strverscmp_digits left right i of Inl v \<Rightarrow> v
      | Inr j \<Rightarrow> if is_ascii_digit (cbyte right j) then -1
                else uint (cbyte left i) - uint (cbyte right i)) =
    (case version_digit_run left right i of Inl early \<Rightarrow> early
      | Inr e \<Rightarrow> if byte_is right e is_ascii_digit then Less
                else version_cmp_bytes left right i)"
  by (simp add: strverscmp_digits_eq version_digit_run_eq digit_cbyte sign_ordering_uint_diff
      cmp_cbyte) (simp add: sign_ordering_def cmp_def)

text \<open>In an all-zero run the two differ in what they read behind the end of a name.\<close>

lemma zero_branch_agrees_iff:
  assumes vp: "version_prefix left right 0 0 True = (i, dp, z)"
    and neq: "\<not> (i = length left \<and> i = length right)"
    and branch: "z \<and> dp < i \<and> (byte_is left i is_ascii_digit \<or> byte_is right i is_ascii_digit)"
  shows "cmp (byte_or left i 48 - 48) (byte_or right i 48 - 48) = cmp (cbyte left i - 48) (cbyte right i - 48) \<longleftrightarrow>
    \<not> (zero_run_cut left right \<or> zero_run_cut right left)"
proof -
  note cut = zero_run_cut_state [OF vp] zero_run_cut_state [OF vp [folded version_prefix_commute [of right left]]]
  have "prefix_state left right (i, dp, z)" using version_prefix_start(1) [of left right] vp by simp
  then have "i \<le> length left" "i \<le> length right" by (auto simp: prefix_state_def)
  then consider "i < length left" "i < length right" | "i = length left" | "i = length right" by linarith
  then show ?thesis
  proof cases
    case 1
    with cut show ?thesis by (auto simp: cbyte_def byte_or_def)
  next
    case 2
    with branch neq cut zero_digit_neq(1) [of "right ! i"] show ?thesis
      by (auto simp: cbyte_def byte_or_def byte_is_def)
  next
    case 3
    with branch neq cut zero_digit_neq(2) [of "left ! i"] show ?thesis
      by (auto simp: cbyte_def byte_or_def byte_is_def)
  qed
qed

text \<open>C35. on NUL-free strings \<open>version_cmp\<close> orders two names as the C entry
  \<open>strverscmp\<close> does, except exactly when one name is the other cut off in an all-zero
  digit run that the longer name continues with a digit; on those pairs they always differ.\<close>

theorem version_cmp_agrees_strverscmp_iff:
  assumes "nul_free left" "nul_free right"
  shows "version_cmp left right = sign_ordering (strverscmp left right) \<longleftrightarrow>
         \<not> (zero_run_cut left right \<or> zero_run_cut right left)"
proof -
  obtain i dp z where vp: "version_prefix left right 0 0 True = (i, dp, z)" by (metis surj_pair)
  note cut = zero_run_cut_state [OF vp]
    zero_run_cut_state [OF vp [folded version_prefix_commute [of right left]]]
  have st: "prefix_state left right (i, dp, z)"
    using version_prefix_start(1) [of left right] vp by simp
  show ?thesis
  proof (cases "i = length left \<and> i = length right")
    case True
    with vp assms cut show ?thesis
      by (auto simp: version_cmp_def strverscmp_def strverscmp_prefix_eq sign_ordering_def byte_is_def)
  next
    case neq: False
    then have sp: "strverscmp_prefix left right 0 0 True = Some (i, dp, z)"
      using assms vp by (auto simp: strverscmp_prefix_eq)
    let ?nz = "\<lambda>xs. byte_is xs dp (\<lambda>byte. byte - 49 < 9)"
    have zero: "z \<Longrightarrow> dp < i \<Longrightarrow> left ! dp = 48 \<and> right ! dp = 48 \<and> dp < length left \<and> dp < length right"
      using st prefix_state_agree [OF st] by (auto simp: prefix_state_def)
    show ?thesis
    proof (cases "?nz left \<and> ?nz right")
      case True
      with neq zero have "\<not> (z \<and> dp < i)" by (auto simp: byte_is_def)
      with cut True neq show ?thesis
        by (auto simp: version_cmp_def strverscmp_def sp vp nonzero_digit_cbyte digit_run_agrees)
    next
      case nz: False
      show ?thesis
      proof (cases "z \<and> dp < i \<and> (byte_is left i is_ascii_digit \<or> byte_is right i is_ascii_digit)")
        case False
        then show ?thesis using nz neq cut
          by (auto simp: version_cmp_def strverscmp_def sp vp nonzero_digit_cbyte digit_cbyte
              sign_ordering_uint_diff cmp_cbyte)
      next
        case branch: True
        then have v: "version_cmp left right = cmp (byte_or left i 48 - 48) (byte_or right i 48 - 48)"
          and c: "sign_ordering (strverscmp left right) = cmp (cbyte left i - 48) (cbyte right i - 48)"
          using nz neq by (auto simp: version_cmp_def strverscmp_def sp vp nonzero_digit_cbyte
              digit_cbyte sign_ordering_uint_diff)
        show ?thesis unfolding v c by (rule zero_branch_agrees_iff [OF vp neq branch])
      qed
    qed
  qed
qed

theorem version_cmp_agrees_strverscmp_iff_witness:
  "nul_free [49, 48] \<and> nul_free [50] \<and>
   version_cmp [49, 48] [50] = sign_ordering (strverscmp [49, 48] [50])"
proof -
  have nf: "nul_free [49, 48]" "nul_free [50]" by (simp_all add: nul_free_def)
  have r: "[x] = replicate n 48 \<Longrightarrow> x = 48" for x :: u8 and n by (cases n) auto
  have "\<not> (zero_run_cut [49, 48] [50] \<or> zero_run_cut [50] [49, 48])"
    by (auto simp: zero_run_cut_def Cons_eq_append_conv dest: r)
  with nf version_cmp_agrees_strverscmp_iff [OF nf] show ?thesis by blast
qed


subsection \<open>Cursors as iterators\<close>

text \<open>
  What both cursors promise their clients: from a valid cursor, \<open>next\<close> yields a valid
  cursor, and a cursor that yields an item has less left than before. Draining then takes
  at most \<open>remaining c\<close> items, so any larger fuel gives the same list.
\<close>

locale draining_iterator =
  fixes next_item :: "'c \<Rightarrow> 'a option \<times> 'c"
    and valid :: "'c \<Rightarrow> bool"
    and remaining :: "'c \<Rightarrow> nat"
  assumes next_valid: "valid c \<Longrightarrow> valid (snd (next_item c))"
    and next_less: "valid c \<Longrightarrow> fst (next_item c) = Some x \<Longrightarrow>
      remaining (snd (next_item c)) < remaining c"
begin

lemma collect_length: "valid c \<Longrightarrow> length (collect fuel next_item c) \<le> remaining c"
proof (induction fuel arbitrary: c)
  case 0
  then show ?case by simp
next
  case (Suc fuel)
  obtain x c' where nx: "next_item c = (x, c')" by fastforce
  with Suc.prems next_valid [of c] have "valid c'" by simp
  with Suc.IH [of c'] next_less [of c] Suc.prems nx show ?case
    by (cases x) fastforce+
qed

lemma collect_fuel:
  "valid c \<Longrightarrow> remaining c \<le> n \<Longrightarrow> remaining c \<le> m \<Longrightarrow>
   collect n next_item c = collect m next_item c"
proof (induction n arbitrary: c m)
  case 0
  then show ?case using collect_length [of c m] by simp
next
  case (Suc n)
  obtain x c' where nx: "next_item c = (x, c')" by fastforce
  with Suc.prems next_valid [of c] have v: "valid c'" by simp
  show ?case
  proof (cases x)
    case None
    with nx show ?thesis by (cases m) simp_all
  next
    case (Some a)
    with nx next_less [of c] Suc.prems have less: "remaining c' < remaining c" by simp
    then obtain k where k: "m = Suc k" using Suc.prems by (cases m) auto
    from less k Suc.prems have "collect n next_item c' = collect k next_item c'"
      by (intro Suc.IH v) auto
    with nx Some k show ?thesis by simp
  qed
qed

end

text \<open>The reference for splitting: cut at every delimiter, keeping empty fields.\<close>

fun delim_fields :: "('a \<Rightarrow> bool) \<Rightarrow> 'a list \<Rightarrow> 'a list list" where
  "delim_fields d [] = [[]]"
| "delim_fields d (x # xs) =
     (if d x then [] # delim_fields d xs
      else (case delim_fields d xs of [] \<Rightarrow> [[x]] | f # fs \<Rightarrow> (x # f) # fs))"

lemma delim_fields_not_Nil [simp]: "delim_fields d xs \<noteq> []"
  by (induction xs) (auto split: list.splits)

lemma delim_fields_unfold:
  "delim_fields d xs = takeWhile (\<lambda>x. \<not> d x) xs #
     (case dropWhile (\<lambda>x. \<not> d x) xs of [] \<Rightarrow> [] | _ # rest \<Rightarrow> delim_fields d rest)"
  by (induction xs) (auto split: list.splits)

lemma concat_delim_fields: "concat (delim_fields d xs) = filter (\<lambda>x. \<not> d x) xs"
  by (induction xs) (auto split: list.splits)

lemma length_delim_fields: "length (delim_fields d xs) = Suc (length (filter d xs))"
  by (induction xs) (auto split: list.splits)

lemma filter_delim_fields_dropWhile:
  "filter (\<lambda>f. f \<noteq> []) (delim_fields d (dropWhile d xs)) = filter (\<lambda>f. f \<noteq> []) (delim_fields d xs)"
  by (induction xs) auto

lemma scan_while_eq: "i \<le> length xs \<Longrightarrow> scan_while p xs i = i + length (takeWhile p (drop i xs))"
proof (induction p xs i rule: scan_while.induct)
  case (1 p xs i)
  show ?case
  proof (cases "i < length xs \<and> p (xs ! i)")
    case True
    with 1 show ?thesis by (simp add: scan_while_Suc drop_Cons_nth)
  next
    case False
    then have "scan_while p xs i = i" by (subst scan_while.simps) auto
    moreover have "takeWhile p (drop i xs) = []"
      using False "1.prems" by (cases "i < length xs") (auto simp: drop_Cons_nth)
    ultimately show ?thesis by simp
  qed
qed

lemma scan_while_slice:
  assumes "i \<le> length xs"
  shows "take (scan_while p xs i - i) (drop i xs) = takeWhile p (drop i xs)"
    and "drop (scan_while p xs i) xs = dropWhile p (drop i xs)"
proof -
  show "take (scan_while p xs i - i) (drop i xs) = takeWhile p (drop i xs)"
    using assms by (simp add: scan_while_eq takeWhile_eq_take [symmetric])
  have "drop (scan_while p xs i) xs = drop (length (takeWhile p (drop i xs))) (drop i xs)"
    using assms by (simp add: scan_while_eq add.commute)
  then show "drop (scan_while p xs i) xs = dropWhile p (drop i xs)"
    by (simp add: dropWhile_eq_drop)
qed

definition split_valid :: "split_cursor \<Rightarrow> bool" where
  "split_valid c \<longleftrightarrow> sc_offset c \<le> length (sc_input c)"

definition split_remaining :: "split_cursor \<Rightarrow> nat" where
  "split_remaining c = (if sc_finished c then 0 else Suc (length (sc_input c) - sc_offset c))"

definition token_valid :: "token_cursor \<Rightarrow> bool" where
  "token_valid c \<longleftrightarrow> tc_offset c \<le> length (tc_input c)"

definition token_remaining :: "token_cursor \<Rightarrow> nat" where
  "token_remaining c = length (tc_input c) - tc_offset c"

interpretation split_iter: draining_iterator split_next_field split_valid split_remaining
proof
  fix c :: split_cursor and x
  let ?e = "scan_while (\<lambda>b. b \<notin> set (sc_delimiters c)) (sc_input c) (sc_offset c)"
  assume v: "split_valid c"
  have e: "?e \<le> length (sc_input c)" "sc_offset c \<le> ?e"
    using v by (simp_all add: split_valid_def scan_while_le scan_while_ge)
  show "split_valid (snd (split_next_field c))"
    using v e by (auto simp: split_valid_def split_next_field_def Let_def)
  show "split_remaining (snd (split_next_field c)) < split_remaining c"
    if "fst (split_next_field c) = Some x"
    using v e that by (auto simp: split_remaining_def split_next_field_def Let_def split: if_splits)
qed

interpretation token_iter: draining_iterator token_next_token token_valid token_remaining
proof
  fix c :: token_cursor and x
  let ?d = "\<lambda>b. b \<in> set (tc_delimiters c)"
  let ?b = "scan_while ?d (tc_input c) (tc_offset c)"
  let ?e = "scan_while (\<lambda>b. \<not> ?d b) (tc_input c) ?b"
  assume v: "token_valid c"
  have b: "?b \<le> length (tc_input c)" "tc_offset c \<le> ?b"
    using v by (simp_all add: token_valid_def scan_while_le scan_while_ge)
  have e: "?e \<le> length (tc_input c)" "?b \<le> ?e"
    using b by (simp_all add: scan_while_le scan_while_ge)
  have grow: "?b < ?e" if "?b \<noteq> length (tc_input c)"
    using that b scan_while_stop [of ?d "tc_input c" "tc_offset c"]
      scan_while_Suc [of ?b "tc_input c" "\<lambda>b. \<not> ?d b"]
      scan_while_ge [of "Suc ?b" "\<lambda>b. \<not> ?d b" "tc_input c"] by auto
  show "token_valid (snd (token_next_token c))"
    using b e by (auto simp: token_valid_def token_next_token_def Let_def)
  show "token_remaining (snd (token_next_token c)) < token_remaining c"
    if "fst (token_next_token c) = Some x"
    using b e grow that
    by (auto simp: token_remaining_def token_next_token_def Let_def split: if_splits)
qed


lemma split_collect_fields:
  "split_valid c \<Longrightarrow> split_remaining c \<le> n \<Longrightarrow>
   collect n split_next_field c =
     (if sc_finished c then []
      else delim_fields (\<lambda>b. b \<in> set (sc_delimiters c)) (drop (sc_offset c) (sc_input c)))"
proof (induction n arbitrary: c)
  case 0
  then show ?case by (simp add: split_remaining_def split: if_splits)
next
  case (Suc n)
  let ?d = "\<lambda>b. b \<in> set (sc_delimiters c)"
  let ?e = "scan_while (\<lambda>b. \<not> ?d b) (sc_input c) (sc_offset c)"
  show ?case
  proof (cases "sc_finished c")
    case True
    then show ?thesis by (simp add: split_next_field_def)
  next
    case False
    have off: "sc_offset c \<le> length (sc_input c)" using Suc.prems by (simp add: split_valid_def)
    note slice = scan_while_slice [OF off, of "\<lambda>b. \<not> ?d b"]
    obtain f c' where nx: "split_next_field c = (Some f, c')"
      using False by (auto simp: split_next_field_def Let_def)
    have f: "f = takeWhile (\<lambda>b. \<not> ?d b) (drop (sc_offset c) (sc_input c))"
      using nx False slice by (simp add: split_next_field_def Let_def)
    have v: "split_valid c'" "split_remaining c' \<le> n"
      using split_iter.next_valid [of c] split_iter.next_less [of c] Suc.prems nx by auto
    have same: "sc_delimiters c' = sc_delimiters c" "sc_input c' = sc_input c"
      using nx False by (auto simp: split_next_field_def Let_def)
    have rest: "(if sc_finished c' then [] else delim_fields ?d (drop (sc_offset c') (sc_input c))) =
        (case dropWhile (\<lambda>b. \<not> ?d b) (drop (sc_offset c) (sc_input c)) of
           [] \<Rightarrow> [] | _ # rest \<Rightarrow> delim_fields ?d rest)"
    proof (cases "?e = length (sc_input c)")
      case True
      then have "sc_finished c'" using nx False by (auto simp: split_next_field_def Let_def)
      moreover have "dropWhile (\<lambda>b. \<not> ?d b) (drop (sc_offset c) (sc_input c)) = []"
        using True slice(2) by (metis drop_all order_refl)
      ultimately show ?thesis by (simp only: if_True list.case)
    next
      case ne: False
      then have e: "?e < length (sc_input c)" using scan_while_le [OF off, of "\<lambda>b. \<not> ?d b"] by simp
      have "\<not> sc_finished c'" "sc_offset c' = ?e + 1"
        using nx False ne by (auto simp: split_next_field_def Let_def)
      moreover have "dropWhile (\<lambda>b. \<not> ?d b) (drop (sc_offset c) (sc_input c)) =
          sc_input c ! ?e # drop (?e + 1) (sc_input c)"
        using slice(2) e by (simp add: drop_Cons_nth)
      ultimately show ?thesis by simp
    qed
    have "collect (Suc n) split_next_field c = f # collect n split_next_field c'"
      using nx by simp
    also have "\<dots> = f # (if sc_finished c' then [] else delim_fields ?d (drop (sc_offset c') (sc_input c)))"
      using Suc.IH [OF v] same by simp
    also have "\<dots> = delim_fields ?d (drop (sc_offset c) (sc_input c))"
      unfolding rest f by (rule delim_fields_unfold [symmetric])
    finally show ?thesis using False by simp
  qed
qed


lemma token_collect_fields:
  "token_valid c \<Longrightarrow> token_remaining c \<le> n \<Longrightarrow>
   collect n token_next_token c =
     filter (\<lambda>f. f \<noteq> [])
       (delim_fields (\<lambda>b. b \<in> set (tc_delimiters c)) (drop (tc_offset c) (tc_input c)))"
proof (induction n arbitrary: c)
  case 0
  then show ?case by (simp add: token_remaining_def token_valid_def)
next
  case (Suc n)
  let ?d = "\<lambda>b. b \<in> set (tc_delimiters c)"
  let ?b = "scan_while ?d (tc_input c) (tc_offset c)"
  let ?ne = "filter (\<lambda>f. f \<noteq> []) :: bytes list \<Rightarrow> bytes list"
  have off: "tc_offset c \<le> length (tc_input c)" using Suc.prems by (simp add: token_valid_def)
  have b: "?b \<le> length (tc_input c)" using off by (rule scan_while_le)
  have skip: "?ne (delim_fields ?d (drop ?b (tc_input c))) = ?ne (delim_fields ?d (drop (tc_offset c) (tc_input c)))"
    using scan_while_slice(2) [OF off, of ?d] by (simp add: filter_delim_fields_dropWhile)
  show ?case
  proof (cases "?b = length (tc_input c)")
    case True
    then have "fst (token_next_token c) = None" by (simp add: token_next_token_def Let_def)
    moreover from True skip have "?ne (delim_fields ?d (drop (tc_offset c) (tc_input c))) = []" by simp
    ultimately show ?thesis by (cases "token_next_token c") simp
  next
    case False
    let ?e = "scan_while (\<lambda>b. \<not> ?d b) (tc_input c) ?b"
    let ?rest = "drop ?b (tc_input c)"
    note slice = scan_while_slice [OF b, of "\<lambda>b. \<not> ?d b"]
    have lt: "?b < length (tc_input c)" using False b by simp
    with scan_while_stop [of ?d "tc_input c" "tc_offset c"]
    have first: "takeWhile (\<lambda>b. \<not> ?d b) ?rest \<noteq> []" by (simp add: drop_Cons_nth)
    obtain f c' where nx: "token_next_token c = (Some f, c')"
      using False by (auto simp: token_next_token_def Let_def)
    have f: "f = takeWhile (\<lambda>b. \<not> ?d b) ?rest" and c': "tc_offset c' = ?e"
        "tc_delimiters c' = tc_delimiters c" "tc_input c' = tc_input c"
      using nx False slice by (auto simp: token_next_token_def Let_def)
    have v: "token_valid c'" "token_remaining c' \<le> n"
      using token_iter.next_valid [of c] token_iter.next_less [of c] Suc.prems nx by auto
    have tail: "?ne (delim_fields ?d (dropWhile (\<lambda>b. \<not> ?d b) ?rest)) =
        ?ne (case dropWhile (\<lambda>b. \<not> ?d b) ?rest of [] \<Rightarrow> [] | _ # xs \<Rightarrow> delim_fields ?d xs)"
    proof (cases "dropWhile (\<lambda>b. \<not> ?d b) ?rest")
      case Nil
      then show ?thesis by (simp only: delim_fields.simps list.case) simp
    next
      case (Cons x xs)
      then have "?d x" using hd_dropWhile [of "\<lambda>b. \<not> ?d b" ?rest] by (metis list.distinct(1) list.sel(1))
      then show ?thesis by (simp only: Cons delim_fields.simps list.case) simp
    qed
    have "collect (Suc n) token_next_token c = f # collect n token_next_token c'"
      using nx by simp
    also have "\<dots> = f # ?ne (delim_fields ?d (dropWhile (\<lambda>b. \<not> ?d b) ?rest))"
      using Suc.IH [OF v] c' slice(2) by simp
    also have "\<dots> = ?ne (delim_fields ?d ?rest)"
      using first delim_fields_unfold [of ?d ?rest] unfolding f tail by (simp only: filter.simps not_False_eq_True if_True)
    finally show ?thesis using skip by simp
  qed
qed

text \<open>C37. draining a fresh \<open>TokenCursor\<close> yields exactly the non-empty fields that a
  \<open>SplitCursor\<close> over the same input and delimiters yields, in the same order.\<close>

theorem token_cursor_nonempty_fields:
  "collect (length input) token_next_token (token_new input delimiters) =
   filter (\<lambda>f. f \<noteq> []) (collect (length input + 1) split_next_field (split_new input delimiters))"
proof -
  have "collect (length input + 1) split_next_field (split_new input delimiters) =
      delim_fields (\<lambda>b. b \<in> set delimiters) input"
    by (subst split_collect_fields)
       (simp_all add: split_new_def split_valid_def split_remaining_def)
  then show ?thesis
    by (subst token_collect_fields) (simp_all add: token_new_def token_valid_def token_remaining_def)
qed

end
