(* ===== verification/Iconv.thy ===== *)
theory Iconv
  imports Text Iso8859
begin

text \<open>
  \<open>crabc-core/src/iconv.rs\<close>: the encodings and their names, the scalar codecs
  (one Unicode scalar at a time: \<open>decode_scalar\<close> and \<open>encode_scalar\<close>).
  The codec laws they satisfy are in theory \<open>IconvCodecs\<close> and the converter loop in
  theory \<open>Converter\<close>.
\<close>

subsection \<open>Encodings and their names\<close>

datatype encoding =
    Utf8
  | Ascii
  | Utf16Le
  | Utf16Be
  | Utf32Le
  | Utf32Be
  | WChar
  | Latin1
  | Windows1252
  | Windows1251
  | Koi8R
  | Gbk
  | Gb2312
  | Big5
  | EucJp
  | ShiftJis
  | Iso8859_2
  | Iso8859_3
  | Iso8859_4
  | Iso8859_5
  | Iso8859_6
  | Iso8859_7
  | Iso8859_8
  | Iso8859_9
  | Iso8859_10
  | Iso8859_11
  | Iso8859_13
  | Iso8859_14
  | Iso8859_15
  | Iso8859_16

text \<open>\<open>is_ascii_alphanumeric\<close> of a byte.\<close>

definition is_ascii_alphanumeric :: "u8 \<Rightarrow> bool" where
  "is_ascii_alphanumeric b \<longleftrightarrow>
     48 \<le> b \<and> b \<le> 57 \<or> 65 \<le> b \<and> b \<le> 90 \<or> 97 \<le> b \<and> b \<le> 122"

function normalized_equals_from :: "bytes \<Rightarrow> bytes \<Rightarrow> nat \<Rightarrow> nat \<Rightarrow> bool" where
  "normalized_equals_from name target name_index target_index =
     (let ni = scan_while (\<lambda>b. \<not> is_ascii_alphanumeric b) name name_index;
          ti = scan_while (\<lambda>b. \<not> is_ascii_alphanumeric b) target target_index
      in if \<not> ni < length name \<and> \<not> ti < length target then True
         else if ni < length name \<and> ti < length target
                 \<and> ascii_lower (name ! ni) = ascii_lower (target ! ti)
         then normalized_equals_from name target (ni + 1) (ti + 1)
         else False)"
  by pat_completeness auto
termination
  by (relation "measure (\<lambda>(name, target, i, j). length name - i)")
     (auto intro!: diff_less_mono2 intro: le_imp_less_Suc scan_while_ge
       order_le_less_trans [OF scan_while_ge])

declare normalized_equals_from.simps [simp del]

definition normalized_equals :: "bytes \<Rightarrow> bytes \<Rightarrow> bool" where
  "normalized_equals name target = normalized_equals_from name target 0 0"

text \<open>The bytes of an ASCII string literal.\<close>

definition literal_bytes :: "string \<Rightarrow> bytes" where
  "literal_bytes s = map of_char s"

definition encoding_aliases :: "(encoding \<times> string list) list" where
  "encoding_aliases = [
     (Utf8, [''utf8'', ''utf-8'', ''char'']),
     (Utf16Le, [''utf16le'', ''utf-16le'']),
     (Utf16Be, [''utf16be'', ''utf-16be'']),
     (Utf32Le, [''utf32le'', ''utf-32le'', ''ucs4le'']),
     (Utf32Be, [''utf32be'', ''utf-32be'', ''ucs4be'']),
     (WChar, [''wchart'', ''wchar-t'']),
     (Ascii, [''ascii'', ''usascii'', ''iso646'']),
     (Latin1, [''iso88591'', ''iso-8859-1'', ''latin1'']),
     (Iso8859_2, [''iso88592'', ''iso-8859-2'']),
     (Iso8859_3, [''iso88593'', ''iso-8859-3'']),
     (Iso8859_4, [''iso88594'', ''iso-8859-4'']),
     (Iso8859_5, [''iso88595'', ''iso-8859-5'']),
     (Iso8859_6, [''iso88596'', ''iso-8859-6'']),
     (Iso8859_7, [''iso88597'', ''iso-8859-7'']),
     (Iso8859_8, [''iso88598'', ''iso-8859-8'']),
     (Iso8859_9, [''iso88599'', ''iso-8859-9'']),
     (Iso8859_10, [''iso885910'', ''iso-8859-10'']),
     (Iso8859_11, [''iso885911'', ''iso-8859-11'', ''tis620'']),
     (Iso8859_13, [''iso885913'', ''iso-8859-13'']),
     (Iso8859_14, [''iso885914'', ''iso-8859-14'']),
     (Iso8859_15, [''iso885915'', ''iso-8859-15'']),
     (Iso8859_16, [''iso885916'', ''iso-8859-16'']),
     (Windows1252, [''cp1252'', ''windows1252'', ''windows-1252'']),
     (Windows1251, [''cp1251'', ''windows1251'', ''windows-1251'']),
     (Koi8R, [''koi8r'', ''koi8-r'']),
     (Gbk, [''gbk'', ''cp936'']),
     (Gb2312, [''gb2312'']),
     (Big5, [''big5'', ''bigfive'', ''cp950'']),
     (EucJp, [''eucjp'', ''euc-jp'']),
     (ShiftJis, [''shiftjis'', ''sjis'', ''cp932''])]"

definition from_name :: "bytes \<Rightarrow> encoding option" where
  "from_name name =
     map_option fst
       (find (\<lambda>(e, names). \<exists>alias \<in> set names. normalized_equals name (literal_bytes alias))
          encoding_aliases)"

definition is_supported :: "encoding \<Rightarrow> bool" where
  "is_supported self \<longleftrightarrow> self \<in> set [
     Utf8, Ascii, Utf16Le, Utf16Be, Utf32Le, Utf32Be, WChar,
     Iso8859_2, Iso8859_3, Iso8859_4, Iso8859_5, Iso8859_6, Iso8859_7, Iso8859_8, Iso8859_9, Iso8859_10, Iso8859_11, Iso8859_13, Iso8859_14, Iso8859_15, Iso8859_16]"

subsection \<open>The table-backed single-byte family\<close>

datatype iso8859 =
    Table_2 | Table_3 | Table_4 | Table_5 | Table_6 | Table_7 | Table_8 | Table_9 | Table_10 | Table_11 | Table_13 | Table_14 | Table_15 | Table_16

fun from_encoding :: "encoding \<Rightarrow> iso8859 option" where
  "from_encoding Iso8859_2 = Some Table_2"
| "from_encoding Iso8859_3 = Some Table_3"
| "from_encoding Iso8859_4 = Some Table_4"
| "from_encoding Iso8859_5 = Some Table_5"
| "from_encoding Iso8859_6 = Some Table_6"
| "from_encoding Iso8859_7 = Some Table_7"
| "from_encoding Iso8859_8 = Some Table_8"
| "from_encoding Iso8859_9 = Some Table_9"
| "from_encoding Iso8859_10 = Some Table_10"
| "from_encoding Iso8859_11 = Some Table_11"
| "from_encoding Iso8859_13 = Some Table_13"
| "from_encoding Iso8859_14 = Some Table_14"
| "from_encoding Iso8859_15 = Some Table_15"
| "from_encoding Iso8859_16 = Some Table_16"
| "from_encoding _ = None"

fun iso8859_encoding :: "iso8859 \<Rightarrow> encoding" where
  "iso8859_encoding Table_2 = Iso8859_2"
| "iso8859_encoding Table_3 = Iso8859_3"
| "iso8859_encoding Table_4 = Iso8859_4"
| "iso8859_encoding Table_5 = Iso8859_5"
| "iso8859_encoding Table_6 = Iso8859_6"
| "iso8859_encoding Table_7 = Iso8859_7"
| "iso8859_encoding Table_8 = Iso8859_8"
| "iso8859_encoding Table_9 = Iso8859_9"
| "iso8859_encoding Table_10 = Iso8859_10"
| "iso8859_encoding Table_11 = Iso8859_11"
| "iso8859_encoding Table_13 = Iso8859_13"
| "iso8859_encoding Table_14 = Iso8859_14"
| "iso8859_encoding Table_15 = Iso8859_15"
| "iso8859_encoding Table_16 = Iso8859_16"

fun iso8859_table :: "iso8859 \<Rightarrow> u32 list" where
  "iso8859_table Table_2 = ISO8859_2_TO_U"
| "iso8859_table Table_3 = ISO8859_3_TO_U"
| "iso8859_table Table_4 = ISO8859_4_TO_U"
| "iso8859_table Table_5 = ISO8859_5_TO_U"
| "iso8859_table Table_6 = ISO8859_6_TO_U"
| "iso8859_table Table_7 = ISO8859_7_TO_U"
| "iso8859_table Table_8 = ISO8859_8_TO_U"
| "iso8859_table Table_9 = ISO8859_9_TO_U"
| "iso8859_table Table_10 = ISO8859_10_TO_U"
| "iso8859_table Table_11 = ISO8859_11_TO_U"
| "iso8859_table Table_13 = ISO8859_13_TO_U"
| "iso8859_table Table_14 = ISO8859_14_TO_U"
| "iso8859_table Table_15 = ISO8859_15_TO_U"
| "iso8859_table Table_16 = ISO8859_16_TO_U"

text \<open>\<open>Iso8859::decode\<close> and \<open>Iso8859::encode\<close>: one table lookup per family member.\<close>

definition iso8859_decode :: "iso8859 \<Rightarrow> u8 \<Rightarrow> u32" where
  "iso8859_decode self byte = iso8859_to_u (iso8859_table self) byte"

definition iso8859_encode :: "iso8859 \<Rightarrow> u32 \<Rightarrow> u8 option" where
  "iso8859_encode self codepoint = u_to_iso8859 (iso8859_table self) codepoint"

subsection \<open>Decoding one scalar\<close>

datatype decode_error = DecodeIncomplete | DecodeInvalid

datatype encode_error = EncodeUnrepresentable

type_synonym decode_result = "(u32 \<times> nat, decode_error) outcome"
type_synonym encode_result = "(bytes, encode_error) outcome"

definition decode_ascii :: "bytes \<Rightarrow> decode_result" where
  "decode_ascii input =
     (case input of
        [] \<Rightarrow> Err DecodeIncomplete
      | byte # _ \<Rightarrow> if byte < 0x80 then Ok (ucast byte, 1) else Err DecodeInvalid)"

text \<open>The lead-byte table: total length, admitted range of the second byte, and the
  payload of the lead byte.\<close>

definition utf8_lead :: "u8 \<Rightarrow> (nat \<times> u8 \<times> u8 \<times> u32) option" where
  "utf8_lead first =
     (if 0xc2 \<le> first \<and> first \<le> 0xdf then Some (2, 0x80, 0xbf, ucast (first AND 0x1f))
      else if first = 0xe0 then Some (3, 0xa0, 0xbf, ucast (first AND 0x0f))
      else if 0xe1 \<le> first \<and> first \<le> 0xec \<or> 0xee \<le> first \<and> first \<le> 0xef
        then Some (3, 0x80, 0xbf, ucast (first AND 0x0f))
      else if first = 0xed then Some (3, 0x80, 0x9f, ucast (first AND 0x0f))
      else if first = 0xf0 then Some (4, 0x90, 0xbf, ucast (first AND 0x07))
      else if 0xf1 \<le> first \<and> first \<le> 0xf3 then Some (4, 0x80, 0xbf, ucast (first AND 0x07))
      else if first = 0xf4 then Some (4, 0x80, 0x8f, ucast (first AND 0x07))
      else None)"

definition utf8_append :: "u32 \<Rightarrow> u8 \<Rightarrow> u32" where
  "utf8_append codepoint byte = (push_bit 6 codepoint) OR ucast (byte AND 0x3f)"

definition decode_utf8 :: "bytes \<Rightarrow> decode_result" where
  "decode_utf8 input =
     (case input of
        [] \<Rightarrow> Err DecodeIncomplete
      | first # _ \<Rightarrow>
          if first < 0x80 then Ok (ucast first, 1)
          else (case utf8_lead first of
            None \<Rightarrow> Err DecodeInvalid
          | Some (len, minimum_second, maximum_second, initial) \<Rightarrow>
              if 2 \<le> length input \<and> (input ! 1 < minimum_second \<or> input ! 1 > maximum_second)
              then Err DecodeInvalid
              else let available_length = min (length input) len in
                if 2 < available_length
                   \<and> (\<exists>byte \<in> set (take (available_length - 2) (drop 2 input)). byte AND 0xc0 \<noteq> 0x80)
                then Err DecodeInvalid
                else if length input < len then Err DecodeIncomplete
                else Ok (foldl utf8_append (utf8_append initial (input ! 1))
                           (take (len - 2) (drop 2 input)), len)))"

definition decode_utf16 :: "bytes \<Rightarrow> bool \<Rightarrow> decode_result" where
  "decode_utf16 input big_endian =
     (if length input < 2 then Err DecodeIncomplete
      else
        let unit = (if big_endian then u16_from_be_bytes else u16_from_le_bytes);
            first = unit (input ! 0) (input ! 1)
        in if 0xd800 \<le> first \<and> first \<le> 0xdbff then
             if length input < 4 then Err DecodeIncomplete
             else let second = unit (input ! 2) (input ! 3) in
               if \<not> (0xdc00 \<le> second \<and> second \<le> 0xdfff) then Err DecodeInvalid
               else let high = ucast (first - 0xd800) :: u32; low = ucast (second - 0xdc00) :: u32
                    in Ok (push_bit 10 high + low + 0x10000, 4)
           else if 0xdc00 \<le> first \<and> first \<le> 0xdfff then Err DecodeInvalid
           else Ok (ucast first, 2))"

definition decode_utf32 :: "bytes \<Rightarrow> bool \<Rightarrow> decode_result" where
  "decode_utf32 input big_endian =
     (if length input < 4 then Err DecodeIncomplete
      else
        let codepoint =
          (if big_endian then u32_from_be_bytes else u32_from_le_bytes)
            (input ! 0) (input ! 1) (input ! 2) (input ! 3)
        in if codepoint > 0x10ffff \<or> (0xd800 \<le> codepoint \<and> codepoint \<le> 0xdfff)
           then Err DecodeInvalid else Ok (codepoint, 4))"

definition decode_scalar :: "encoding \<Rightarrow> bytes \<Rightarrow> decode_result" where
  "decode_scalar encoding input =
     (case encoding of
        Utf8 \<Rightarrow> decode_utf8 input
      | Ascii \<Rightarrow> decode_ascii input
      | Utf16Le \<Rightarrow> decode_utf16 input False
      | Utf16Be \<Rightarrow> decode_utf16 input True
      | Utf32Le \<Rightarrow> decode_utf32 input False
      | WChar \<Rightarrow> decode_utf32 input False
      | Utf32Be \<Rightarrow> decode_utf32 input True
      | _ \<Rightarrow> (case from_encoding encoding of
               None \<Rightarrow> Err DecodeInvalid
             | Some table \<Rightarrow>
                 (case input of [] \<Rightarrow> Err DecodeIncomplete
                  | byte # _ \<Rightarrow> Ok (iso8859_decode table byte, 1))))"

subsection \<open>Encoding one scalar\<close>

text \<open>The bytes written to the four-byte scratch buffer, as many as the returned length.\<close>

definition encode_utf8 :: "u32 \<Rightarrow> bytes" where
  "encode_utf8 codepoint =
     (if codepoint < 0x80 then [ucast codepoint]
      else if codepoint < 0x800 then
        [0xc0 OR ucast (drop_bit 6 codepoint), 0x80 OR ucast (codepoint AND 0x3f)]
      else if codepoint < 0x10000 then
        [0xe0 OR ucast (drop_bit 12 codepoint),
         0x80 OR ucast (drop_bit 6 codepoint AND 0x3f),
         0x80 OR ucast (codepoint AND 0x3f)]
      else
        [0xf0 OR ucast (drop_bit 18 codepoint),
         0x80 OR ucast (drop_bit 12 codepoint AND 0x3f),
         0x80 OR ucast (drop_bit 6 codepoint AND 0x3f),
         0x80 OR ucast (codepoint AND 0x3f)])"

definition encode_utf16 :: "(u16 \<Rightarrow> bytes) \<Rightarrow> u32 \<Rightarrow> bytes" where
  "encode_utf16 unit_bytes codepoint =
     (if codepoint < 0x10000 then unit_bytes (ucast codepoint)
      else
        let scalar = codepoint - 0x10000;
            high = ucast (0xd800 + drop_bit 10 scalar) :: u16;
            low = ucast (0xdc00 + (scalar AND 0x3ff)) :: u16
        in unit_bytes high @ unit_bytes low)"

definition encode_scalar :: "encoding \<Rightarrow> u32 \<Rightarrow> encode_result" where
  "encode_scalar encoding codepoint =
     (case encoding of
        Utf8 \<Rightarrow> Ok (encode_utf8 codepoint)
      | Ascii \<Rightarrow> if codepoint < 0x80 then Ok [ucast codepoint] else Err EncodeUnrepresentable
      | Utf16Le \<Rightarrow> Ok (encode_utf16 u16_to_le_bytes codepoint)
      | Utf16Be \<Rightarrow> Ok (encode_utf16 u16_to_be_bytes codepoint)
      | Utf32Le \<Rightarrow> Ok (u32_to_le_bytes codepoint)
      | WChar \<Rightarrow> Ok (u32_to_le_bytes codepoint)
      | Utf32Be \<Rightarrow> Ok (u32_to_be_bytes codepoint)
      | _ \<Rightarrow> (case from_encoding encoding of
               None \<Rightarrow> Err EncodeUnrepresentable
             | Some table \<Rightarrow>
                 (case iso8859_encode table codepoint of
                    None \<Rightarrow> Err EncodeUnrepresentable
                  | Some byte \<Rightarrow> Ok [byte])))"

end
