(* ===== verification/IconvCodecs.thy ===== *)
theory IconvCodecs
  imports Iconv
begin

text \<open>
  The codec laws of \<open>decode_scalar\<close> and \<open>encode_scalar\<close>: UTF-8 through the well-formed
  byte sequences, UTF-16 through surrogate pairs, UTF-32 and the single-byte tables. The
  locale \<open>codec\<close> states what the converter relies on (decoding makes progress and yields
  scalar values; what was encoded decodes again, whatever follows) and \<open>canonical_codec\<close>
  adds that decoding accepts only what encoding produces. They are interpreted on
  the model's codecs for every encoding.
\<close>

subsection \<open>UTF-8: the well-formed shapes\<close>

lemma and_c0: "b AND 0xc0 = 0x80 \<longleftrightarrow> unat b div 64 = 2" for b :: u8
proof -
  have m: "(0xc0 :: u8) = push_bit 6 (mask 2)" by (simp add: mask_eq_exp_minus_1)
  have "unat (b AND 0xc0) = unat b div 64 * 64"
  proof -
    have "b AND 0xc0 = push_bit 6 (drop_bit 6 b)"
      unfolding m by (rule bit_word_eqI) (auto simp: bit_simps)
    then have "unat (b AND 0xc0) = unat (push_bit 6 (drop_bit 6 b))" by simp
    also have "\<dots> = unat b div 64 * 64"
      using unat_u8_less [of b] by (simp add: push_bit_eq_mult unat_word_ariths unat_drop_bit_div)
    finally show ?thesis .
  qed
  then show ?thesis by (auto simp: word_unat_eq_iff)
qed

lemma unat_utf8_append:
  assumes "unat c < 2 ^ 26"
  shows "unat (utf8_append c b) = unat c * 64 + unat b mod 64"
proof -
  have p: "unat (push_bit 6 c) = unat c * 64"
    using assms by (simp add: push_bit_eq_mult unat_word_ariths)
  have u: "unat (ucast (b AND 0x3f) :: u32) = unat b mod 64"
    by (simp add: unat_ucast_mod unat_bits)
  have "unat (push_bit 6 c OR ucast (b AND 0x3f)) = unat (push_bit 6 c) + unat (ucast (b AND 0x3f) :: u32)"
    by (rule unat_or_disjoint [where k = 6]) (simp_all add: u p)
  then show ?thesis by (simp add: utf8_append_def p u)
qed

lemma unat_or_tag [unat_bits]:
  fixes x :: u8
  shows "unat x < 64 \<Longrightarrow> unat (0x80 OR x) = 128 + unat x"
    "unat x < 32 \<Longrightarrow> unat (0xc0 OR x) = 192 + unat x"
    "unat x < 16 \<Longrightarrow> unat (0xe0 OR x) = 224 + unat x"
    "unat x < 8 \<Longrightarrow> unat (0xf0 OR x) = 240 + unat x"
  using unat_or_disjoint [of x 6 "0x80"] unat_or_disjoint [of x 5 "0xc0"]
    unat_or_disjoint [of x 4 "0xe0"] unat_or_disjoint [of x 3 "0xf0"]
  by simp_all

lemma unat_encode_utf8:
  "map unat (encode_utf8 c) =
     (let n = unat c in
      if n < 128 then [n]
      else if n < 2048 then [192 + n div 64, 128 + n mod 64]
      else if n < 65536 then [224 + n div 4096, 128 + n div 64 mod 64, 128 + n mod 64]
      else if n < 2097152 then [240 + n div 262144, 128 + n div 4096 mod 64, 128 + n div 64 mod 64, 128 + n mod 64]
      else map unat (encode_utf8 c))"
  by (auto simp: encode_utf8_def Let_def word_less_nat_alt unat_ucast_mod unat_bits)


lemma div_64_eq_2: "unat (b :: u8) div 64 = 2 \<longleftrightarrow> 128 \<le> unat b \<and> unat b \<le> 191"
  by auto

lemma utf8_lead_cases:
  "194 \<le> unat a \<Longrightarrow> unat a \<le> 223 \<Longrightarrow> utf8_lead a = Some (2, 0x80, 0xbf, ucast (a AND 0x1f))"
  "224 \<le> unat a \<Longrightarrow> unat a \<le> 239 \<Longrightarrow> utf8_lead a =
     Some (3, if unat a = 224 then 0xa0 else 0x80, if unat a = 237 then 0x9f else 0xbf, ucast (a AND 0xf))"
  "240 \<le> unat a \<Longrightarrow> unat a \<le> 244 \<Longrightarrow> utf8_lead a =
     Some (4, if unat a = 240 then 0x90 else 0x80, if unat a = 244 then 0x8f else 0xbf, ucast (a AND 7))"
  "unat a < 194 \<or> 244 < unat a \<Longrightarrow> utf8_lead a = None"
  by (auto simp: utf8_lead_def word_le_nat_alt word_unat_eq_iff)

text \<open>The four well-formed shapes (Unicode's Table 3-7) and the scalar each denotes.\<close>

lemma decode_utf8_1:
  "unat a < 128 \<Longrightarrow> decode_utf8 (a # rest) = Ok (ucast a, 1)"
  by (simp add: decode_utf8_def word_less_nat_alt)

lemma decode_utf8_2:
  assumes "194 \<le> unat a" "unat a \<le> 223" "128 \<le> unat b" "unat b \<le> 191"
  shows "\<exists>c. decode_utf8 (a # b # rest) = Ok (c, 2) \<and> unat c = (unat a - 192) * 64 + (unat b - 128)"
proof -
  let ?c = "utf8_append (ucast (a AND 0x1f)) b"
  have "decode_utf8 (a # b # rest) = Ok (?c, 2)"
    using assms by (simp add: decode_utf8_def utf8_lead_cases(1) word_less_nat_alt not_less)
  moreover have "unat ?c = (unat a - 192) * 64 + (unat b - 128)"
  proof -
    have "unat a mod 32 = unat a - 192" "unat b mod 64 = unat b - 128"
      using assms by (auto intro!: mod_offset)
    then show ?thesis using assms
      by (subst unat_utf8_append) (simp_all add: unat_ucast_mod unat_bits)
  qed
  ultimately show ?thesis by blast
qed

lemma decode_utf8_3:
  assumes "224 \<le> unat a" "unat a \<le> 239" "128 \<le> unat b" "unat b \<le> 191" "128 \<le> unat d" "unat d \<le> 191"
    and "unat a = 224 \<Longrightarrow> 160 \<le> unat b" "unat a = 237 \<Longrightarrow> unat b \<le> 159"
  shows "\<exists>c. decode_utf8 (a # b # d # rest) = Ok (c, 3) \<and>
     unat c = (unat a - 224) * 4096 + (unat b - 128) * 64 + (unat d - 128)"
proof -
  let ?c = "utf8_append (utf8_append (ucast (a AND 0xf)) b) d"
  have "unat d div 64 = 2" using assms by (simp add: div_64_eq_2)
  then have "decode_utf8 (a # b # d # rest) = Ok (?c, 3)"
    using assms by (auto simp: decode_utf8_def utf8_lead_cases(2) word_less_nat_alt not_less and_c0)
  moreover have "unat ?c = (unat a - 224) * 4096 + (unat b - 128) * 64 + (unat d - 128)"
  proof -
    have m: "unat a mod 16 = unat a - 224" "unat b mod 64 = unat b - 128" "unat d mod 64 = unat d - 128"
      using assms by (auto intro!: mod_offset)
    have 1: "unat (utf8_append (ucast (a AND 0xf)) b) = (unat a - 224) * 64 + (unat b - 128)"
      using assms m by (subst unat_utf8_append) (simp_all add: unat_ucast_mod unat_bits)
    show ?thesis using assms m
      by (subst unat_utf8_append) (simp_all add: 1 algebra_simps)
  qed
  ultimately show ?thesis by blast
qed

lemma decode_utf8_4:
  assumes "240 \<le> unat a" "unat a \<le> 244" "128 \<le> unat b" "unat b \<le> 191"
    "128 \<le> unat d" "unat d \<le> 191" "128 \<le> unat e" "unat e \<le> 191"
    and "unat a = 240 \<Longrightarrow> 144 \<le> unat b" "unat a = 244 \<Longrightarrow> unat b \<le> 143"
  shows "\<exists>c. decode_utf8 (a # b # d # e # rest) = Ok (c, 4) \<and>
     unat c = (unat a - 240) * 262144 + (unat b - 128) * 4096 + (unat d - 128) * 64 + (unat e - 128)"
proof -
  let ?c = "utf8_append (utf8_append (utf8_append (ucast (a AND 7)) b) d) e"
  have "unat d div 64 = 2" "unat e div 64 = 2" using assms by (simp_all add: div_64_eq_2)
  then have "decode_utf8 (a # b # d # e # rest) = Ok (?c, 4)"
    using assms
    by (auto simp: decode_utf8_def utf8_lead_cases(3) word_less_nat_alt not_less and_c0)
  moreover have "unat ?c = (unat a - 240) * 262144 + (unat b - 128) * 4096 + (unat d - 128) * 64 + (unat e - 128)"
  proof -
    have m: "unat a mod 8 = unat a - 240" "unat b mod 64 = unat b - 128" "unat d mod 64 = unat d - 128"
        "unat e mod 64 = unat e - 128"
      using assms by (auto intro!: mod_offset)
    have 1: "unat (utf8_append (ucast (a AND 7)) b) = (unat a - 240) * 64 + (unat b - 128)"
      using assms m by (subst unat_utf8_append) (simp_all add: unat_ucast_mod unat_bits)
    have 2: "unat (utf8_append (utf8_append (ucast (a AND 7)) b) d) =
        (unat a - 240) * 4096 + (unat b - 128) * 64 + (unat d - 128)"
      using assms m by (subst unat_utf8_append) (simp_all add: 1 algebra_simps)
    show ?thesis using assms m
      by (subst unat_utf8_append) (simp_all add: 2 algebra_simps)
  qed
  ultimately show ?thesis by blast
qed


lemma decode_utf8_shapes:
  assumes "decode_utf8 xs = Ok (c, k)"
  shows "(\<exists>a rest. xs = a # rest \<and> k = 1 \<and> unat a < 128 \<and> c = ucast a) \<or>
    (\<exists>a b rest. xs = a # b # rest \<and> k = 2 \<and> 194 \<le> unat a \<and> unat a \<le> 223 \<and>
       128 \<le> unat b \<and> unat b \<le> 191) \<or>
    (\<exists>a b d rest. xs = a # b # d # rest \<and> k = 3 \<and> 224 \<le> unat a \<and> unat a \<le> 239 \<and>
       128 \<le> unat b \<and> unat b \<le> 191 \<and> 128 \<le> unat d \<and> unat d \<le> 191 \<and>
       (unat a = 224 \<longrightarrow> 160 \<le> unat b) \<and> (unat a = 237 \<longrightarrow> unat b \<le> 159)) \<or>
    (\<exists>a b d e rest. xs = a # b # d # e # rest \<and> k = 4 \<and> 240 \<le> unat a \<and> unat a \<le> 244 \<and>
       128 \<le> unat b \<and> unat b \<le> 191 \<and> 128 \<le> unat d \<and> unat d \<le> 191 \<and>
       128 \<le> unat e \<and> unat e \<le> 191 \<and>
       (unat a = 240 \<longrightarrow> 144 \<le> unat b) \<and> (unat a = 244 \<longrightarrow> unat b \<le> 143))"
proof (cases xs)
  case Nil
  with assms show ?thesis by (simp add: decode_utf8_def)
next
  case (Cons a ys)
  consider "unat a < 128" | "128 \<le> unat a" "unat a < 194 \<or> 244 < unat a"
    | "194 \<le> unat a" "unat a \<le> 223" | "224 \<le> unat a" "unat a \<le> 239" | "240 \<le> unat a" "unat a \<le> 244"
    by linarith
  then show ?thesis
  proof cases
    case 1
    with assms Cons decode_utf8_1 [OF 1, of ys] show ?thesis by auto
  next
    case 2
    with assms Cons show ?thesis
      by (simp add: decode_utf8_def word_less_nat_alt utf8_lead_cases(4))
  next
    case 3
    then have "\<exists>b rest. ys = b # rest \<and> k = 2 \<and> 128 \<le> unat b \<and> unat b \<le> 191"
      using assms Cons
      by (cases ys) (auto simp: decode_utf8_def word_less_nat_alt utf8_lead_cases(1) split: if_splits)
    with 3 Cons show ?thesis by auto
  next
    case 4
    then have "\<exists>b d rest. ys = b # d # rest \<and> k = 3 \<and> 128 \<le> unat b \<and> unat b \<le> 191 \<and>
        128 \<le> unat d \<and> unat d \<le> 191 \<and>
       (unat a = 224 \<longrightarrow> 160 \<le> unat b) \<and> (unat a = 237 \<longrightarrow> unat b \<le> 159)"
      using assms Cons
      by (cases ys rule: remdups_adj.cases)
         (auto simp: decode_utf8_def word_less_nat_alt utf8_lead_cases(2) and_c0 div_64_eq_2 split: if_splits)
    with 4 Cons show ?thesis by auto
  next
    case 5
    then have "\<exists>b d e rest. ys = b # d # e # rest \<and> k = 4 \<and> 128 \<le> unat b \<and> unat b \<le> 191 \<and>
        128 \<le> unat d \<and> unat d \<le> 191 \<and> 128 \<le> unat e \<and> unat e \<le> 191 \<and>
       (unat a = 240 \<longrightarrow> 144 \<le> unat b) \<and> (unat a = 244 \<longrightarrow> unat b \<le> 143)"
      using assms Cons
      apply (cases ys rule: remdups_adj.cases)
        apply (auto simp: decode_utf8_def word_less_nat_alt utf8_lead_cases(3) and_c0 div_64_eq_2 split: if_splits)[2]
      subgoal for b d zs
        by (cases zs)
           (auto simp: decode_utf8_def word_less_nat_alt utf8_lead_cases(3) and_c0 div_64_eq_2 split: if_splits)
      done
    with 5 Cons show ?thesis by auto
  qed
qed

subsection \<open>UTF-8 is a bijection between scalars and well-formed sequences\<close>

definition scalar_nat :: "nat \<Rightarrow> bool" where
  "scalar_nat n \<longleftrightarrow> n < 55296 \<or> 57344 \<le> n \<and> n < 1114112"

lemma is_scalar_value_nat: "is_scalar_value c \<longleftrightarrow> scalar_nat (unat c)"
  by (auto simp: is_scalar_value_def scalar_nat_def word_less_nat_alt word_le_nat_alt)

lemma map_unat_eq: "map unat xs = map unat ys \<longleftrightarrow> xs = (ys :: 'a::len word list)"
  by (rule inj_map_eq_map) (simp add: inj_def word_unat_eq_iff)

lemma digit_split:
  fixes q r :: nat
  assumes "r < 64"
  shows "(q * 64 + r) div 64 = q" "(q * 64 + r) mod 64 = r"
  using assms by simp_all

lemma digits3:
  fixes p q r :: nat
  assumes "q < 64" "r < 64" and n: "n = p * 4096 + q * 64 + r"
  shows "n div 4096 = p" "n div 64 mod 64 = q" "n mod 64 = r"
proof -
  have n': "n = (p * 64 + q) * 64 + r" by (simp add: n)
  have d: "n div 64 = p * 64 + q" unfolding n' using assms(2) by (rule digit_split)
  have "n div 4096 = n div 64 div 64" by (simp add: div_mult2_eq [symmetric])
  then show "n div 4096 = p" unfolding d using digit_split(1) [OF assms(1)] by simp
  show "n div 64 mod 64 = q" unfolding d using digit_split(2) [OF assms(1)] by simp
  show "n mod 64 = r" unfolding n' using assms(2) by (rule digit_split)
qed

lemma digits4:
  fixes p q r :: nat
  assumes "q < 64" "r < 64" "s < 64" and n: "n = p * 262144 + q * 4096 + r * 64 + s"
  shows "n div 262144 = p" "n div 4096 mod 64 = q" "n div 64 mod 64 = r" "n mod 64 = s"
proof -
  have n': "n = (p * 4096 + q * 64 + r) * 64 + s" by (simp add: n)
  have d: "n div 64 = p * 4096 + q * 64 + r" unfolding n' using assms(3) by (rule digit_split)
  note 3 = digits3 [OF assms(1,2) d]
  show "n div 262144 = p" using 3(1) by (simp add: div_mult2_eq [symmetric])
  show "n div 4096 mod 64 = q" using 3(2) by (simp add: div_mult2_eq [symmetric])
  show "n div 64 mod 64 = r" by (rule 3)
  show "n mod 64 = s" unfolding n' using assms(3) by (rule digit_split)
qed

lemma digits3_eq: "n div 4096 * 4096 + (n div 64 mod 64) * 64 + n mod 64 = (n :: nat)"
proof -
  have "n div 4096 = n div 64 div 64" by (simp add: div_mult2_eq [symmetric])
  then have "n div 64 = n div 4096 * 64 + n div 64 mod 64" by (metis div_mult_mod_eq)
  moreover have "n = n div 64 * 64 + n mod 64" by simp
  ultimately show ?thesis by linarith
qed

lemma digits4_eq:
  "n div 262144 * 262144 + (n div 4096 mod 64) * 4096 + (n div 64 mod 64) * 64 + n mod 64 = (n :: nat)"
proof -
  have "n div 262144 = n div 64 div 4096" "n div 4096 = n div 64 div 64"
    by (simp_all add: div_mult2_eq [symmetric])
  with digits3_eq [of "n div 64"]
  have "n div 64 = n div 262144 * 4096 + (n div 4096 mod 64) * 64 + n div 64 mod 64" by simp
  moreover have "n = n div 64 * 64 + n mod 64" by simp
  ultimately show ?thesis by linarith
qed

lemma decode_utf8_encode_utf8:
  assumes "is_scalar_value c"
  shows "decode_utf8 (encode_utf8 c @ rest) = Ok (c, length (encode_utf8 c))"
proof -
  let ?n = "unat c"
  have sc: "scalar_nat ?n" using assms by (simp add: is_scalar_value_nat)
  consider "?n < 128" | "128 \<le> ?n" "?n < 2048" | "2048 \<le> ?n" "?n < 65536" | "65536 \<le> ?n" "?n < 1114112"
    using sc unfolding scalar_nat_def by linarith
  then show ?thesis
  proof cases
    case 1
    then show ?thesis
      by (auto simp: encode_utf8_def word_less_nat_alt decode_utf8_def unat_ucast_mod
            word_unat_eq_iff)
  next
    case 2
    then have m: "map unat (encode_utf8 c) = [192 + ?n div 64, 128 + ?n mod 64]"
      by (subst unat_encode_utf8) (simp add: Let_def)
    then obtain a b where e: "encode_utf8 c = [a, b]" "unat a = 192 + ?n div 64" "unat b = 128 + ?n mod 64"
      by (auto simp: map_eq_Cons_conv)
    have "194 \<le> unat a" "unat a \<le> 223" "128 \<le> unat b" "unat b \<le> 191"
      using 2 e(2,3) by auto
    from decode_utf8_2 [OF this, of rest] show ?thesis
      using e by (auto simp: word_unat_eq_iff)
  next
    case 3
    then have m: "map unat (encode_utf8 c) = [224 + ?n div 4096, 128 + ?n div 64 mod 64, 128 + ?n mod 64]"
      by (subst unat_encode_utf8) (simp add: Let_def)
    then obtain a b d where e: "encode_utf8 c = [a, b, d]" "unat a = 224 + ?n div 4096"
        "unat b = 128 + ?n div 64 mod 64" "unat d = 128 + ?n mod 64"
      by (auto simp: map_eq_Cons_conv)
    have b: "?n mod 64 < 64" "?n div 64 mod 64 < 64" by simp_all
    have s: "unat a = 224 \<Longrightarrow> 160 \<le> unat b" "unat a = 237 \<Longrightarrow> unat b \<le> 159"
      using 3 sc digits3_eq [of ?n] b unfolding e(2,3) scalar_nat_def by linarith+
    have "224 \<le> unat a" "unat a \<le> 239" "128 \<le> unat b" "unat b \<le> 191" "128 \<le> unat d" "unat d \<le> 191"
      using 3 e(2,3,4) by auto
    from decode_utf8_3 [OF this s, of rest] obtain c' where
      "decode_utf8 (a # b # d # rest) = Ok (c', 3)"
      "unat c' = ?n div 4096 * 4096 + (?n div 64 mod 64) * 64 + ?n mod 64"
      using e by auto
    then show ?thesis using e by (simp add: word_unat_eq_iff digits3_eq)
  next
    case 4
    then have m: "map unat (encode_utf8 c) =
        [240 + ?n div 262144, 128 + ?n div 4096 mod 64, 128 + ?n div 64 mod 64, 128 + ?n mod 64]"
      by (subst unat_encode_utf8) (simp add: Let_def)
    then obtain a b d f where e: "encode_utf8 c = [a, b, d, f]" "unat a = 240 + ?n div 262144"
        "unat b = 128 + ?n div 4096 mod 64" "unat d = 128 + ?n div 64 mod 64" "unat f = 128 + ?n mod 64"
      by (auto simp: map_eq_Cons_conv)
    have b: "?n mod 64 < 64" "?n div 64 mod 64 < 64" "?n div 4096 mod 64 < 64" by simp_all
    have s: "unat a = 240 \<Longrightarrow> 144 \<le> unat b" "unat a = 244 \<Longrightarrow> unat b \<le> 143"
      using 4 digits4_eq [of ?n] b unfolding e(2,3) by linarith+
    have "240 \<le> unat a" "unat a \<le> 244" "128 \<le> unat b" "unat b \<le> 191" "128 \<le> unat d" "unat d \<le> 191"
        "128 \<le> unat f" "unat f \<le> 191"
      using 4 e(2-5) by auto
    from decode_utf8_4 [OF this s, of rest] obtain c' where
      "decode_utf8 (a # b # d # f # rest) = Ok (c', 4)"
      "unat c' = ?n div 262144 * 262144 + (?n div 4096 mod 64) * 4096 + (?n div 64 mod 64) * 64 + ?n mod 64"
      using e by auto
    then show ?thesis using e by (simp add: word_unat_eq_iff digits4_eq)
  qed
qed


lemma decode_utf8_canonical:
  assumes "decode_utf8 xs = Ok (c, k)"
  shows "is_scalar_value c \<and> encode_utf8 c = take k xs \<and> 0 < k \<and> k \<le> length xs"
  using decode_utf8_shapes [OF assms]
proof (elim disjE exE conjE)
  fix a rest assume h: "xs = a # rest" "k = 1" "unat a < 128" "c = ucast a"
  then have "unat c = unat a" by (simp add: unat_ucast_mod)
  with h show ?thesis
    by (auto simp: is_scalar_value_nat scalar_nat_def encode_utf8_def word_less_nat_alt word_unat_eq_iff
       unat_ucast_mod)
next
  fix a b rest assume h: "xs = a # b # rest" "k = 2" "194 \<le> unat a" "unat a \<le> 223" "128 \<le> unat b" "unat b \<le> 191"
  define p q where "p = unat a - 192" and "q = unat b - 128"
  then have pq: "2 \<le> p" "p < 32" "q < 64" "unat a = 192 + p" "unat b = 128 + q" using h by auto
  have n: "unat c = p * 64 + q"
    using decode_utf8_2 [OF h(3-6), of rest] assms h(1,2) by (auto simp: p_def q_def)
  have "map unat (encode_utf8 c) = [192 + p, 128 + q]"
    using pq(1-3) by (subst unat_encode_utf8) (simp add: Let_def n)
  then have "encode_utf8 c = [a, b]" using pq(4,5) by (auto simp: map_eq_Cons_conv word_unat_eq_iff)
  moreover have "is_scalar_value c" using pq(1-3) by (simp add: is_scalar_value_nat scalar_nat_def n)
  ultimately show ?thesis using h by simp
next
  fix a b d rest assume h: "xs = a # b # d # rest" "k = 3" "224 \<le> unat a" "unat a \<le> 239"
     "128 \<le> unat b" "unat b \<le> 191" "128 \<le> unat d" "unat d \<le> 191"
     "unat a = 224 \<longrightarrow> 160 \<le> unat b" "unat a = 237 \<longrightarrow> unat b \<le> 159"
  define p q r where "p = unat a - 224" and "q = unat b - 128" and "r = unat d - 128"
  then have pq: "p < 16" "q < 64" "r < 64" "unat a = 224 + p" "unat b = 128 + q" "unat d = 128 + r"
     and ex: "p = 0 \<Longrightarrow> 32 \<le> q" "p = 13 \<Longrightarrow> q < 32" using h by auto
  have n: "unat c = p * 4096 + q * 64 + r"
    using decode_utf8_3 [OF h(3-8) h(9,10) [rule_format], of rest] assms h(1,2)
    by (auto simp: p_def q_def r_def)
  have 1: "2048 \<le> unat c" "unat c < 65536"
    using pq(1-3) ex(1) n by (cases "p = 0"; linarith)+
  have 2: "unat c div 4096 = p" "unat c div 64 mod 64 = q" "unat c mod 64 = r"
    by (rule digits3 [OF pq(2,3) n])+
  have "map unat (encode_utf8 c) = [224 + p, 128 + q, 128 + r]"
    using 1 by (subst unat_encode_utf8) (simp add: Let_def 2)
  then have "encode_utf8 c = [a, b, d]" using pq(4-6) by (auto simp: map_eq_Cons_conv word_unat_eq_iff)
  moreover have "is_scalar_value c" 
    using pq(1-3) ex(2) n unfolding is_scalar_value_nat scalar_nat_def
    by (cases "p = 13"; linarith)
  ultimately show ?thesis using h by simp
next
  fix a b d e rest assume h: "xs = a # b # d # e # rest" "k = 4" "240 \<le> unat a" "unat a \<le> 244"
     "128 \<le> unat b" "unat b \<le> 191" "128 \<le> unat d" "unat d \<le> 191" "128 \<le> unat e" "unat e \<le> 191"
     "unat a = 240 \<longrightarrow> 144 \<le> unat b" "unat a = 244 \<longrightarrow> unat b \<le> 143"
  define p q r s where "p = unat a - 240" and "q = unat b - 128" and "r = unat d - 128" and "s = unat e - 128"
  then have pq: "p < 5" "q < 64" "r < 64" "s < 64" "unat a = 240 + p" "unat b = 128 + q" "unat d = 128 + r" "unat e = 128 + s"
     and ex: "p = 0 \<Longrightarrow> 16 \<le> q" "p = 4 \<Longrightarrow> q < 16" using h by auto
  have n: "unat c = p * 262144 + q * 4096 + r * 64 + s"
    using decode_utf8_4 [OF h(3-10) h(11,12) [rule_format], of rest] assms h(1,2)
    by (auto simp: p_def q_def r_def s_def)
  have 1: "65536 \<le> unat c" "unat c < 1114112"
    using pq(1-4) ex n by (cases "p = 0"; cases "p = 4"; linarith)+
  have 2: "unat c div 262144 = p" "unat c div 4096 mod 64 = q" "unat c div 64 mod 64 = r" "unat c mod 64 = s"
    by (rule digits4 [OF pq(2-4) n])+
  have "map unat (encode_utf8 c) = [240 + p, 128 + q, 128 + r, 128 + s]"
    using 1 by (subst unat_encode_utf8) (simp add: Let_def 2)
  then have "encode_utf8 c = [a, b, d, e]" using pq(5-8) by (auto simp: map_eq_Cons_conv word_unat_eq_iff)
  moreover have "is_scalar_value c" using 1 by (simp add: is_scalar_value_nat scalar_nat_def)
  ultimately show ?thesis using h by simp
qed

subsection \<open>UTF-16 and UTF-32\<close>

abbreviation unit_from :: "bool \<Rightarrow> u8 \<Rightarrow> u8 \<Rightarrow> u16" where
  "unit_from be \<equiv> if be then u16_from_be_bytes else u16_from_le_bytes"

abbreviation unit_to :: "bool \<Rightarrow> u16 \<Rightarrow> bytes" where
  "unit_to be \<equiv> if be then u16_to_be_bytes else u16_to_le_bytes"

lemma unit_to_shape: "\<exists>a b. unit_to be x = [a, b] \<and> unit_from be a b = x"
  by (simp add: u16_to_le_bytes_def u16_to_be_bytes_def u16_from_le_bytes_def u16_be_from_to)

lemma unit_to_from: "unit_to be (unit_from be a b) = [a, b]"
  by (simp add: u16_to_le_bytes_def u16_from_le_bytes_def u16_be_to_from)

abbreviation word_to :: "bool \<Rightarrow> u32 \<Rightarrow> bytes" where
  "word_to be \<equiv> if be then u32_to_be_bytes else u32_to_le_bytes"

lemma decode_utf32_word_to:
  "is_scalar_value c \<Longrightarrow> decode_utf32 (word_to be c @ rest) be = Ok (c, length (word_to be c))"
  by (auto simp: decode_utf32_def u32_to_le_bytes_def u32_to_be_bytes_def u32_from_le_bytes_def
      u32_be_from_to Let_def is_scalar_value_def word_less_nat_alt word_le_nat_alt)

lemma four_bytes:
  assumes "4 \<le> length xs"
  shows "\<exists>a b c d rest. xs = a # b # c # d # rest"
  using assms by (auto simp: numeral_eq_Suc Suc_le_length_iff)

lemma decode_utf32_canonical:
  assumes "decode_utf32 xs be = Ok (c, k)"
  shows "is_scalar_value c \<and> word_to be c = take k xs \<and> 0 < k \<and> k \<le> length xs"
proof -
  have l: "4 \<le> length xs" using assms by (auto simp: decode_utf32_def split: if_splits)
  then obtain p q r s rest where xs: "xs = p # q # r # s # rest" using four_bytes by blast
  have s: "is_scalar_value c" and k: "k = 4"
    and c: "c = (if be then u32_from_be_bytes p q r s else u32_from_le_bytes p q r s)"
    using assms unfolding xs
    by (auto simp: decode_utf32_def Let_def is_scalar_value_def word_less_nat_alt word_le_nat_alt
        split: if_splits)
  have "word_to be c = [p, q, r, s]"
    unfolding c by (simp add: u32_to_le_bytes_def u32_from_le_bytes_def u32_be_to_from)
  then show ?thesis using s k by (simp add: xs)
qed

lemma unit_surrogate_pair:
  fixes c :: u32
  assumes "65536 \<le> unat c" "unat c < 1114112"
  defines "h \<equiv> ucast (0xd800 + drop_bit 10 (c - 0x10000)) :: u16"
    and "l \<equiv> ucast (0xdc00 + ((c - 0x10000) AND 0x3ff)) :: u16"
  shows "unat h = 55296 + (unat c - 65536) div 1024" "unat l = 56320 + (unat c - 65536) mod 1024"
proof -
  have "0x10000 \<le> c" using assms(1) by (simp add: word_le_nat_alt)
  from unat_sub [OF this] have m: "unat (c - 0x10000) = unat c - 65536" by simp
  have "(unat c - 65536) div 1024 < 1024" using assms(2) by (simp add: div_less_iff_less_mult)
  then show "unat h = 55296 + (unat c - 65536) div 1024"
    unfolding h_def by (simp add: unat_ucast_mod unat_word_ariths unat_bits m)
  have "(unat c - 65536) mod 1024 < 1024" by simp
  then show "unat l = 56320 + (unat c - 65536) mod 1024"
    unfolding l_def by (simp add: unat_ucast_mod unat_word_ariths unat_bits m)
qed

lemma unat_join_surrogates:
  fixes f s :: u16
  assumes "55296 \<le> unat f" "unat f \<le> 56319" "56320 \<le> unat s" "unat s \<le> 57343"
  shows "unat (push_bit 10 (ucast (f - 0xd800)) + ucast (s - 0xdc00) + 0x10000 :: u32) =
    (unat f - 55296) * 1024 + (unat s - 56320) + 65536"
proof -
  have 1: "unat (f - 0xd800) = unat f - 55296" "unat (s - 0xdc00) = unat s - 56320"
    using assms by (simp_all add: unat_sub word_le_nat_alt)
  have 2: "unat (ucast (f - 0xd800) :: u32) = unat f - 55296" "unat (ucast (s - 0xdc00) :: u32) = unat s - 56320"
    using assms by (simp_all add: unat_ucast_mod 1)
  show ?thesis
    using assms by (simp add: push_bit_eq_mult unat_word_ariths 2)
qed

lemma decode_utf16_pair:
  assumes "55296 \<le> unat (unit_from be a b)" "unat (unit_from be a b) \<le> 56319"
    "56320 \<le> unat (unit_from be d e)" "unat (unit_from be d e) \<le> 57343"
  shows "\<exists>c. decode_utf16 (a # b # d # e # rest) be = Ok (c, 4) \<and>
    unat c = (unat (unit_from be a b) - 55296) * 1024 + (unat (unit_from be d e) - 56320) + 65536"
  using unat_join_surrogates [OF assms] assms
  by (simp add: decode_utf16_def Let_def word_le_nat_alt word_less_nat_alt)

lemma decode_utf16_single:
  assumes "unat (unit_from be a b) < 55296 \<or> 57343 < unat (unit_from be a b)"
  shows "decode_utf16 (a # b # rest) be = Ok (ucast (unit_from be a b), 2)"
  using assms
  by (auto simp: decode_utf16_def Let_def word_le_nat_alt word_less_nat_alt)

lemma decode_utf16_encode_utf16:
  assumes "is_scalar_value c"
  shows "decode_utf16 (encode_utf16 (unit_to be) c @ rest) be = Ok (c, length (encode_utf16 (unit_to be) c))"
proof (cases "unat c < 65536")
  case True
  then have e: "encode_utf16 (unit_to be) c = unit_to be (ucast c)"
    by (simp add: encode_utf16_def word_less_nat_alt)
  obtain a b where u: "unit_to be (ucast c) = [a, b]" "unit_from be a b = ucast c"
    using unit_to_shape by blast
  have n: "unat (ucast c :: u16) = unat c" using True by (simp add: unat_ucast_mod)
  have "decode_utf16 (a # b # rest) be = Ok (ucast (unit_from be a b), 2)"
    using assms True unfolding is_scalar_value_nat scalar_nat_def
    by (intro decode_utf16_single) (auto simp: u(2) n)
  moreover have "ucast (ucast c :: u16) = c" using n by (simp add: word_unat_eq_iff unat_ucast_mod)
  ultimately show ?thesis by (simp add: e u)
next
  case False
  let ?h = "ucast (0xd800 + drop_bit 10 (c - 0x10000)) :: u16"
  let ?l = "ucast (0xdc00 + ((c - 0x10000) AND 0x3ff)) :: u16"
  have b: "65536 \<le> unat c" "unat c < 1114112"
    using False assms unfolding is_scalar_value_nat scalar_nat_def by auto
  then have e: "encode_utf16 (unit_to be) c = unit_to be ?h @ unit_to be ?l"
    by (simp add: encode_utf16_def word_less_nat_alt Let_def)
  note hl = unit_surrogate_pair [OF b]
  obtain a1 b1 where u: "unit_to be ?h = [a1, b1]" "unit_from be a1 b1 = ?h" using unit_to_shape by blast
  obtain a2 b2 where v: "unit_to be ?l = [a2, b2]" "unit_from be a2 b2 = ?l" using unit_to_shape by blast
  have "(unat c - 65536) div 1024 < 1024" using b by (simp add: div_less_iff_less_mult)
  moreover have "(unat c - 65536) mod 1024 < 1024" by simp
  ultimately have r: "55296 \<le> unat (unit_from be a1 b1)" "unat (unit_from be a1 b1) \<le> 56319"
    "56320 \<le> unat (unit_from be a2 b2)" "unat (unit_from be a2 b2) \<le> 57343"
    unfolding u(2) v(2) hl by linarith+
  obtain c' where c': "decode_utf16 (a1 # b1 # a2 # b2 # rest) be = Ok (c', 4)"
    "unat c' = (unat c - 65536) div 1024 * 1024 + (unat c - 65536) mod 1024 + 65536"
    using decode_utf16_pair [OF r] unfolding u(2) v(2) hl by auto
  then have "unat c' = unat c" using b by (simp only: div_mult_mod_eq)
  then have "c' = c" by (simp add: word_unat_eq_iff)
  then show ?thesis using c'(1) by (simp add: e u v)
qed


lemma decode_utf16_shapes:
  assumes "decode_utf16 xs be = Ok (c, k)"
  obtains (single) a b rest where "xs = a # b # rest" "k = 2" "c = ucast (unit_from be a b)"
      "unat (unit_from be a b) < 55296 \<or> 57343 < unat (unit_from be a b)"
  | (pair) a b d e rest where "xs = a # b # d # e # rest" "k = 4"
      "55296 \<le> unat (unit_from be a b)" "unat (unit_from be a b) \<le> 56319"
      "56320 \<le> unat (unit_from be d e)" "unat (unit_from be d e) \<le> 57343"
proof -
  have "2 \<le> length xs" using assms by (auto simp: decode_utf16_def split: if_splits)
  then obtain a b rest where xs: "xs = a # b # rest" by (auto simp: numeral_eq_Suc Suc_le_length_iff)
  show ?thesis
  proof (cases "55296 \<le> unat (unit_from be a b) \<and> unat (unit_from be a b) \<le> 56319")
    case True
    then have "4 \<le> length xs"
      using assms by (auto simp: xs decode_utf16_def Let_def word_le_nat_alt split: if_splits)
    then obtain d e r where r: "rest = d # e # r" by (auto simp: xs numeral_eq_Suc Suc_le_length_iff)
    have "k = 4 \<and> 56320 \<le> unat (unit_from be d e) \<and> unat (unit_from be d e) \<le> 57343"
      using assms True unfolding xs r
      by (simp add: decode_utf16_def Let_def word_le_nat_alt not_le split: if_split_asm)
    then show ?thesis using pair xs r True by blast
  next
    case False
    then have "k = 2 \<and> c = ucast (unit_from be a b) \<and>
        (unat (unit_from be a b) < 55296 \<or> 57343 < unat (unit_from be a b))"
      using assms unfolding xs
      by (simp add: decode_utf16_def Let_def word_le_nat_alt not_le split: if_split_asm; linarith)
    then show ?thesis using single xs by blast
  qed
qed

lemma decode_utf16_canonical:
  assumes "decode_utf16 xs be = Ok (c, k)"
  shows "is_scalar_value c \<and> encode_utf16 (unit_to be) c = take k xs \<and> 0 < k \<and> k \<le> length xs"
  using assms
proof (cases rule: decode_utf16_shapes)
  case (single a b rest)
  let ?u = "unit_from be a b"
  have n: "unat c = unat ?u" using unat_u16_less [of ?u] by (simp only: single unat_ucast_mod) simp
  then have "ucast c = ?u"
    using unat_u16_less [of ?u] unfolding word_unat_eq_iff unat_ucast_mod n by simp
  moreover have "c < 0x10000" using unat_u16_less [of ?u] n by (simp add: word_less_nat_alt)
  ultimately have "encode_utf16 (unit_to be) c = unit_to be ?u" by (simp add: encode_utf16_def)
  then have "encode_utf16 (unit_to be) c = [a, b]" by (simp only: unit_to_from)
  moreover have "is_scalar_value c"
    using single(4) unat_u16_less [of ?u] unfolding is_scalar_value_nat scalar_nat_def n by linarith
  ultimately show ?thesis using single(1,2) by simp
next
  case (pair a b d e rest)
  define p q where "p = unat (unit_from be a b) - 55296" and "q = unat (unit_from be d e) - 56320"
  have pq: "p < 1024" "q < 1024" "unat (unit_from be a b) = 55296 + p" "unat (unit_from be d e) = 56320 + q"
    using pair(3-6) unfolding p_def q_def by linarith+
  have n: "unat c = p * 1024 + q + 65536"
    using decode_utf16_pair [OF pair(3-6), of rest] assms unfolding pair(1) p_def q_def by auto
  have b: "65536 \<le> unat c" "unat c < 1114112" using n pq(1,2) by linarith+
  let ?h = "ucast (0xd800 + drop_bit 10 (c - 0x10000)) :: u16"
  let ?l = "ucast (0xdc00 + ((c - 0x10000) AND 0x3ff)) :: u16"
  have "(unat c - 65536) div 1024 = p" "(unat c - 65536) mod 1024 = q" using pq(1,2) by (simp_all add: n)
  with unit_surrogate_pair [OF b] have "?h = unit_from be a b" "?l = unit_from be d e"
    unfolding word_unat_eq_iff pq(3,4) by simp_all
  moreover have "encode_utf16 (unit_to be) c = unit_to be ?h @ unit_to be ?l"
    using b by (simp add: encode_utf16_def word_less_nat_alt Let_def)
  ultimately have "encode_utf16 (unit_to be) c = [a, b, d, e]" by (simp only: unit_to_from) simp
  moreover have "is_scalar_value c" using b by (simp add: is_scalar_value_nat scalar_nat_def)
  ultimately show ?thesis using pair(1,2) by simp
qed

subsection \<open>The single-byte codecs\<close>

lemma u_to_iso8859_from_Some:
  "u_to_iso8859_from us i c = Some b \<Longrightarrow> \<exists>j < length us. us ! j = c \<and> b = word_of_nat (i + j + 128)"
proof (induction us arbitrary: i)
  case (Cons u us)
  show ?case
  proof (cases "u = c")
    case True
    with Cons.prems show ?thesis by (intro exI [of _ 0]) simp
  next
    case False
    with Cons.prems Cons.IH [of "Suc i"] obtain j
      where "j < length us" "us ! j = c" "b = word_of_nat (Suc i + j + 128)" by auto
    then show ?thesis by (intro exI [of _ "Suc j"]) simp
  qed
qed simp

lemma unat_sub_128: "128 \<le> b \<Longrightarrow> unat (b - 128 :: u8) = unat b - 128"
  using unat_sub [of 128 b] by simp

lemma iso8859_to_u_u_to_iso8859:
  assumes "table_ok table" and "u_to_iso8859 table c = Some b"
  shows "iso8859_to_u table b = c"
proof (cases "c < 128")
  case True
  then have "b = ucast c" "unat c < 128" using assms(2) by (auto simp: u_to_iso8859_def word_less_nat_alt)
  then show ?thesis
    by (auto simp: iso8859_to_u_def word_less_nat_alt unat_ucast_mod word_unat_eq_iff)
next
  case False
  with assms(2) obtain j where j: "j < length table" "table ! j = c" "b = word_of_nat (j + 128)"
    using u_to_iso8859_from_Some [of table 0 c b] by (auto simp: u_to_iso8859_def)
  have "length table = 128" using assms(1) by (simp add: table_ok_def)
  then have "unat b = j + 128" using j(1) unfolding j(3) unat_of_nat by simp
  then show ?thesis using j(2)
    by (auto simp: iso8859_to_u_def word_less_nat_alt word_le_nat_alt unat_sub_128)
qed

lemma is_scalar_value_iso8859_to_u:
  assumes "table_ok table"
  shows "is_scalar_value (iso8859_to_u table b)"
proof (cases "b < 128")
  case True
  then show ?thesis
    by (simp add: iso8859_to_u_def is_scalar_value_nat scalar_nat_def word_less_nat_alt unat_ucast_mod)
next
  case False
  then have "unat (b - 128) = unat b - 128" by (simp add: unat_sub_128)
  then have "unat (b - 128) < length table"
    using assms unat_u8_less [of b] by (simp add: table_ok_def)
  then show ?thesis using assms False by (simp add: iso8859_to_u_def table_ok_def)
qed

lemma u_to_iso8859_from_nth:
  "distinct us \<Longrightarrow> j < length us \<Longrightarrow> u_to_iso8859_from us i (us ! j) = Some (word_of_nat (i + j + 128))"
proof (induction us arbitrary: i j)
  case (Cons u us)
  then show ?case by (cases j) auto
qed simp

lemma u_to_iso8859_iso8859_to_u:
  assumes "table_ok table" and "distinct table"
  shows "u_to_iso8859 table (iso8859_to_u table b) = Some b"
proof (cases "b < 128")
  case True
  then show ?thesis
    by (auto simp: iso8859_to_u_def u_to_iso8859_def word_less_nat_alt unat_ucast_mod word_unat_eq_iff)
next
  case False
  define j where "j = unat (b - 128)"
  have j: "j = unat b - 128" "128 \<le> unat b" 
    using False unat_sub_128 [of b] by (simp_all add: j_def not_less word_le_nat_alt)
  have l: "j < length table" using assms(1) unat_u8_less [of b] j by (simp add: table_ok_def)
  have "128 \<le> table ! j" using assms(1) nth_mem [OF l] unfolding table_ok_def by blast
  then have "\<not> table ! j < 128" by (simp add: not_less)
  moreover have "word_of_nat (0 + j + 128) = b" using j by simp
  ultimately show ?thesis
    using False u_to_iso8859_from_nth [OF assms(2) l, of 0]
    by (simp add: iso8859_to_u_def u_to_iso8859_def j_def [symmetric])
qed

lemma table_ok_iso8859_table: "table_ok (iso8859_table t)"
  by (cases t) (simp_all add: iso8859_tables_ok)

lemma decode_ascii_shapes:
  assumes "decode_ascii xs = Ok (c, k)"
  shows "is_scalar_value c \<and> c < 0x80 \<and> [ucast c] = take k xs \<and> 0 < k \<and> k \<le> length xs"
  using assms
  by (auto simp: decode_ascii_def is_scalar_value_nat scalar_nat_def word_less_nat_alt unat_ucast_mod
      word_unat_eq_iff split: list.splits if_splits)

lemma decode_ascii_encode: "c < 0x80 \<Longrightarrow> decode_ascii (ucast c # rest) = Ok (c, 1)"
  by (auto simp: decode_ascii_def word_less_nat_alt unat_ucast_mod word_unat_eq_iff)

subsection \<open>The codec laws\<close>

locale codec =
  fixes dec :: "bytes \<Rightarrow> decode_result" and enc :: "u32 \<Rightarrow> encode_result"
  assumes dec_progress: "dec xs = Ok (c, k) \<Longrightarrow> 0 < k \<and> k \<le> length xs"
    and dec_scalar: "dec xs = Ok (c, k) \<Longrightarrow> is_scalar_value c"
    and dec_no_panic: "dec xs \<noteq> Panic"
    and enc_no_panic: "enc c \<noteq> Panic"
    and enc_size: "enc c = Ok bs \<Longrightarrow> 0 < length bs \<and> length bs \<le> 4"
    and dec_enc: "is_scalar_value c \<Longrightarrow> enc c = Ok bs \<Longrightarrow> dec (bs @ rest) = Ok (c, length bs)"

locale canonical_codec = codec +
  assumes enc_dec: "dec xs = Ok (c, k) \<Longrightarrow> enc c = Ok (take k xs)"

lemma encoding_cases [case_names utf8 ascii utf16 utf32 table unsupported]:
  obtains "e = Utf8" | "e = Ascii" | be where "e = (if be then Utf16Be else Utf16Le)"
  | be where "e = (if be then Utf32Be else Utf32Le) \<or> e = WChar \<and> \<not> be"
  | t where "from_encoding e = Some t" | "from_encoding e = None" "\<not> is_supported e"
  by (cases e) (force simp: is_supported_def)+

lemma decode_scalar_iso:
  "from_encoding e = Some t \<Longrightarrow> decode_scalar e xs =
     (case xs of [] \<Rightarrow> Err DecodeIncomplete | b # _ \<Rightarrow> Ok (iso8859_decode t b, 1))"
  by (cases e) (auto simp: decode_scalar_def)

lemma encode_scalar_iso:
  "from_encoding e = Some t \<Longrightarrow> encode_scalar e c =
     (case iso8859_encode t c of None \<Rightarrow> Err EncodeUnrepresentable | Some b \<Rightarrow> Ok [b])"
  by (cases e) (auto simp: encode_scalar_def)

lemma scalar_unsupported:
  "\<not> is_supported e \<Longrightarrow> decode_scalar e xs = Err DecodeInvalid \<and> encode_scalar e c = Err EncodeUnrepresentable"
  by (cases e) (simp_all add: is_supported_def decode_scalar_def encode_scalar_def)

lemma scalar_utf16:
  "decode_scalar (if be then Utf16Be else Utf16Le) xs = decode_utf16 xs be"
  "encode_scalar (if be then Utf16Be else Utf16Le) c = Ok (encode_utf16 (unit_to be) c)"
  by (simp_all add: decode_scalar_def encode_scalar_def)

lemma scalar_utf32:
  assumes "e = (if be then Utf32Be else Utf32Le) \<or> e = WChar \<and> \<not> be"
  shows "decode_scalar e xs = decode_utf32 xs be" "encode_scalar e c = Ok (word_to be c)"
  using assms by (auto simp: decode_scalar_def encode_scalar_def)

lemma length_encode_utf16: "length (encode_utf16 (unit_to be) c) = (if c < 0x10000 then 2 else 4)"
  by (simp add: encode_utf16_def u16_to_be_bytes_def u16_to_le_bytes_def Let_def)

lemma length_word_to: "length (word_to be c) = 4"
  by (simp add: u32_to_be_bytes_def u32_to_le_bytes_def)

lemma length_encode_utf8: "encode_utf8 c \<noteq> [] \<and> length (encode_utf8 c) \<le> 4"
  by (simp add: encode_utf8_def)

lemma scalar_codec_utf8: "codec (decode_scalar Utf8) (encode_scalar Utf8)"
proof unfold_locales
  show "decode_scalar Utf8 xs \<noteq> Panic" for xs
    by (simp add: decode_scalar_def decode_utf8_def Let_def split: list.split option.split)
qed (auto simp: decode_scalar_def encode_scalar_def dest: decode_utf8_canonical
  intro!: decode_utf8_encode_utf8 length_encode_utf8 simp: length_encode_utf8)

lemma scalar_codec_ascii: "codec (decode_scalar Ascii) (encode_scalar Ascii)"
  by unfold_locales
     (auto simp: decode_scalar_def encode_scalar_def decode_ascii_encode dest: decode_ascii_shapes
        split: if_splits, simp add: decode_ascii_def split: list.splits if_splits)

lemma scalar_codec_utf16:
  "codec (decode_scalar (if be then Utf16Be else Utf16Le)) (encode_scalar (if be then Utf16Be else Utf16Le))"
  unfolding scalar_utf16 [abs_def]
proof unfold_locales
  show "decode_utf16 xs be \<noteq> Panic" for xs by (simp add: decode_utf16_def Let_def)
  show "Ok (encode_utf16 (unit_to be) c) = Ok bs \<Longrightarrow> 0 < length bs \<and> length bs \<le> 4" for c bs
    using length_encode_utf16 [of be c] by (auto split: if_splits)
  show "is_scalar_value c \<Longrightarrow> Ok (encode_utf16 (unit_to be) c) = Ok bs
      \<Longrightarrow> decode_utf16 (bs @ rest) be = Ok (c, length bs)" for c bs rest
    using decode_utf16_encode_utf16 by blast
qed (auto dest: decode_utf16_canonical)

lemma scalar_codec_utf32:
  assumes "e = (if be then Utf32Be else Utf32Le) \<or> e = WChar \<and> \<not> be"
  shows "codec (decode_scalar e) (encode_scalar e)"
  unfolding scalar_utf32 [OF assms, abs_def]
proof unfold_locales
  show "decode_utf32 xs be \<noteq> Panic" for xs by (simp add: decode_utf32_def Let_def)
  show "is_scalar_value c \<Longrightarrow> Ok (word_to be c) = Ok bs \<Longrightarrow> decode_utf32 (bs @ rest) be = Ok (c, length bs)"
    for c bs rest using decode_utf32_word_to by blast
  show "Ok (word_to be c) = Ok bs \<Longrightarrow> 0 < length bs \<and> length bs \<le> 4" for c bs
    using length_word_to [of be c] by auto
qed (auto dest: decode_utf32_canonical)

lemma scalar_codec_iso:
  assumes "from_encoding e = Some t"
  shows "codec (decode_scalar e) (encode_scalar e)"
  by unfold_locales
     (auto simp: decode_scalar_iso [OF assms] encode_scalar_iso [OF assms] iso8859_decode_def iso8859_encode_def
        is_scalar_value_iso8859_to_u table_ok_iso8859_table iso8859_to_u_u_to_iso8859
        split: list.splits option.splits)

lemma scalar_codec_laws: "codec (decode_scalar e) (encode_scalar e)"
proof (cases e rule: encoding_cases)
  case utf16
  then show ?thesis by (simp only: scalar_codec_utf16)
next
  case unsupported
  then show ?thesis by unfold_locales (simp_all add: scalar_unsupported)
qed (auto intro: scalar_codec_utf8 scalar_codec_ascii scalar_codec_utf32 scalar_codec_iso)

interpretation scalar_codec: codec "decode_scalar e" "encode_scalar e" for e
  by (rule scalar_codec_laws)

definition unicode_encoding :: "encoding \<Rightarrow> bool" where
  "unicode_encoding e \<longleftrightarrow> e \<in> set [Utf8, Utf16Le, Utf16Be, Utf32Le, Utf32Be, WChar]"

text \<open>The codecs that write every scalar of their repertoire in exactly one way: all the
  supported ones but ISO-8859-8, whose bytes \<open>0xaa\<close> and \<open>0xd7\<close> both decode to U+00D7.\<close>

definition strict_encoding :: "encoding \<Rightarrow> bool" where
  "strict_encoding e \<longleftrightarrow> is_supported e \<and> e \<noteq> Iso8859_8"

lemma distinct_iso8859_table: "from_encoding e = Some t \<Longrightarrow> e \<noteq> Iso8859_8 \<Longrightarrow> distinct (iso8859_table t)"
  by (cases e) (auto simp: iso8859_tables_distinct)

lemma canonical_codec_strict:
  assumes "strict_encoding e"
  shows "canonical_codec (decode_scalar e) (encode_scalar e)"
proof (unfold_locales)
  fix xs c k
  assume d: "decode_scalar e xs = Ok (c, k)"
  show "encode_scalar e c = Ok (take k xs)"
  proof (cases e rule: encoding_cases)
    case utf8
    with d show ?thesis by (auto simp: decode_scalar_def encode_scalar_def dest: decode_utf8_canonical)
  next
    case ascii
    with d show ?thesis using decode_ascii_shapes [of xs c k] by (auto simp: decode_scalar_def encode_scalar_def)
  next
    case (utf16 be)
    with d have "decode_utf16 xs be = Ok (c, k)" by (simp only: scalar_utf16)
    then show ?thesis unfolding utf16 scalar_utf16 using decode_utf16_canonical by blast
  next
    case (utf32 be)
    with d have "decode_utf32 xs be = Ok (c, k)" by (simp only: scalar_utf32)
    then show ?thesis unfolding scalar_utf32 [OF utf32] using decode_utf32_canonical by blast
  next
    case (table t)
    then have "distinct (iso8859_table t)" using assms by (auto simp: strict_encoding_def distinct_iso8859_table)
    with d show ?thesis
      by (auto simp: decode_scalar_iso [OF table] encode_scalar_iso [OF table] iso8859_decode_def
          iso8859_encode_def u_to_iso8859_iso8859_to_u table_ok_iso8859_table split: list.splits)
  qed (use assms in \<open>auto simp: strict_encoding_def\<close>)
qed

interpretation utf8_codec: canonical_codec "decode_scalar Utf8" "encode_scalar Utf8"
  by (rule canonical_codec_strict) (simp add: strict_encoding_def is_supported_def)

lemma iso8859_8_not_canonical:
  "decode_scalar Iso8859_8 [0xd7] = Ok (0xd7, 1) \<and> encode_scalar Iso8859_8 0xd7 = Ok [0xaa]"
  by (simp add: decode_scalar_def encode_scalar_def iso8859_decode_def iso8859_encode_def
      iso8859_to_u_def u_to_iso8859_def ISO8859_8_TO_U_def)

lemma encode_scalar_unicode: "unicode_encoding e \<Longrightarrow> \<exists>bs. encode_scalar e c = Ok bs"
  by (auto simp: unicode_encoding_def encode_scalar_def)
text \<open>C32. What a codec writes for a Unicode scalar it reads back: in every encoding, the bytes
  produced for a scalar value decode to that scalar and to exactly their own length, whatever bytes
  follow, and they fit the four-byte scratch buffer.\<close>

theorem decode_encode_scalar:
  assumes "is_scalar_value c" and "encode_scalar e c = Ok bs"
  shows "decode_scalar e (bs @ rest) = Ok (c, length bs) \<and> 0 < length bs \<and> length bs \<le> 4"
  using scalar_codec.dec_enc [OF assms] scalar_codec.enc_size [OF assms(2)] by blast

theorem decode_encode_scalar_witness:
  "is_scalar_value 0x1f600 \<and>
   decode_scalar Utf8 ([0xf0, 0x9f, 0x98, 0x80] @ [0x41]) = Ok (0x1f600, 4)"
  using decode_encode_scalar [of "0x1f600" Utf8 "[0xf0, 0x9f, 0x98, 0x80]" "[0x41]"]
  by (simp add: is_scalar_value_def encode_scalar_def encode_utf8_def)

text \<open>C33. Decoding is strict: in every supported encoding but ISO-8859-8, a successful decode yields a
  Unicode scalar value (never a surrogate or a value above U+10FFFF) from at least one and at most all of
  the given bytes, and those bytes are the ones encoding writes for it. So overlong forms, unpaired
  surrogates and out-of-range values are all rejected.\<close>

theorem encode_decode_scalar:
  assumes "strict_encoding e" and "decode_scalar e xs = Ok (c, k)"
  shows "is_scalar_value c \<and> encode_scalar e c = Ok (take k xs) \<and> 0 < k \<and> k \<le> length xs"
  using canonical_codec.enc_dec [OF canonical_codec_strict [OF assms(1)] assms(2)]
    scalar_codec.dec_scalar [OF assms(2)] scalar_codec.dec_progress [OF assms(2)] by blast

theorem encode_decode_scalar_witness:
  "strict_encoding Utf16Be \<and> encode_scalar Utf16Be 0x1f600 = Ok [0xd8, 0x3d, 0xde, 0]"
  using encode_decode_scalar [of Utf16Be "[0xd8, 0x3d, 0xde, 0, 7]" "0x1f600" 4]
  by (simp add: strict_encoding_def is_supported_def decode_scalar_def decode_utf16_def
      u16_from_be_bytes_def)

end
