(* ===== verification/Converter.thy ===== *)
theory Converter
  imports IconvCodecs
begin

text \<open>
  The converter of \<open>crabc-core/src/iconv.rs\<close>: \<open>Converter::convert_with\<close> transcodes a
  source slice into a caller's buffer one scalar at a time and reports typed progress. The
  model returns the result together with the output buffer as the call leaves it. The
  lemmas characterise every outcome, success or error, by the scalars the consumed prefix
  denotes (\<open>decodes\<close>) and the bytes they are written as (\<open>emit\<close>).
\<close>

subsection \<open>Policies, progress and errors\<close>

datatype unrepresentable = UnrepError | UnrepByte u8

record conversion =
  conv_consumed :: nat
  conv_produced :: nat
  conv_substitutions :: nat

datatype convert_error =
    Unsupported encoding encoding
  | Incomplete nat nat
  | Invalid nat nat
  | OutputFull nat nat
  | Unrepresentable nat nat u32

fun error_consumed :: "convert_error \<Rightarrow> nat" where
  "error_consumed (Unsupported _ _) = 0"
| "error_consumed (Incomplete consumed _) = consumed"
| "error_consumed (Invalid consumed _) = consumed"
| "error_consumed (OutputFull consumed _) = consumed"
| "error_consumed (Unrepresentable consumed _ _) = consumed"

fun error_produced :: "convert_error \<Rightarrow> nat" where
  "error_produced (Unsupported _ _) = 0"
| "error_produced (Incomplete _ produced) = produced"
| "error_produced (Invalid _ produced) = produced"
| "error_produced (OutputFull _ produced) = produced"
| "error_produced (Unrepresentable _ produced _) = produced"

record converter =
  cv_from :: encoding
  cv_to :: encoding

definition converter_new :: "encoding \<Rightarrow> encoding \<Rightarrow> converter" where
  "converter_new from_enc to_enc = \<lparr>cv_from = from_enc, cv_to = to_enc\<rparr>"

definition converter_reset :: "converter \<Rightarrow> converter" where
  "converter_reset self = self"

subsection \<open>The conversion loop\<close>

type_synonym convert_result = "(conversion, convert_error) outcome \<times> bytes"

function convert_loop ::
  "encoding \<Rightarrow> encoding \<Rightarrow> unrepresentable \<Rightarrow> bytes \<Rightarrow> bytes \<Rightarrow> nat \<Rightarrow> nat \<Rightarrow> nat \<Rightarrow> convert_result"
where
  "convert_loop from_enc to_enc policy input output consumed produced substitutions =
     (if consumed < length input then
        (case decode_scalar from_enc (drop consumed input) of
           Panic \<Rightarrow> (Panic, output)
         | Err DecodeIncomplete \<Rightarrow> (Err (Incomplete consumed produced), output)
         | Err DecodeInvalid \<Rightarrow> (Err (Invalid consumed produced), output)
         | Ok (codepoint, source_len) \<Rightarrow>
             (case encode_scalar to_enc codepoint of
                Panic \<Rightarrow> (Panic, output)
              | Err EncodeUnrepresentable \<Rightarrow>
                  (case policy of
                     UnrepError \<Rightarrow> (Err (Unrepresentable consumed produced codepoint), output)
                   | UnrepByte replacement \<Rightarrow>
                       if length output - produced < 1
                       then (Err (OutputFull consumed produced), output)
                       else convert_loop from_enc to_enc policy input (output[produced := replacement])
                              (consumed + source_len) (produced + 1) (substitutions + 1))
              | Ok encoded \<Rightarrow>
                  if length output - produced < length encoded
                  then (Err (OutputFull consumed produced), output)
                  else (case put_range output produced encoded of
                          Ok output' \<Rightarrow>
                            convert_loop from_enc to_enc policy input output'
                              (consumed + source_len) (produced + length encoded) substitutions
                        | Err (_ :: convert_error) \<Rightarrow> (Panic, output)
                        | Panic \<Rightarrow> (Panic, output))))
      else (Ok \<lparr>conv_consumed = consumed, conv_produced = produced, conv_substitutions = substitutions\<rparr>,
            output))"
  by pat_completeness auto
termination
  by (relation "measure (\<lambda>(f, t, p, input, out, consumed, prod, subs). length input - consumed)")
     (auto dest: scalar_codec.dec_progress)

declare convert_loop.simps [simp del]

definition convert_with :: "converter \<Rightarrow> bytes \<Rightarrow> bytes \<Rightarrow> unrepresentable \<Rightarrow> convert_result" where
  "convert_with self input output policy =
     (if \<not> is_supported (cv_from self) \<or> \<not> is_supported (cv_to self)
      then (Err (Unsupported (cv_from self) (cv_to self)), output)
      else convert_loop (cv_from self) (cv_to self) policy input output 0 0 0)"

definition convert :: "converter \<Rightarrow> bytes \<Rightarrow> bytes \<Rightarrow> convert_result" where
  "convert self input output = convert_with self input output UnrepError"

subsection \<open>The scalars a byte sequence denotes\<close>

inductive decodes :: "(bytes \<Rightarrow> decode_result) \<Rightarrow> bytes \<Rightarrow> u32 list \<Rightarrow> bytes \<Rightarrow> bool"
  for dec where
  decodes_Nil: "decodes dec xs [] xs"
| decodes_Cons: "dec xs = Ok (c, k) \<Longrightarrow> decodes dec (drop k xs) cs ys \<Longrightarrow> decodes dec xs (c # cs) ys"

inductive_simps decodes_Nil_iff [simp]: "decodes dec xs [] ys"
inductive_simps decodes_Cons_iff: "decodes dec xs (c # cs) ys"

lemma decodes_append:
  "decodes dec xs cs ys \<Longrightarrow> decodes dec ys ds zs \<Longrightarrow> decodes dec xs (cs @ ds) zs"
  by (induction rule: decodes.induct) (auto intro: decodes.intros)

context codec
begin

lemma decodes_scalars: "decodes dec xs cs ys \<Longrightarrow> list_all is_scalar_value cs"
  by (induction rule: decodes.induct) (auto intro: dec_scalar)

lemma decodes_encoded:
  "list_all is_scalar_value cs \<Longrightarrow> list_all2 (\<lambda>c bs. enc c = Ok bs) cs bss \<Longrightarrow>
     decodes dec (concat bss @ rest) cs rest"
proof (induction cs arbitrary: bss)
  case (Cons c cs)
  then obtain bs bss' where "bss = bs # bss'" "enc c = Ok bs" "list_all2 (\<lambda>c bs. enc c = Ok bs) cs bss'"
    by (auto simp: list_all2_Cons1)
  with Cons show ?case
    by (auto simp: dec_enc intro!: decodes_Cons [where k = "length bs"])
qed simp

lemma decodes_all_unique:
  "decodes dec xs cs [] \<Longrightarrow> decodes dec xs ds [] \<Longrightarrow> cs = ds"
proof (induction xs cs "[] :: bytes" arbitrary: ds rule: decodes.induct)
  case decodes_Nil
  show ?case
  proof (cases ds)
    case (Cons d ds')
    with decodes_Nil obtain k where "dec [] = Ok (d, k)" by (auto simp: decodes_Cons_iff)
    from dec_progress [OF this] show ?thesis by auto
  qed simp
next
  case (decodes_Cons xs c k cs)
  show ?case
  proof (cases ds)
    case Nil
    with decodes_Cons.prems have "xs = []" by simp
    with dec_progress [OF decodes_Cons.hyps(1)] show ?thesis by auto
  next
    case (Cons d ds')
    with decodes_Cons.prems decodes_Cons.hyps(1) have "d = c" "decodes dec (drop k xs) ds' []"
      by (auto simp: decodes_Cons_iff)
    with decodes_Cons.hyps(3) Cons show ?thesis by simp
  qed
qed

lemma decodes_suffix: "decodes dec xs cs ys \<Longrightarrow> length ys \<le> length xs \<and> ys = drop (length xs - length ys) xs"
proof (induction rule: decodes.induct)
  case (decodes_Cons xs c k cs ys)
  then have "k \<le> length xs" using dec_progress by blast
  with decodes_Cons.IH show ?case by (auto simp: drop_drop)
qed simp

end

context canonical_codec
begin

lemma decodes_encodes:
  "decodes dec xs cs ys \<Longrightarrow> \<exists>bss. list_all2 (\<lambda>c bs. enc c = Ok bs) cs bss \<and> xs = concat bss @ ys"
proof (induction rule: decodes.induct)
  case (decodes_Cons xs c k cs ys)
  then obtain bss where "list_all2 (\<lambda>c bs. enc c = Ok bs) cs bss" "drop k xs = concat bss @ ys" by blast
  moreover have "enc c = Ok (take k xs)" using decodes_Cons(1) by (rule enc_dec)
  ultimately show ?case
    by (intro exI [of _ "take k xs # bss"]) (simp, metis append_take_drop_id)
qed auto

end

subsection \<open>What the loop writes and why it stops\<close>

definition unrepresented :: "encoding \<Rightarrow> u32 \<Rightarrow> bool" where
  "unrepresented to_enc c \<longleftrightarrow> encode_scalar to_enc c = Err EncodeUnrepresentable"

definition emit :: "encoding \<Rightarrow> unrepresentable \<Rightarrow> u32 \<Rightarrow> bytes" where
  "emit to_enc policy c =
     (case encode_scalar to_enc c of
        Ok bs \<Rightarrow> bs
      | _ \<Rightarrow> (case policy of UnrepByte replacement \<Rightarrow> [replacement] | UnrepError \<Rightarrow> []))"

definition admitted :: "encoding \<Rightarrow> unrepresentable \<Rightarrow> u32 \<Rightarrow> bool" where
  "admitted to_enc policy c \<longleftrightarrow> unrepresented to_enc c \<longrightarrow> policy \<noteq> UnrepError"

definition emits :: "encoding \<Rightarrow> unrepresentable \<Rightarrow> u32 list \<Rightarrow> bytes" where
  "emits to_enc policy cs = concat (map (emit to_enc policy) cs)"

fun stops :: "encoding \<Rightarrow> encoding \<Rightarrow> unrepresentable \<Rightarrow> bytes \<Rightarrow> nat \<Rightarrow> nat \<Rightarrow> nat \<Rightarrow> nat
    \<Rightarrow> (conversion, convert_error) outcome \<Rightarrow> bool" where
  "stops f t policy input capacity i p subs (Ok conv) \<longleftrightarrow>
     i = length input \<and> conv = \<lparr>conv_consumed = i, conv_produced = p, conv_substitutions = subs\<rparr>"
| "stops f t policy input capacity i p subs (Err (Incomplete consumed produced)) \<longleftrightarrow>
     consumed = i \<and> produced = p \<and> i < length input \<and> decode_scalar f (drop i input) = Err DecodeIncomplete"
| "stops f t policy input capacity i p subs (Err (Invalid consumed produced)) \<longleftrightarrow>
     consumed = i \<and> produced = p \<and> i < length input \<and> decode_scalar f (drop i input) = Err DecodeInvalid"
| "stops f t policy input capacity i p subs (Err (OutputFull consumed produced)) \<longleftrightarrow>
     consumed = i \<and> produced = p \<and> i < length input \<and>
     (\<exists>c k. decode_scalar f (drop i input) = Ok (c, k) \<and> admitted t policy c \<and>
        capacity < p + length (emit t policy c))"
| "stops f t policy input capacity i p subs (Err (Unrepresentable consumed produced c)) \<longleftrightarrow>
     consumed = i \<and> produced = p \<and> i < length input \<and> policy = UnrepError \<and> unrepresented t c \<and>
     (\<exists>k. decode_scalar f (drop i input) = Ok (c, k))"
| "stops f t policy input capacity i p subs (Err (Unsupported _ _)) \<longleftrightarrow> False"
| "stops f t policy input capacity i p subs Panic \<longleftrightarrow> False"

text \<open>One turn of the loop on a scalar that is written.\<close>

lemma convert_loop_step:
  assumes "decode_scalar f (drop i input) = Ok (c, k)" "i < length input" "admitted t policy c"
    "p + length (emit t policy c) \<le> length out"
  shows "convert_loop f t policy input out i p s =
     convert_loop f t policy input (splice out p (emit t policy c)) (i + k)
       (p + length (emit t policy c)) (s + (if unrepresented t c then 1 else 0))"
proof (cases "encode_scalar t c")
  case (Ok bs)
  with assms(4) have "\<not> length out - p < length bs" by (simp add: emit_def)
  with assms Ok show ?thesis
    by (subst convert_loop.simps) (simp add: emit_def unrepresented_def put_range_Ok)
next
  case (Err e)
  then have e: "encode_scalar t c = Err EncodeUnrepresentable" by (cases e) simp
  with assms obtain r where "policy = UnrepByte r"
    by (cases policy) (auto simp: admitted_def unrepresented_def)
  with assms e show ?thesis
    by (subst convert_loop.simps) (simp add: emit_def unrepresented_def list_update_splice)
next
  case Panic
  then show ?thesis using scalar_codec.enc_no_panic by blast
qed

lemma convert_loop_cases:
  assumes "i \<le> length input" "p \<le> length out"
  obtains (stop) "stops f t policy input (length out) i p s (fst (convert_loop f t policy input out i p s))"
      "snd (convert_loop f t policy input out i p s) = out"
  | (step) c k where "decode_scalar f (drop i input) = Ok (c, k)" "i < length input" "admitted t policy c"
       "p + length (emit t policy c) \<le> length out"
proof (cases "\<exists>c k. decode_scalar f (drop i input) = Ok (c, k) \<and> i < length input \<and> admitted t policy c \<and>
       p + length (emit t policy c) \<le> length out")
  case True
  then show ?thesis using step by blast
next
  case no_step: False
  let ?L = "convert_loop f t policy input out i p s"
  show ?thesis
  proof (cases "i < length input")
    case False
    then have "?L = (Ok \<lparr>conv_consumed = i, conv_produced = p, conv_substitutions = s\<rparr>, out)"
      by (subst convert_loop.simps) simp
    with False assms(1) show ?thesis using stop by simp
  next
    case i: True
    show ?thesis
    proof (cases "decode_scalar f (drop i input)")
      case (Err e)
      with i have "?L = (Err (case e of DecodeIncomplete \<Rightarrow> Incomplete i p | DecodeInvalid \<Rightarrow> Invalid i p), out)"
        by (subst convert_loop.simps) (simp split: decode_error.split)
      with i Err stop show ?thesis by (cases e) simp_all
    next
      case Panic
      then show ?thesis using scalar_codec.dec_no_panic by blast
    next
      case (Ok ck)
      then obtain c k where d: "decode_scalar f (drop i input) = Ok (c, k)" by (cases ck) auto
      show ?thesis
      proof (cases "admitted t policy c")
        case adm: True
        with no_step d i have full: "length out < p + length (emit t policy c)" by auto
        then have "?L = (Err (OutputFull i p), out)"
          using d i adm assms(2) scalar_codec.enc_no_panic [of t c]
          by (subst convert_loop.simps)
             (auto simp: emit_def admitted_def unrepresented_def split: outcome.splits encode_error.splits
               unrepresentable.splits)
        with d i adm full show ?thesis using stop by auto
      next
        case False
        then have u: "policy = UnrepError" "unrepresented t c" by (auto simp: admitted_def)
        with d i have "?L = (Err (Unrepresentable i p c), out)"
          by (subst convert_loop.simps) (simp add: unrepresented_def)
        with d i u show ?thesis using stop by auto
      qed
    qed
  qed
qed

lemma convert_loop_decodes:
  assumes "decodes (decode_scalar f) (drop i input) cs (drop i' input)" "i \<le> i'" "i' \<le> length input"
    "list_all (admitted t policy) cs" "p + length (emits t policy cs) \<le> length out"
  shows "convert_loop f t policy input out i p s =
     convert_loop f t policy input (splice out p (emits t policy cs)) i'
       (p + length (emits t policy cs)) (s + length (filter (unrepresented t) cs))"
  using assms
proof (induction cs arbitrary: i out p s)
  case Nil
  then have "length (drop i input) = length (drop i' input)" by simp
  then have "i = i'" using Nil.prems(2,3) by simp
  with Nil show ?case by (simp add: emits_def splice_def)
next
  case (Cons c cs)
  from Cons.prems(1) obtain k where d: "decode_scalar f (drop i input) = Ok (c, k)"
    and r: "decodes (decode_scalar f) (drop (i + k) input) cs (drop i' input)"
    by (auto simp: decodes_Cons_iff add.commute)
  have k: "0 < k" "k \<le> length (drop i input)" using scalar_codec.dec_progress [OF d] by auto
  have "length (drop i' input) \<le> length (drop (i + k) input)" using scalar_codec.decodes_suffix [OF r] by blast
  then have le: "i + k \<le> i'" using k Cons.prems(3) by auto
  have e: "emits t policy (c # cs) = emit t policy c @ emits t policy cs" by (simp add: emits_def)
  let ?o = "splice out p (emit t policy c)" and ?p = "p + length (emit t policy c)"
  have lo: "length ?o = length out" using Cons.prems(5) by (simp add: e)
  have "convert_loop f t policy input out i p s = convert_loop f t policy input ?o (i + k) ?p
       (s + (if unrepresented t c then 1 else 0))"
    using Cons.prems k by (intro convert_loop_step d) (auto simp: e)
  also have "\<dots> = convert_loop f t policy input (splice ?o ?p (emits t policy cs)) i'
     (?p + length (emits t policy cs)) (s + (if unrepresented t c then 1 else 0) + length (filter (unrepresented t) cs))"
    using Cons.prems by (intro Cons.IH r le) (simp_all add: e lo)
  also have "splice ?o ?p (emits t policy cs) = splice out p (emits t policy (c # cs))"
    using Cons.prems(5) by (simp add: e splice_splice)
  finally show ?case by (simp add: e add.assoc)
qed


lemma convert_loop_stops:
  assumes "i \<le> length input" "p \<le> length out"
  shows "\<exists>cs i'. decodes (decode_scalar f) (drop i input) cs (drop i' input) \<and> i \<le> i' \<and> i' \<le> length input \<and>
     list_all (admitted t policy) cs \<and> p + length (emits t policy cs) \<le> length out \<and>
     snd (convert_loop f t policy input out i p s) = splice out p (emits t policy cs) \<and>
     stops f t policy input (length out) i' (p + length (emits t policy cs))
       (s + length (filter (unrepresented t) cs)) (fst (convert_loop f t policy input out i p s))"
    (is "\<exists>cs i'. ?P cs i' i out p s")
  using assms
proof (induction "length input - i" arbitrary: i out p s rule: less_induct)
  case less
  consider (stop) "stops f t policy input (length out) i p s (fst (convert_loop f t policy input out i p s))"
      "snd (convert_loop f t policy input out i p s) = out"
    | (step) c k where "decode_scalar f (drop i input) = Ok (c, k)" "i < length input" "admitted t policy c"
       "p + length (emit t policy c) \<le> length out"
    by (rule convert_loop_cases [OF less.prems])
  then show ?case
  proof cases
    case stop
    then have "?P [] i i out p s" using less.prems by (simp add: emits_def splice_def)
    then show ?thesis by blast
  next
    case step
    let ?o = "splice out p (emit t policy c)" and ?p = "p + length (emit t policy c)"
      and ?s = "s + (if unrepresented t c then 1 else 0)"
    have k: "0 < k" "i + k \<le> length input" using scalar_codec.dec_progress [OF step(1)] step(2) by auto
    have lo: "length ?o = length out" using step(4) by simp
    have "length input - (i + k) < length input - i" using k step(2) by simp
    then have "\<exists>cs i'. ?P cs i' (i + k) ?o ?p ?s"
      by (rule less.hyps) (use k step(4) lo in simp_all)
    then obtain cs i' where ih: "?P cs i' (i + k) ?o ?p ?s" by blast
    have e: "emits t policy (c # cs) = emit t policy c @ emits t policy cs" by (simp add: emits_def)
    have "splice ?o ?p (emits t policy cs) = splice out p (emits t policy (c # cs))"
      using ih lo by (simp add: e splice_splice)
    moreover have "decodes (decode_scalar f) (drop i input) (c # cs) (drop i' input)"
      using ih step(1) by (auto simp: decodes_Cons_iff add.commute)
    ultimately have "?P (c # cs) i' i out p s"
      using ih step lo k unfolding convert_loop_step [OF step] by (auto simp: e add.assoc)
    then show ?thesis by blast
  qed
qed


lemma emits_encoded:
  "list_all2 (\<lambda>c bs. encode_scalar t c = Ok bs) cs bss \<Longrightarrow>
     emits t policy cs = concat bss \<and> list_all (admitted t policy) cs \<and> filter (unrepresented t) cs = []"
  by (induction rule: list_all2_induct) (auto simp: emits_def emit_def admitted_def unrepresented_def)

lemma admitted_encoded:
  "list_all (admitted t UnrepError) cs \<Longrightarrow> \<exists>bss. list_all2 (\<lambda>c bs. encode_scalar t c = Ok bs) cs bss"
proof (induction cs)
  case (Cons c cs)
  then obtain bss where "list_all2 (\<lambda>c bs. encode_scalar t c = Ok bs) cs bss" by auto
  moreover have "\<exists>bs. encode_scalar t c = Ok bs"
    using Cons.prems scalar_codec.enc_no_panic [of t c] encode_error.exhaust
    by (cases "encode_scalar t c") (auto simp: admitted_def unrepresented_def)
  ultimately show ?case by (auto intro: list.rel_intros)
qed auto

lemma convert_with_stops:
  assumes "is_supported (cv_from cv)" "is_supported (cv_to cv)"
  shows "\<exists>cs n. decodes (decode_scalar (cv_from cv)) input cs (drop n input) \<and> n \<le> length input \<and>
     list_all (admitted (cv_to cv) policy) cs \<and> length (emits (cv_to cv) policy cs) \<le> length out \<and>
     snd (convert_with cv input out policy) =
       emits (cv_to cv) policy cs @ drop (length (emits (cv_to cv) policy cs)) out \<and>
     stops (cv_from cv) (cv_to cv) policy input (length out) n (length (emits (cv_to cv) policy cs))
       (length (filter (unrepresented (cv_to cv)) cs)) (fst (convert_with cv input out policy))"
  using convert_loop_stops [of 0 input 0 out "cv_from cv" "cv_to cv" policy 0] assms
  by (auto simp: convert_with_def splice_0)

lemma convert_loop_end:
  "convert_loop f t policy input out (length input) p s =
     (Ok \<lparr>conv_consumed = length input, conv_produced = p, conv_substitutions = s\<rparr>, out)"
  by (subst convert_loop.simps) simp

lemma convert_with_decodes:
  assumes "is_supported (cv_from cv)" "is_supported (cv_to cv)"
    and "decodes (decode_scalar (cv_from cv)) input cs []"
    and "list_all (admitted (cv_to cv) policy) cs" "length (emits (cv_to cv) policy cs) \<le> length out"
  shows "convert_with cv input out policy =
    (Ok \<lparr>conv_consumed = length input, conv_produced = length (emits (cv_to cv) policy cs),
         conv_substitutions = length (filter (unrepresented (cv_to cv)) cs)\<rparr>,
     emits (cv_to cv) policy cs @ drop (length (emits (cv_to cv) policy cs)) out)"
proof -
  let ?bs = "emits (cv_to cv) policy cs"
  have "convert_with cv input out policy = convert_loop (cv_from cv) (cv_to cv) policy input out 0 0 0"
    using assms(1,2) by (simp add: convert_with_def)
  also have "\<dots> = convert_loop (cv_from cv) (cv_to cv) policy input (splice out 0 ?bs) (length input)
     (0 + length ?bs) (0 + length (filter (unrepresented (cv_to cv)) cs))"
    using assms(3-5) by (intro convert_loop_decodes) simp_all
  finally show ?thesis by (simp add: convert_loop_end splice_0)
qed

lemma convert_with_supported:
  "fst (convert_with cv input out policy) \<noteq> Err (Unsupported (cv_from cv) (cv_to cv)) \<Longrightarrow>
     is_supported (cv_from cv) \<and> is_supported (cv_to cv)"
  by (auto simp: convert_with_def split: if_splits)

lemma decode_scalar_extend:
  assumes "decode_scalar e xs = Ok (c, k)"
  shows "decode_scalar e (xs @ ys) = Ok (c, k)"
proof (cases "from_encoding e")
  case (Some t)
  with assms show ?thesis by (auto simp: decode_scalar_iso split: list.splits)
next
  case None
  have "is_supported e" using assms scalar_unsupported [of e xs c] by auto
  then have "canonical_codec (decode_scalar e) (encode_scalar e)"
    using None by (intro canonical_codec_strict) (auto simp: strict_encoding_def)
  then have enc: "encode_scalar e c = Ok (take k xs)" using assms by (rule canonical_codec.enc_dec)
  have k: "k \<le> length xs" and sc: "is_scalar_value c"
    using assms scalar_codec.dec_progress scalar_codec.dec_scalar by blast+
  from scalar_codec.dec_enc [OF sc enc, of "drop k xs @ ys"] k show ?thesis
    by (simp add: append_assoc [symmetric] del: append_assoc)
qed

lemma decodes_extend:
  "decodes (decode_scalar e) xs cs zs \<Longrightarrow> decodes (decode_scalar e) (xs @ ys) cs (zs @ ys)"
proof (induction rule: decodes.induct)
  case (decodes_Cons xs c k cs zs)
  have "k \<le> length xs" using decodes_Cons(1) scalar_codec.dec_progress by blast
  with decodes_Cons show ?case
    by (intro decodes.decodes_Cons [where k = k]) (auto intro: decode_scalar_extend)
qed simp


subsection \<open>Sample conversions\<close>

lemma convert_samples:
  "convert_with (converter_new Utf8 Utf16Le) [0x41, 0xc3] [1, 2, 3, 4] UnrepError =
     (Err (Incomplete 1 2), [0x41, 0, 3, 4])"
  "convert_with (converter_new Utf8 Utf16Le) [0xc3, 0xa9] [1, 2, 3] UnrepError =
     (Ok \<lparr>conv_consumed = 2, conv_produced = 2, conv_substitutions = 0\<rparr>, [0xe9, 0, 3])"
  "convert (converter_new Utf16Le Utf8) [0xe9, 0] [1, 2, 3] =
     (Ok \<lparr>conv_consumed = 2, conv_produced = 2, conv_substitutions = 0\<rparr>, [0xc3, 0xa9, 3])"
  by code_simp+

subsection \<open>Properties\<close>

text \<open>C9. Between supported encodings a conversion never panics and its outcome is exactly
  determined by the source. There are scalars \<open>cs\<close> that the first \<open>n\<close> source bytes denote,
  each admitted by the policy; the output buffer holds their encodings (or replacement bytes)
  followed by its old contents, unchanged; and the result names the cause of the stop: \<open>Ok\<close> when the
  whole source is consumed, with the number of replaced scalars, and each error when the next
  source bytes are incomplete, malformed, unrepresentable or do not fit, with \<open>n\<close> and the number of
  bytes written as its progress.\<close>

theorem convert_with_outcome:
  assumes "is_supported (cv_from cv)" and "is_supported (cv_to cv)"
  shows "\<exists>cs n. decodes (decode_scalar (cv_from cv)) input cs (drop n input) \<and> n \<le> length input \<and>
     list_all (admitted (cv_to cv) policy) cs \<and> length (emits (cv_to cv) policy cs) \<le> length out \<and>
     snd (convert_with cv input out policy) =
       emits (cv_to cv) policy cs @ drop (length (emits (cv_to cv) policy cs)) out \<and>
     stops (cv_from cv) (cv_to cv) policy input (length out) n (length (emits (cv_to cv) policy cs))
       (length (filter (unrepresented (cv_to cv)) cs)) (fst (convert_with cv input out policy))"
  using convert_with_stops [OF assms] .

theorem convert_with_outcome_witness:
  "is_supported Utf8 \<and> is_supported Utf16Le \<and>
   (\<exists>cs. decodes (decode_scalar Utf8) [0x41, 0xc3] cs [0xc3] \<and> emits Utf16Le UnrepError cs = [0x41, 0] \<and>
      decode_scalar Utf8 [0xc3] = Err DecodeIncomplete)"
proof -
  let ?cv = "converter_new Utf8 Utf16Le"
  have sup: "is_supported (cv_from ?cv)" "is_supported (cv_to ?cv)"
    by (simp_all add: converter_new_def is_supported_def)
  have len: "length bs = 2 \<Longrightarrow> [0x41, 0, 3, 4] = bs @ drop 2 [1, 2, 3, 4] \<Longrightarrow> bs = [0x41, 0]" for bs :: bytes
    by (auto simp: append_eq_conv_conj)
  from convert_with_outcome [OF sup, of "[0x41, 0xc3]" UnrepError "[1, 2, 3, 4]"] obtain cs n where
    "decodes (decode_scalar Utf8) [0x41, 0xc3] cs (drop n [0x41, 0xc3])" "n = 1"
    "length (emits Utf16Le UnrepError cs) = 2" "decode_scalar Utf8 (drop n [0x41, 0xc3]) = Err DecodeIncomplete"
    "[0x41, 0, 3, 4] = emits Utf16Le UnrepError cs @ drop (length (emits Utf16Le UnrepError cs)) [1, 2, 3, 4]"
    unfolding convert_samples by (auto simp: converter_new_def)
  with len show ?thesis by (auto simp: is_supported_def)
qed

text \<open>C10. Resuming is seamless. If a call on a first chunk stops because the output is full or
  because the chunk ends inside a scalar, and a second call on the unconsumed bytes followed by the
  rest of the source succeeds, then one call on the whole source with a large enough buffer succeeds
  and writes the same bytes.\<close>

theorem convert_with_resume:
  assumes "convert_with cv a out1 policy = (Err e, out1')" and "e = OutputFull i p \<or> e = Incomplete i p"
    and "convert_with cv (drop i a @ b) out2 policy = (Ok conv, out2')"
    and "p + conv_produced conv \<le> length out"
  shows "\<exists>subs. convert_with cv (a @ b) out policy =
     (Ok \<lparr>conv_consumed = length (a @ b), conv_produced = p + conv_produced conv, conv_substitutions = subs\<rparr>,
      take p out1' @ take (conv_produced conv) out2' @ drop (p + conv_produced conv) out)"
proof -
  let ?f = "cv_from cv" and ?t = "cv_to cv"
  have sup: "is_supported ?f" "is_supported ?t"
    using convert_with_supported [of cv a out1 policy] assms(1,2) by auto
  from convert_with_stops [OF sup, of a policy out1] assms(1,2) obtain cs where
    1: "decodes (decode_scalar ?f) a cs (drop i a)" "list_all (admitted ?t policy) cs"
       "p = length (emits ?t policy cs)" "take p out1' = emits ?t policy cs"
    by auto
  from convert_with_stops [OF sup, of "drop i a @ b" policy out2] assms(3) obtain ds where
    2: "decodes (decode_scalar ?f) (drop i a @ b) ds []" "list_all (admitted ?t policy) ds"
       "conv_produced conv = length (emits ?t policy ds)" "take (conv_produced conv) out2' = emits ?t policy ds"
    by auto
  have "decodes (decode_scalar ?f) (a @ b) (cs @ ds) []"
    using decodes_append [OF decodes_extend [OF 1(1)] 2(1)] .
  moreover have e: "emits ?t policy (cs @ ds) = emits ?t policy cs @ emits ?t policy ds" by (simp add: emits_def)
  ultimately have "convert_with cv (a @ b) out policy =
      (Ok \<lparr>conv_consumed = length (a @ b), conv_produced = length (emits ?t policy (cs @ ds)),
         conv_substitutions = length (filter (unrepresented ?t) (cs @ ds))\<rparr>,
     emits ?t policy (cs @ ds) @ drop (length (emits ?t policy (cs @ ds))) out)"
    using sup 1(2,3) 2(2,3) assms(4) by (intro convert_with_decodes) (simp_all add: e)
  then show ?thesis using 1(3,4) 2(3,4) by (simp add: e)
qed

theorem convert_with_resume_witness:
  "\<exists>subs. convert_with (converter_new Utf8 Utf16Le) [0x41, 0xc3, 0xa9] [9, 9, 9, 9, 9] UnrepError =
     (Ok \<lparr>conv_consumed = 3, conv_produced = 4, conv_substitutions = subs\<rparr>, [0x41, 0, 0xe9, 0, 9])"
  using convert_with_resume [of "converter_new Utf8 Utf16Le" "[0x41, 0xc3]" "[1, 2, 3, 4]" UnrepError
      "Incomplete 1 2" "[0x41, 0, 3, 4]" 1 2 "[0xa9]" "[1, 2, 3]"
      "\<lparr>conv_consumed = 2, conv_produced = 2, conv_substitutions = 0\<rparr>" "[0xe9, 0, 3]" "[9, 9, 9, 9, 9]"]
  by (simp add: convert_samples flip: numeral_3_eq_3)

text \<open>C11. Converting there and back gives the source bytes: for every supported encoding but
  ISO-8859-8 as the source and any supported target, a successful strict conversion followed by the
  opposite one reproduces the source exactly, whatever the buffers held.\<close>

theorem convert_roundtrip:
  assumes "strict_encoding e1" "is_supported e2"
    and "convert (converter_new e1 e2) input out = (Ok conv, out')"
    and "length input \<le> length buf"
  shows "convert (converter_new e2 e1) (take (conv_produced conv) out') buf =
     (Ok \<lparr>conv_consumed = conv_produced conv, conv_produced = length input, conv_substitutions = 0\<rparr>,
      input @ drop (length input) buf)"
proof -
  have sup: "is_supported e1" using assms(1) by (simp add: strict_encoding_def)
  have stop: "\<exists>cs. decodes (decode_scalar e1) input cs [] \<and> list_all (admitted e2 UnrepError) cs \<and>
      conv_produced conv = length (emits e2 UnrepError cs) \<and> take (conv_produced conv) out' = emits e2 UnrepError cs"
    using convert_with_stops [of "converter_new e1 e2" input UnrepError out] sup assms(2,3)
    by (auto simp: converter_new_def convert_def)
  then obtain cs where cs: "decodes (decode_scalar e1) input cs []" "list_all (admitted e2 UnrepError) cs"
    "conv_produced conv = length (emits e2 UnrepError cs)" "take (conv_produced conv) out' = emits e2 UnrepError cs"
    by blast
  obtain bss where b: "list_all2 (\<lambda>c bs. encode_scalar e2 c = Ok bs) cs bss" using admitted_encoded [OF cs(2)] by blast
  obtain ass where a: "list_all2 (\<lambda>c bs. encode_scalar e1 c = Ok bs) cs ass" "input = concat ass"
    using canonical_codec.decodes_encodes [OF canonical_codec_strict [OF assms(1)] cs(1)] by auto
  have "decodes (decode_scalar e2) (concat bss @ []) cs []"
    using scalar_codec.decodes_scalars [OF cs(1)] b by (rule scalar_codec.decodes_encoded)
  then have "decodes (decode_scalar e2) (emits e2 UnrepError cs) cs []"
    using emits_encoded [OF b, of UnrepError] by simp
  with emits_encoded [OF a(1), of UnrepError] show ?thesis
    using convert_with_decodes [of "converter_new e2 e1" "emits e2 UnrepError cs" cs UnrepError buf] sup assms(2,4) a(2) cs(3,4)
    by (simp add: converter_new_def convert_def)
qed


theorem convert_roundtrip_witness:
  "convert (converter_new Utf8 Utf16Le) [0xc3, 0xa9] [7, 8] =
     (Ok \<lparr>conv_consumed = 2, conv_produced = 2, conv_substitutions = 0\<rparr>, [0xe9, 0])"
  using convert_roundtrip [of Utf16Le Utf8 "[0xe9, 0]" "[1, 2, 3]"
     "\<lparr>conv_consumed = 2, conv_produced = 2, conv_substitutions = 0\<rparr>" "[0xc3, 0xa9, 3]" "[7, 8]"]
  by (simp add: convert_samples strict_encoding_def is_supported_def)

end
