(* ===== verification/EncodingNames.thy ===== *)
theory EncodingNames
  imports Iconv
begin

text \<open>
  \<open>Encoding::from_name\<close> of \<open>crabc-core/src/iconv.rs\<close>: the two-index loop
  \<open>normalized_equals\<close> compares names up to punctuation and ASCII case, and the alias
  list assigns no name to two encodings, so the order of its arms is irrelevant.
\<close>

subsection \<open>Encoding names\<close>

text \<open>What \<open>normalized_equals\<close> compares: the letters and digits of a name, in lower case.\<close>

definition name_key :: "bytes \<Rightarrow> bytes" where
  "name_key name = map ascii_lower (filter is_ascii_alphanumeric name)"

lemma name_key_dropWhile: "name_key (dropWhile (\<lambda>b. \<not> is_ascii_alphanumeric b) xs) = name_key xs"
  by (induction xs) (auto simp: name_key_def)

lemma normalized_equals_from_iff:
  "i \<le> length name \<Longrightarrow> j \<le> length target \<Longrightarrow>
     normalized_equals_from name target i j \<longleftrightarrow> name_key (drop i name) = name_key (drop j target)"
proof (induction name target i j rule: normalized_equals_from.induct)
  case (1 name target i j)
  let ?p = "\<lambda>b. \<not> is_ascii_alphanumeric b"
  define ni ti where "ni = scan_while ?p name i" and "ti = scan_while ?p target j"
  have le: "ni \<le> length name" "ti \<le> length target"
    using "1.prems" by (simp_all add: ni_def ti_def scan_while_le)
  have key: "name_key (drop i name) = name_key (drop ni name)" "name_key (drop j target) = name_key (drop ti target)"
    unfolding ni_def ti_def scan_while_slice(2) [OF "1.prems"(1)] scan_while_slice(2) [OF "1.prems"(2)]
    by (simp_all only: name_key_dropWhile)
  have alnum: "ni < length name \<Longrightarrow> is_ascii_alphanumeric (name ! ni)"
    "ti < length target \<Longrightarrow> is_ascii_alphanumeric (target ! ti)"
    using scan_while_stop [of ?p name i] scan_while_stop [of ?p target j] by (auto simp: ni_def ti_def)
  have cons: "ni < length name \<Longrightarrow>
      name_key (drop ni name) = ascii_lower (name ! ni) # name_key (drop (ni + 1) name)"
    "ti < length target \<Longrightarrow>
      name_key (drop ti target) = ascii_lower (target ! ti) # name_key (drop (ti + 1) target)"
    using alnum by (simp_all add: Cons_nth_drop_Suc [symmetric] name_key_def)
  have unfold: "normalized_equals_from name target i j =
     (if \<not> ni < length name \<and> \<not> ti < length target then True
      else if ni < length name \<and> ti < length target \<and> ascii_lower (name ! ni) = ascii_lower (target ! ti)
      then normalized_equals_from name target (ni + 1) (ti + 1) else False)"
    by (subst normalized_equals_from.simps) (simp add: Let_def ni_def ti_def)
  have ih: "ni < length name \<Longrightarrow> ti < length target \<Longrightarrow> ascii_lower (name ! ni) = ascii_lower (target ! ti) \<Longrightarrow>
     normalized_equals_from name target (ni + 1) (ti + 1) \<longleftrightarrow>
       name_key (drop (ni + 1) name) = name_key (drop (ti + 1) target)"
    using "1.IH" [OF ni_def ti_def] by auto
  have nil: "\<not> ni < length name \<Longrightarrow> name_key (drop ni name) = []" "\<not> ti < length target \<Longrightarrow> name_key (drop ti target) = []"
    by (simp_all add: name_key_def)
  show ?case
    unfolding unfold key using ih cons nil
    by (cases "ni < length name"; cases "ti < length target") simp_all
qed

lemma normalized_equals_iff: "normalized_equals name target \<longleftrightarrow> name_key name = name_key target"
  by (simp add: normalized_equals_def normalized_equals_from_iff)

definition alias_keys :: "(bytes \<times> encoding) list" where
  "alias_keys = concat (map (\<lambda>(e, names). map (\<lambda>n. (name_key (literal_bytes n), e)) names) encoding_aliases)"

lemma from_name_map_of: "from_name name = map_of alias_keys (name_key name)"
proof -
  have "map_option fst (find (\<lambda>(e, names). \<exists>alias \<in> set names. normalized_equals name (literal_bytes alias)) xs) =
     map_of (concat (map (\<lambda>(e, names). map (\<lambda>n. (name_key (literal_bytes n), e)) names) xs)) (name_key name)"
    for xs :: "(encoding \<times> string list) list"
  proof (induction xs)
    case (Cons x xs)
    obtain e names where x: "x = (e, names)" by (cases x)
    have "map_of (map (\<lambda>n. (name_key (literal_bytes n), e)) names) k =
        (if \<exists>n \<in> set names. k = name_key (literal_bytes n) then Some e else None)" for k
      by (induction names) auto
    then show ?case using Cons.IH by (auto simp: x map_add_def normalized_equals_iff split: option.splits)
  qed simp
  then show ?thesis by (simp add: from_name_def alias_keys_def)
qed

lemma alias_keys_consistent:
  "list_all (\<lambda>(k, e). map_of alias_keys k = Some e) alias_keys"
  by code_simp
lemma alias_keys_set:
  "(k, e) \<in> set alias_keys \<longleftrightarrow>
     (\<exists>names alias. (e, names) \<in> set encoding_aliases \<and> alias \<in> set names \<and> k = name_key (literal_bytes alias))"
  by (auto simp: alias_keys_def)


end
