(* ===== verification/Dns.thy ===== *)
theory Dns
  imports Prelude
begin

text \<open>
  The DNS wire layer of \<open>crabc-core/src/resolver.rs\<close>: writing a name and a query, skipping
  and expanding (possibly compressed) names, validating a response and reading its answer
  records. Every slice access that could panic in the source is a checked access here, and
  every function that writes to a caller's buffer returns the buffer as the call leaves it.
\<close>

datatype errno =
    EINVAL | EBADMSG | ENAMETOOLONG | EMSGSIZE | ETIMEDOUT | EPIPE | EOVERFLOW | EINTR | EAGAIN
  | ECANCELED | ECONNRESET | EINPROGRESS | EALREADY | EIO | OtherErrno nat

type_synonym 'a result = "('a, errno) outcome"

definition CLASS_IN :: u16 where "CLASS_IN = 1"
definition TYPE_A :: u16 where "TYPE_A = 1"
definition TYPE_CNAME :: u16 where "TYPE_CNAME = 5"
definition TYPE_PTR :: u16 where "TYPE_PTR = 12"
definition TYPE_AAAA :: u16 where "TYPE_AAAA = 28"
definition MAX_NAME_WIRE :: nat where "MAX_NAME_WIRE = 256"

definition invalid :: errno where "invalid = EINVAL"
definition malformed :: errno where "malformed = EBADMSG"

text \<open>A big-endian 16-bit field at an index of a packet.\<close>

definition u16_at :: "bytes \<Rightarrow> nat \<Rightarrow> u16 result" where
  "u16_at packet i =
     and_then (get_byte packet i) (\<lambda>a. and_then (get_byte packet (i + 1)) (\<lambda>b. Ok (u16_from_be_bytes a b)))"

subsection \<open>Writing names and queries\<close>

text \<open>The end of the loop: the root terminator.\<close>

definition wire_name_end :: "nat \<Rightarrow> bytes \<Rightarrow> nat result \<times> bytes" where
  "wire_name_end written output =
     (if length output \<le> written then (Err ENAMETOOLONG, output)
      else (Ok (written + 1), output[written := 0]))"

text \<open>One label \<open>name[label_start..index]\<close>: the length byte and the bytes, or the errors.\<close>

definition wire_label :: "bytes \<Rightarrow> nat \<Rightarrow> nat \<Rightarrow> nat \<Rightarrow> bytes \<Rightarrow> nat result \<times> bytes" where
  "wire_label name label_start index written output =
     (let at_end = (index = length name); label_length = index - label_start in
      if label_length = 0 then
        if \<not> (at_end \<and> index \<noteq> 0 \<and> name ! (index - 1) = 46) then (Err invalid, output)
        else (Ok written, output)
      else if 63 < label_length \<or> checked_add written (label_length + 2) = None then (Err invalid, output)
      else if length output \<le> written + label_length + 1 then (Err ENAMETOOLONG, output)
      else (case put_range output written (word_of_nat label_length # take label_length (drop label_start name)) of
              Ok output' \<Rightarrow> (Ok (written + label_length + 1), output')
            | Err e \<Rightarrow> (Err e, output)
            | Panic \<Rightarrow> (Panic, output)))"

function write_wire_name_from :: "bytes \<Rightarrow> nat \<Rightarrow> nat \<Rightarrow> nat \<Rightarrow> bytes \<Rightarrow> nat result \<times> bytes" where
  "write_wire_name_from name label_start index written output =
     (if index \<le> length name then
        if index \<noteq> length name \<and> name ! index \<noteq> 46
        then write_wire_name_from name label_start (index + 1) written output
        else (case wire_label name label_start index written output of
                (Ok written', output') \<Rightarrow>
                  if index = length name then wire_name_end written' output'
                  else write_wire_name_from name (index + 1) (index + 1) written' output'
              | (Err e, output') \<Rightarrow> (Err e, output')
              | (Panic, output') \<Rightarrow> (Panic, output'))
      else wire_name_end written output)"
  by pat_completeness auto
termination
  by (relation "measure (\<lambda>(name, label_start, index, written, output). length name + 1 - index)") auto

declare write_wire_name_from.simps [simp del]

definition write_wire_name :: "bytes \<Rightarrow> bytes \<Rightarrow> nat result \<times> bytes" where
  "write_wire_name name output =
     (if name = [] \<or> output = [] then (Err invalid, output)
      else write_wire_name_from name 0 0 0 output)"

definition encode_query :: "bytes \<Rightarrow> u16 \<Rightarrow> u16 \<Rightarrow> bytes \<Rightarrow> nat result \<times> bytes" where
  "encode_query name record_type query_id output =
     (if length output < 12 then (Err EMSGSIZE, output)
      else (case write_wire_name name (replicate MAX_NAME_WIRE 0) of
              (Err e, _) \<Rightarrow> (Err e, output)
            | (Panic, _) \<Rightarrow> (Panic, output)
            | (Ok name_length, wire_name) \<Rightarrow>
                (case Option.bind (checked_add 12 name_length) (\<lambda>v. checked_add v 4) of
                   None \<Rightarrow> (Err EMSGSIZE, output)
                 | Some whole \<Rightarrow>
                     if length output < whole then (Err EMSGSIZE, output)
                     else
                       let qtype = 12 + name_length in
                       (case
                          and_then (put_range output 0 (replicate whole 0)) (\<lambda>out.
                          and_then (put_range out 0 [ucast (drop_bit 8 query_id)]) (\<lambda>out.
                          and_then (put_range out 1 [ucast query_id]) (\<lambda>out.
                          and_then (put_range out 2 [0x01]) (\<lambda>out.
                          and_then (put_range out 5 [0x01]) (\<lambda>out.
                          and_then (get_range wire_name 0 name_length) (\<lambda>wire.
                          and_then (put_range out 12 wire) (\<lambda>out.
                          and_then (put_range out qtype [ucast (drop_bit 8 record_type)]) (\<lambda>out.
                          and_then (put_range out (qtype + 1) [ucast record_type]) (\<lambda>out.
                          and_then (put_range out (qtype + 2) [0]) (\<lambda>out.
                          put_range out (qtype + 3) [ucast CLASS_IN])))))))))) of
                          Ok out \<Rightarrow> (Ok whole, out)
                        | Err (e :: errno) \<Rightarrow> (Err e, output)
                        | Panic \<Rightarrow> (Panic, output)))))"

subsection \<open>Skipping and expanding names\<close>

definition compression_target :: "bytes \<Rightarrow> nat \<Rightarrow> nat result" where
  "compression_target packet offset =
     and_then (ok_or (checked_add offset 1) malformed) (\<lambda>nxt.
       if length packet \<le> nxt then Err malformed
       else and_then (get_byte packet offset) (\<lambda>hi. and_then (get_byte packet nxt) (\<lambda>lo.
         let target = push_bit 8 (unat hi AND 0x3f) OR unat lo in
         if target < 12 \<or> offset \<le> target then Err malformed else Ok target)))"

text \<open>The loop of \<open>skip_name\<close> with its \<open>encoded_end\<close> and \<open>steps\<close>; the step limit bounds it.\<close>

function skip_name_loop :: "bytes \<Rightarrow> nat \<Rightarrow> nat option \<Rightarrow> nat \<Rightarrow> nat result" where
  "skip_name_loop packet offset encoded_end steps =
     (if length packet \<le> offset then Err malformed
      else
        let len = packet ! offset in
        if len AND 0xc0 = 0xc0 then
          and_then (compression_target packet offset) (\<lambda>target.
          and_then (case encoded_end of
                      None \<Rightarrow> and_then (ok_or (checked_add offset 2) malformed) (\<lambda>e. Ok (Some e))
                    | Some e \<Rightarrow> Ok (Some e)) (\<lambda>encoded_end'.
            if 128 < steps + 1 then Err malformed
            else skip_name_loop packet target encoded_end' (steps + 1)))
        else if 63 < len then Err malformed
        else and_then (ok_or (checked_add offset 1) malformed) (\<lambda>after.
          if len = 0 then Ok (case encoded_end of Some e \<Rightarrow> e | None \<Rightarrow> after)
          else if length packet < after + unat len then Err malformed
          else if 128 < steps + 1 then Err malformed
          else skip_name_loop packet (after + unat len) encoded_end (steps + 1)))"
  by pat_completeness auto
termination
  by (relation "measure (\<lambda>(packet, offset, encoded_end, steps). 129 - steps)") auto

declare skip_name_loop.simps [simp del]

definition skip_name :: "bytes \<Rightarrow> nat \<Rightarrow> nat result" where
  "skip_name packet offset = skip_name_loop packet offset None 0"


text \<open>The loop of \<open>expand_name\<close>. The source also counts \<open>consumed\<close> bytes and discards the
  count; it is not carried here. A turn without a jump moves forward and a jump is counted, so the
  loop ends.\<close>

function expand_name_loop :: "bytes \<Rightarrow> nat \<Rightarrow> nat \<Rightarrow> nat \<Rightarrow> bytes \<Rightarrow> nat result \<times> bytes" where
  "expand_name_loop packet offset written jumps output =
     (if length packet \<le> offset then (Err malformed, output)
      else
        let len = packet ! offset in
        if len AND 0xc0 = 0xc0 then
          (case compression_target packet offset of
             Ok target \<Rightarrow>
               if 128 < jumps + 1 then (Err malformed, output)
               else expand_name_loop packet target written (jumps + 1) output
           | Err e \<Rightarrow> (Err e, output)
           | Panic \<Rightarrow> (Panic, output))
        else if 63 < len then (Err malformed, output)
        else if len = 0 then
          if written = 0 then
            if output = [] then (Err EMSGSIZE, output) else (Ok 1, output[0 := 46])
          else (Ok written, output)
        else
          let after = offset + 1; label_length = unat len in
          if length packet < after + label_length then (Err malformed, output)
          else if written \<noteq> 0 \<and> length output \<le> written + 1 then (Err EMSGSIZE, output)
          else
            let output = (if written \<noteq> 0 then output[written := 46] else output);
                written = (if written \<noteq> 0 then written + 1 else written)
            in if length output \<le> written + label_length then (Err EMSGSIZE, output)
               else (case and_then (get_range packet after (after + label_length)) (put_range output written) of
                       Ok output' \<Rightarrow>
                         expand_name_loop packet (after + label_length) (written + label_length) jumps output'
                     | Err e \<Rightarrow> (Err e, output)
                     | Panic \<Rightarrow> (Panic, output)))"
  by pat_completeness auto
termination
  by (relation "measures [\<lambda>(packet, offset, written, jumps, output). 129 - jumps,
        \<lambda>(packet, offset, written, jumps, output). length packet - offset]") auto

declare expand_name_loop.simps [simp del]

definition expand_name :: "bytes \<Rightarrow> nat \<Rightarrow> bytes \<Rightarrow> nat result \<times> bytes" where
  "expand_name packet start output = expand_name_loop packet start 0 0 output"

subsection \<open>Responses\<close>

record dns_response =
  dr_packet :: bytes
  dr_answer_offset :: nat
  dr_answer_count :: u16
  dr_response_code :: u8
  dr_truncated :: bool

definition parse :: "bytes \<Rightarrow> bytes \<Rightarrow> u16 \<Rightarrow> u16 \<Rightarrow> dns_response result" where
  "parse packet query_name record_type query_id =
     (if length packet < 12 then Err malformed
      else and_then (u16_at packet 0) (\<lambda>ident.
        if ident \<noteq> query_id \<or> packet ! 2 AND 0x80 = 0 \<or> packet ! 2 AND 0x78 \<noteq> 0 then Err malformed
        else and_then (u16_at packet 4) (\<lambda>qdcount.
          if qdcount \<noteq> 1 then Err malformed
          else (case write_wire_name query_name (replicate MAX_NAME_WIRE 0) of
            (Err e, _) \<Rightarrow> Err e
          | (Panic, _) \<Rightarrow> Panic
          | (Ok expected_length, expected_name) \<Rightarrow>
              and_then (skip_name packet 12) (\<lambda>question_end.
                if length packet < question_end + 4 \<or> question_end - 12 \<noteq> expected_length then Err malformed
                else
                  and_then (get_range packet 12 question_end) (\<lambda>echoed.
                  and_then (get_range expected_name 0 expected_length) (\<lambda>expected.
                  if echoed \<noteq> expected then Err malformed
                  else
                    and_then (u16_at packet question_end) (\<lambda>qtype.
                    if qtype \<noteq> record_type then Err malformed
                    else
                      and_then (u16_at packet (question_end + 2)) (\<lambda>qclass.
                      if qclass \<noteq> CLASS_IN then Err malformed
                      else and_then (u16_at packet 6) (\<lambda>ancount.
                        Ok \<lparr>dr_packet = packet, dr_answer_offset = question_end + 4, dr_answer_count = ancount,
                            dr_response_code = packet ! 3 AND 0x0f,
                            dr_truncated = (packet ! 2 AND 0x02 \<noteq> 0)\<rparr>))))))))))"

text \<open>One resource record at \<open>offset\<close>: its type, class, data offset and data length.\<close>

definition record_at :: "bytes \<Rightarrow> nat \<Rightarrow> (u16 \<times> u16 \<times> nat \<times> nat) result" where
  "record_at packet offset =
     and_then (skip_name packet offset) (\<lambda>name_end.
       if length packet < name_end + 10 then Err malformed
       else and_then (u16_at packet name_end) (\<lambda>kind.
         and_then (u16_at packet (name_end + 2)) (\<lambda>cls.
         and_then (u16_at packet (name_end + 8)) (\<lambda>len.
           let data = name_end + 10 in
           case checked_add data (unat len) of
             Some e \<Rightarrow> if e \<le> length packet then Ok (kind, cls, data, unat len) else Err malformed
           | None \<Rightarrow> Err malformed))))"

fun rdata_loop :: "nat \<Rightarrow> bytes \<Rightarrow> nat \<Rightarrow> u16 \<Rightarrow> nat \<Rightarrow> nat \<Rightarrow> bytes \<Rightarrow> nat option result \<times> bytes" where
  "rdata_loop 0 packet offset record_type ordinal found output = (Ok None, output)"
| "rdata_loop (Suc remaining) packet offset record_type ordinal found output =
     (case record_at packet offset of
        Err e \<Rightarrow> (Err e, output)
      | Panic \<Rightarrow> (Panic, output)
      | Ok (kind, cls, data, len) \<Rightarrow>
          if kind = record_type \<and> cls = CLASS_IN \<and> found = ordinal then
            if record_type = TYPE_CNAME \<or> record_type = TYPE_PTR then
              (case expand_name packet data output of
                 (Ok n, output') \<Rightarrow> (Ok (Some n), output')
               | (Err e, output') \<Rightarrow> (Err e, output')
               | (Panic, output') \<Rightarrow> (Panic, output'))
            else if length output < len then (Err EMSGSIZE, output)
            else (case and_then (get_range packet data (data + len)) (put_range output 0) of
                    Ok output' \<Rightarrow> (Ok (Some len), output')
                  | Err e \<Rightarrow> (Err e, output)
                  | Panic \<Rightarrow> (Panic, output))
          else rdata_loop remaining packet (data + len) record_type ordinal
                 (if kind = record_type \<and> cls = CLASS_IN then found + 1 else found) output)"

definition rdata_at :: "dns_response \<Rightarrow> u16 \<Rightarrow> nat \<Rightarrow> bytes \<Rightarrow> nat option result \<times> bytes" where
  "rdata_at self record_type ordinal output =
     rdata_loop (unat (dr_answer_count self)) (dr_packet self) (dr_answer_offset self)
       record_type ordinal 0 output"

subsection \<open>Correlating a reply with its query\<close>

definition one_question_end :: "bytes \<Rightarrow> nat result" where
  "one_question_end packet =
     (if length packet < 12 then Err malformed
      else and_then (u16_at packet 4) (\<lambda>qdcount.
        if qdcount \<noteq> 1 then Err malformed
        else and_then (skip_name packet 12) (\<lambda>name_end.
          and_then (ok_or (checked_add name_end 4) malformed) (\<lambda>question_end.
            if length packet < question_end then Err malformed else Ok question_end))))"

definition matching_question_end :: "bytes \<Rightarrow> bytes \<Rightarrow> u16 \<Rightarrow> (nat option, errno) outcome" where
  "matching_question_end packet query query_id =
     (if length packet < 12 then Ok None
      else and_then (u16_at packet 0) (\<lambda>ident.
        if ident \<noteq> query_id \<or> packet ! 2 AND 0x80 = 0 \<or> packet ! 2 AND 0x78 \<noteq> 0 then Ok None
        else (case one_question_end query of
                Panic \<Rightarrow> Panic
              | Err _ \<Rightarrow> Ok None
              | Ok query_end \<Rightarrow>
                  (case one_question_end packet of
                     Panic \<Rightarrow> Panic
                   | Err _ \<Rightarrow> Ok None
                   | Ok packet_end \<Rightarrow>
                       and_then (get_range packet 12 packet_end) (\<lambda>echoed.
                       and_then (get_range query 12 query_end) (\<lambda>asked.
                         if echoed \<noteq> asked then Ok None else Ok (Some packet_end)))))))"

fun skip_records :: "nat \<Rightarrow> bytes \<Rightarrow> nat \<Rightarrow> (nat option, errno) outcome" where
  "skip_records 0 packet offset = Ok (Some offset)"
| "skip_records (Suc count) packet offset =
     (case skip_name packet offset of
        Panic \<Rightarrow> Panic
      | Err _ \<Rightarrow> Ok None
      | Ok name_end \<Rightarrow>
          (case checked_add name_end 10 of
             None \<Rightarrow> Ok None
           | Some record_end \<Rightarrow>
               if length packet < record_end then Ok None
               else and_then (u16_at packet (name_end + 8)) (\<lambda>rdata_length.
                 case checked_add record_end (unat rdata_length) of
                   None \<Rightarrow> Ok None
                 | Some e \<Rightarrow> if length packet < e then Ok None else skip_records count packet e)))"

fun skip_sections :: "nat list \<Rightarrow> bytes \<Rightarrow> nat \<Rightarrow> (nat option, errno) outcome" where
  "skip_sections [] packet offset = Ok (Some offset)"
| "skip_sections (count_offset # rest) packet offset =
     and_then (u16_at packet count_offset) (\<lambda>count.
     and_then (skip_records (unat count) packet offset) (\<lambda>r.
       case r of None \<Rightarrow> Ok None | Some offset' \<Rightarrow> skip_sections rest packet offset'))"

definition has_complete_records :: "bytes \<Rightarrow> nat \<Rightarrow> (bool, errno) outcome" where
  "has_complete_records packet offset =
     and_then (skip_sections [6, 8, 10] packet offset) (\<lambda>r. Ok (r = Some (length packet)))"

end
