(* ===== verification/DnsNames.thy ===== *)
theory DnsNames
  imports Dns Text
begin

text \<open>
  What the name functions of theory \<open>Dns\<close> compute. \<open>name_at\<close> says which labels a possibly
  compressed name denotes and how many pointers it follows; \<open>skip_name\<close> and \<open>expand_name\<close> are
  sound and complete for it within their step limits, never leave the packet and never panic.
  \<open>write_wire_name\<close> writes exactly the labels of the dotted name.
\<close>

subsection \<open>Compression pointers\<close>

lemma compression_target_Ok:
  assumes "compression_target packet offset = Ok t"
  shows "12 \<le> t \<and> t < offset \<and> offset + 1 < length packet \<and> offset + 1 < 2 ^ 64"
proof -
  have ca: "offset + 1 < 2 ^ 64"
    using assms by (auto simp: compression_target_def checked_add_def split: if_splits)
  then have "checked_add offset 1 = Some (offset + 1)" by (simp add: checked_add_def)
  with assms ca show ?thesis
    by (auto simp: compression_target_def and_then_Ok_conv Let_def split: if_splits)
qed

lemma compression_target_no_panic: "compression_target packet offset \<noteq> Panic"
  by (auto simp: compression_target_def and_then_Panic_conv checked_add_def ok_or_def Let_def split: if_splits)

text \<open>The labels a name denotes, with the number of pointers followed: \<open>name_at packet offset jumps ls\<close>.\<close>

inductive name_at :: "bytes \<Rightarrow> nat \<Rightarrow> nat \<Rightarrow> bytes list \<Rightarrow> bool" for packet where
  name_root: "offset < length packet \<Longrightarrow> packet ! offset = 0 \<Longrightarrow> name_at packet offset 0 []"
| name_label: "offset < length packet \<Longrightarrow> packet ! offset \<noteq> 0 \<Longrightarrow> packet ! offset \<le> 63 \<Longrightarrow>
     offset + 1 + unat (packet ! offset) \<le> length packet \<Longrightarrow>
     name_at packet (offset + 1 + unat (packet ! offset)) jumps ls \<Longrightarrow>
     name_at packet offset jumps (take (unat (packet ! offset)) (drop (offset + 1) packet) # ls)"
| name_pointer: "offset < length packet \<Longrightarrow> packet ! offset AND 0xc0 = 0xc0 \<Longrightarrow>
     compression_target packet offset = Ok target \<Longrightarrow> name_at packet target jumps ls \<Longrightarrow>
     name_at packet offset (Suc jumps) ls"

lemma and_c0_pointer: "b \<le> 63 \<Longrightarrow> b AND 0xc0 \<noteq> (0xc0 :: u8)"
proof
  assume "b \<le> 63" "b AND 0xc0 = 0xc0"
  then have "bit (b AND 0xc0) 7" by simp
  then have "bit b 7" by (simp only: bit_and_iff)
  moreover have "b = take_bit 6 b"
    using \<open>b \<le> 63\<close> by (simp add: word_unat_eq_iff unsigned_take_bit_eq word_le_nat_alt take_bit_nat_eq_self)
  moreover have "\<not> bit (take_bit 6 b) 7" by (simp add: bit_take_bit_iff)
  ultimately show False by metis
qed

lemma skip_pointer:
  assumes "offset < length packet" "packet ! offset AND 0xc0 = 0xc0" "slice_len_ok packet"
  shows "skip_name_loop packet offset encoded_end steps =
    (case compression_target packet offset of
       Ok t \<Rightarrow> if 128 \<le> steps then Err malformed
               else skip_name_loop packet t (Some (case encoded_end of None \<Rightarrow> offset + 2 | Some e \<Rightarrow> e)) (Suc steps)
     | Err e \<Rightarrow> Err e | Panic \<Rightarrow> Panic)"
  using assms
  by (subst skip_name_loop.simps)
     (auto simp: checked_add_def slice_len_ok_def and_then_eq_case split: outcome.split option.split)

lemma skip_label:
  assumes "offset < length packet" "\<not> packet ! offset AND 0xc0 = 0xc0" "slice_len_ok packet"
  shows "skip_name_loop packet offset encoded_end steps =
    (if 63 < packet ! offset then Err malformed
     else if packet ! offset = 0 then Ok (case encoded_end of Some e \<Rightarrow> e | None \<Rightarrow> offset + 1)
     else if length packet < offset + 1 + unat (packet ! offset) then Err malformed
     else if 128 \<le> steps then Err malformed
     else skip_name_loop packet (offset + 1 + unat (packet ! offset)) encoded_end (Suc steps))"
  using assms
  by (subst skip_name_loop.simps) (auto simp: checked_add_def slice_len_ok_def Let_def split: option.split)

lemma skip_end: "length packet \<le> offset \<Longrightarrow> skip_name_loop packet offset encoded_end steps = Err malformed"
  by (subst skip_name_loop.simps) simp

lemma skip_name_loop_no_panic:
  assumes "slice_len_ok packet"
  shows "skip_name_loop packet offset encoded_end steps \<noteq> Panic"
proof (induction "128 - steps" arbitrary: offset encoded_end steps rule: less_induct)
  case less
  consider (out) "length packet \<le> offset"
    | (pointer) "offset < length packet" "packet ! offset AND 0xc0 = 0xc0"
    | (label) "offset < length packet" "\<not> packet ! offset AND 0xc0 = 0xc0" by linarith
  then show ?case
  proof cases
    case out
    then show ?thesis by (simp add: skip_end)
  next
    case pointer
    then show ?thesis using less compression_target_no_panic [of packet offset]
      by (auto simp: skip_pointer [OF pointer assms] split: outcome.split)
  next
    case label
    then show ?thesis using less by (auto simp: skip_label [OF label assms])
  qed
qed

lemma skip_name_loop_sound:
  assumes "slice_len_ok packet"
  shows "skip_name_loop packet offset encoded_end steps = Ok e \<Longrightarrow> steps \<le> 128 \<Longrightarrow>
     (\<exists>jumps ls. name_at packet offset jumps ls \<and> steps + jumps + length ls \<le> 128) \<and>
     (case encoded_end of None \<Rightarrow> offset < e \<and> e \<le> length packet | Some e0 \<Rightarrow> e = e0)"
proof (induction "128 - steps" arbitrary: offset encoded_end steps rule: less_induct)
  case less
  consider (out) "length packet \<le> offset"
    | (pointer) "offset < length packet" "packet ! offset AND 0xc0 = 0xc0"
    | (label) "offset < length packet" "\<not> packet ! offset AND 0xc0 = 0xc0" by linarith
  then show ?case
  proof cases
    case out
    then show ?thesis using less.prems by (simp add: skip_end)
  next
    case pointer
    from less.prems(1) obtain t where t: "compression_target packet offset = Ok t" "\<not> 128 \<le> steps"
      and r: "skip_name_loop packet t (Some (case encoded_end of None \<Rightarrow> offset + 2 | Some e \<Rightarrow> e)) (Suc steps) = Ok e"
      unfolding skip_pointer [OF pointer assms] by (auto split: outcome.splits if_splits)
    have lt: "128 - Suc steps < 128 - steps" "Suc steps \<le> 128" using t(2) by auto
    from less.hyps [OF lt(1) r lt(2)] obtain jumps ls where
      "name_at packet t jumps ls" "Suc steps + jumps + length ls \<le> 128"
      "e = (case encoded_end of None \<Rightarrow> offset + 2 | Some e \<Rightarrow> e)" by auto
    moreover have "offset + 2 \<le> length packet" using compression_target_Ok [OF t(1)] by simp
    ultimately show ?thesis
      using name_pointer [OF pointer t(1)] by (auto split: option.splits intro!: exI [of _ "Suc jumps"] exI [of _ ls])
  next
    case label
    show ?thesis
    proof (cases "packet ! offset = 0")
      case True
      then show ?thesis
        using less.prems label name_root [OF label(1) True] unfolding skip_label [OF label assms]
        by (auto split: option.splits intro!: exI [of _ 0] exI [of _ "[]"])
    next
      case False
      let ?n = "offset + 1 + unat (packet ! offset)"
      from less.prems(1) False have c: "packet ! offset \<le> 63" "?n \<le> length packet" "\<not> 128 \<le> steps"
        and r: "skip_name_loop packet ?n encoded_end (Suc steps) = Ok e"
        unfolding skip_label [OF label assms] by (auto split: if_splits)
      have lt: "128 - Suc steps < 128 - steps" "Suc steps \<le> 128" using c(3) by auto
      from less.hyps [OF lt(1) r lt(2)] obtain jumps ls where
        n: "name_at packet ?n jumps ls" "Suc steps + jumps + length ls \<le> 128"
        and e: "case encoded_end of None \<Rightarrow> ?n < e \<and> e \<le> length packet | Some e0 \<Rightarrow> e = e0" by auto
      from name_label [OF label(1) False c(1,2) n(1)] n(2) e show ?thesis
        by (auto split: option.splits intro!: exI [of _ jumps] exI)
    qed
  qed
qed

lemma skip_name_loop_complete:
  assumes "slice_len_ok packet"
  shows "name_at packet offset jumps ls \<Longrightarrow> steps + jumps + length ls \<le> 128 \<Longrightarrow>
    \<exists>e. skip_name_loop packet offset encoded_end steps = Ok e"
proof (induction arbitrary: steps encoded_end rule: name_at.induct)
  case (name_root offset)
  then show ?case by (simp add: skip_label assms)
next
  case (name_label offset jumps ls)
  then show ?case using and_c0_pointer [OF name_label(3)]
    by (subst skip_label) (auto simp: assms)
next
  case (name_pointer offset target jumps ls)
  then show ?case by (subst skip_pointer) (auto simp: assms)
qed

subsection \<open>Expanding a name\<close>

definition dotted_tail :: "bytes list \<Rightarrow> bytes" where
  "dotted_tail ls = concat (map (\<lambda>l. 46 # l) ls)"

fun dotted :: "bytes list \<Rightarrow> bytes" where
  "dotted [] = [46]"
| "dotted (l # ls) = l @ dotted_tail ls"

text \<open>What the loop still appends after \<open>written\<close> bytes.\<close>

definition expansion :: "nat \<Rightarrow> bytes list \<Rightarrow> bytes" where
  "expansion written ls = (if written = 0 then dotted ls else dotted_tail ls)"

definition expansion_fits :: "nat \<Rightarrow> bytes list \<Rightarrow> bytes \<Rightarrow> bool" where
  "expansion_fits written ls out \<longleftrightarrow>
     (if ls = [] then written = 0 \<longrightarrow> out \<noteq> [] else written + length (expansion written ls) < length out)"

lemma expand_pointer:
  assumes "offset < length packet" "packet ! offset AND 0xc0 = 0xc0"
  shows "expand_name_loop packet offset written jumps out =
    (case compression_target packet offset of
       Ok t \<Rightarrow> if 128 \<le> jumps then (Err malformed, out) else expand_name_loop packet t written (Suc jumps) out
     | Err e \<Rightarrow> (Err e, out) | Panic \<Rightarrow> (Panic, out))"
  using assms by (subst expand_name_loop.simps) (auto simp: Let_def split: outcome.split)

lemma expand_root:
  assumes "offset < length packet" "packet ! offset = 0"
  shows "expand_name_loop packet offset written jumps out =
    (if written = 0 then if out = [] then (Err EMSGSIZE, out) else (Ok 1, out[0 := 46]) else (Ok written, out))"
  using assms by (subst expand_name_loop.simps) (simp add: Let_def)

definition label_text :: "nat \<Rightarrow> bytes \<Rightarrow> bytes" where
  "label_text written l = (if written = 0 then l else 46 # l)"

lemma splice_dot:
  "written + 1 + length l < length out \<Longrightarrow> splice (out[written := b]) (Suc written) l = splice out written (b # l)"
  by (simp add: splice_def take_Suc_conv_app_nth)

lemma expand_label:
  assumes "offset < length packet" "packet ! offset \<noteq> 0" "\<not> packet ! offset AND 0xc0 = 0xc0" "packet ! offset \<le> 63"
    and "offset + 1 + unat (packet ! offset) \<le> length packet"
  defines "l \<equiv> take (unat (packet ! offset)) (drop (offset + 1) packet)"
  shows "written + length (label_text written l) < length out \<Longrightarrow>
      expand_name_loop packet offset written jumps out =
      expand_name_loop packet (offset + 1 + unat (packet ! offset)) (written + length (label_text written l)) jumps
        (splice out written (label_text written l))"
    and "length out \<le> written + length (label_text written l) \<Longrightarrow>
      \<exists>out'. expand_name_loop packet offset written jumps out = (Err EMSGSIZE, out') \<and> length out' = length out"
proof -
  have len: "length l = unat (packet ! offset)" using assms(5) by (simp add: l_def)
  note unfold = expand_name_loop.simps [of packet offset written jumps out]
  have g: "get_range packet (offset + 1) (offset + 1 + unat (packet ! offset)) = (Ok l :: bytes result)"
    using assms(5) by (simp add: get_range_Ok l_def)
  {
    assume "written + length (label_text written l) < length out"
    then show "expand_name_loop packet offset written jumps out =
      expand_name_loop packet (offset + 1 + unat (packet ! offset)) (written + length (label_text written l)) jumps
        (splice out written (label_text written l))"
      using assms(1-5) g len unfolding unfold
      by (auto simp: Let_def label_text_def put_range_Ok splice_dot not_less word_less_nat_alt word_le_nat_alt)
  }
  {
    assume "length out \<le> written + length (label_text written l)"
    then show "\<exists>out'. expand_name_loop packet offset written jumps out = (Err EMSGSIZE, out') \<and> length out' = length out"
      using assms(1-5) g len unfolding unfold
      by (auto simp: Let_def label_text_def not_less word_less_nat_alt word_le_nat_alt)
  }
qed


lemma length_dotted_tail: "length (dotted_tail (l # ls)) = Suc (length l + length (dotted_tail ls))"
  by (simp add: dotted_tail_def)

lemma expansion_Cons:
  "l \<noteq> [] \<Longrightarrow> expansion written (l # ls) = label_text written l @ expansion (written + length (label_text written l)) ls"
  by (auto simp: expansion_def label_text_def dotted_tail_def)

lemma expansion_fits_Cons:
  assumes "l \<noteq> []"
  shows "expansion_fits written (l # ls) out \<longleftrightarrow> written + length (label_text written l) < length out \<and>
     expansion_fits (written + length (label_text written l)) ls (splice out written (label_text written l))"
proof -
  let ?w = "written + length (label_text written l)"
  have w: "0 < ?w" using assms by (auto simp: label_text_def)
  then have e: "expansion ?w ks = dotted_tail ks" for ks unfolding expansion_def by auto
  show ?thesis
    using w by (cases ls) (auto simp: expansion_fits_def expansion_Cons [OF assms] e add.assoc dotted_tail_def)
qed

lemma expand_complete:
  "name_at packet offset j ls \<Longrightarrow> jumps + j \<le> 128 \<Longrightarrow> written \<le> length out \<Longrightarrow> expansion_fits written ls out \<Longrightarrow>
   expand_name_loop packet offset written jumps out =
     (Ok (written + length (expansion written ls)), splice out written (expansion written ls))"
proof (induction arbitrary: written jumps out rule: name_at.induct)
  case (name_root offset)
  then show ?case
    by (auto simp: expand_root expansion_def expansion_fits_def dotted_tail_def splice_def upd_conv_take_nth_drop)
next
  case (name_label offset j ls)
  let ?l = "take (unat (packet ! offset)) (drop (offset + 1) packet)"
  let ?t = "label_text written ?l"
  have "unat (packet ! offset) \<noteq> 0" using name_label(2) by (simp add: unat_eq_0)
  then have l: "?l \<noteq> []" using name_label(4) by auto
  have fit: "written + length ?t < length out"
    "expansion_fits (written + length ?t) ls (splice out written ?t)"
    using name_label.prems(3) unfolding expansion_fits_Cons [OF l] by auto
  have e: "expansion written (?l # ls) = ?t @ expansion (written + length ?t) ls" by (rule expansion_Cons [OF l])
  have le: "written + length (?t @ expansion (written + length ?t) ls) \<le> length out"
    using name_label.prems(3) unfolding expansion_fits_def e [symmetric] by simp
  have "expand_name_loop packet offset written jumps out =
     expand_name_loop packet (offset + 1 + unat (packet ! offset)) (written + length ?t) jumps (splice out written ?t)"
    using name_label(1-4) and_c0_pointer [OF name_label(3)] fit(1) by (intro expand_label) auto
  also have "\<dots> = (Ok (written + length ?t + length (expansion (written + length ?t) ls)),
      splice (splice out written ?t) (written + length ?t) (expansion (written + length ?t) ls))"
    using fit name_label.prems(1) by (intro name_label.IH) auto
  also have "splice (splice out written ?t) (written + length ?t) (expansion (written + length ?t) ls) =
      splice out written (expansion written (?l # ls))"
    unfolding e by (rule splice_splice [OF le])
  finally show ?case unfolding e by (simp only: length_append add.assoc)
next
  case (name_pointer offset target j ls)
  then show ?case by (simp add: expand_pointer)
qed

lemma expand_sound:
  "jumps \<le> 128 \<Longrightarrow> written \<le> length out \<Longrightarrow> expand_name_loop packet offset written jumps out = (r, out') \<Longrightarrow>
   r \<noteq> Panic \<and> length out' = length out \<and>
   (\<forall>n. r = Ok n \<longrightarrow> (\<exists>j ls. name_at packet offset j ls \<and> jumps + j \<le> 128 \<and> expansion_fits written ls out))"
proof (induction "(128 - jumps) * (length packet + 1) + (length packet - offset)" arbitrary: offset written jumps out
    rule: less_induct)
  case less
  consider (out) "length packet \<le> offset"
    | (pointer) "offset < length packet" "packet ! offset AND 0xc0 = 0xc0"
    | (root) "offset < length packet" "packet ! offset = 0"
    | (bad) "offset < length packet" "\<not> packet ! offset AND 0xc0 = 0xc0" "packet ! offset \<noteq> 0"
        "63 < packet ! offset \<or> length packet < offset + 1 + unat (packet ! offset)"
    | (label) "offset < length packet" "packet ! offset \<noteq> 0" "\<not> packet ! offset AND 0xc0 = 0xc0" "packet ! offset \<le> 63"
        "offset + 1 + unat (packet ! offset) \<le> length packet" by fastforce
  then show ?case
  proof cases
    case out
    then show ?thesis using less.prems by (subst (asm) expand_name_loop.simps) auto
  next
    case pointer
    show ?thesis
    proof (cases "compression_target packet offset")
      case (Ok t)
      show ?thesis
      proof (cases "128 \<le> jumps")
        case True
        then show ?thesis using less.prems(3) unfolding expand_pointer [OF pointer] Ok by auto
      next
        case False
        then have r: "expand_name_loop packet t written (Suc jumps) out = (r, out')"
          using less.prems(3) unfolding expand_pointer [OF pointer] Ok by simp
        have "(128 - jumps) = Suc (128 - Suc jumps)" using False by simp
        then have "(128 - Suc jumps) * (length packet + 1) + (length packet - t)
            < (128 - jumps) * (length packet + 1) + (length packet - offset)" by simp
        from less.hyps [OF this _ less.prems(2) r] False
        have ih: "r \<noteq> Panic" "length out' = length out"
          "\<And>n. r = Ok n \<Longrightarrow> \<exists>j ls. name_at packet t j ls \<and> Suc jumps + j \<le> 128 \<and> expansion_fits written ls out"
          by auto
        then show ?thesis
          using name_pointer [OF pointer Ok] by (metis add_Suc add_Suc_right)
      qed
    qed (use less.prems(3) compression_target_no_panic [of packet offset] in \<open>auto simp: expand_pointer [OF pointer]\<close>)
  next
    case root
    then show ?thesis using less.prems name_root [OF root]
      by (auto simp: expand_root expansion_fits_def split: if_splits intro!: exI [of _ 0] exI [of _ "[]"])
  next
    case bad
    then have "expand_name_loop packet offset written jumps out = (Err malformed, out)"
      by (subst expand_name_loop.simps) (auto simp: Let_def)
    then show ?thesis using less.prems by auto
  next
    case label
    let ?l = "take (unat (packet ! offset)) (drop (offset + 1) packet)"
    let ?t = "label_text written ?l" and ?n = "offset + 1 + unat (packet ! offset)"
    have "unat (packet ! offset) \<noteq> 0" using label(2) by (simp add: unat_eq_0)
    then have l: "?l \<noteq> []" using label(5) by auto
    show ?thesis
    proof (cases "written + length ?t < length out")
      case True
      then have r: "expand_name_loop packet ?n (written + length ?t) jumps (splice out written ?t) = (r, out')"
        using expand_label(1) [OF label True] less.prems(3) by simp
      have lt: "(128 - jumps) * (length packet + 1) + (length packet - ?n)
            < (128 - jumps) * (length packet + 1) + (length packet - offset)" using label(1,5) by simp
      have le: "written + length ?t \<le> length (splice out written ?t)" using True by simp
      have ih: "r \<noteq> Panic" "length out' = length (splice out written ?t)"
          "\<And>n. r = Ok n \<Longrightarrow> \<exists>j ls. name_at packet ?n j ls \<and> jumps + j \<le> 128 \<and>
             expansion_fits (written + length ?t) ls (splice out written ?t)"
        using less.hyps [OF lt less.prems(1) le r] by blast+
      have "\<exists>j ls. name_at packet offset j ls \<and> jumps + j \<le> 128 \<and> expansion_fits written ls out" if n: "r = Ok n" for n
      proof -
        obtain j ls where "name_at packet ?n j ls" "jumps + j \<le> 128"
             "expansion_fits (written + length ?t) ls (splice out written ?t)" using ih(3) [OF n] by blast
        then show ?thesis
          using name_label [OF label(1,2,4,5)] expansion_fits_Cons [OF l, of written ls out] True by blast
      qed
      then show ?thesis using ih(1,2) True by simp
    next
      case False
      then show ?thesis using expand_label(2) [OF label, of out written jumps] less.prems(3) by auto
    qed
  qed
qed
subsection \<open>Writing a name\<close>

definition wire_labels :: "bytes list \<Rightarrow> bytes" where
  "wire_labels ls = concat (map (\<lambda>l. word_of_nat (length l) # l) ls)"

definition wire :: "bytes list \<Rightarrow> bytes" where
  "wire ls = wire_labels ls @ [0]"

definition label_ok :: "bytes \<Rightarrow> bool" where
  "label_ok l \<longleftrightarrow> l \<noteq> [] \<and> length l \<le> 63"

definition strip_last :: "bytes list \<Rightarrow> bytes list" where
  "strip_last fs = (if fs \<noteq> [] \<and> last fs = [] then butlast fs else fs)"

text \<open>The labels of a dotted name; one trailing dot is allowed.\<close>

definition name_labels :: "bytes \<Rightarrow> bytes list" where
  "name_labels name = strip_last (delim_fields (\<lambda>b. b = 46) name)"

lemma wire_simps [simp]:
  "wire [] = [0]" "wire (l # ls) = word_of_nat (length l) # l @ wire ls"
  by (simp_all add: wire_def wire_labels_def)

lemma strip_last_Cons: "fs \<noteq> [] \<Longrightarrow> strip_last (f # fs) = f # strip_last fs"
  by (simp add: strip_last_def)

text \<open>The loop as a recursion over the fields between dots.\<close>

fun wire_fields :: "bytes list \<Rightarrow> nat \<Rightarrow> bytes \<Rightarrow> nat result \<times> bytes" where
  "wire_fields [] written out = wire_name_end written out"
| "wire_fields (f # fs) written out =
     (if f = [] then if fs = [] then wire_name_end written out else (Err invalid, out)
      else if 63 < length f \<or> checked_add written (length f + 2) = None then (Err invalid, out)
      else if length out \<le> written + length f + 1 then (Err ENAMETOOLONG, out)
      else wire_fields fs (written + length f + 1) (splice out written (word_of_nat (length f) # f)))"

lemma write_skip:
  "index \<le> length name \<Longrightarrow>
   write_wire_name_from name label_start index written out =
   write_wire_name_from name label_start (index + length (takeWhile (\<lambda>b. b \<noteq> 46) (drop index name))) written out"
proof (induction "length name - index" arbitrary: index)
  case 0
  then show ?case by simp
next
  case (Suc k)
  then have lt: "index < length name" by simp
  then have d: "drop index name = name ! index # drop (Suc index) name" by (rule drop_Cons_nth)
  show ?case
  proof (cases "name ! index = 46")
    case True
    then show ?thesis by (simp add: d)
  next
    case False
    then have "write_wire_name_from name label_start index written out =
       write_wire_name_from name label_start (index + 1) written out"
      using lt by (subst write_wire_name_from.simps) simp
    also have "\<dots> = write_wire_name_from name label_start
        (index + 1 + length (takeWhile (\<lambda>b. b \<noteq> 46) (drop (index + 1) name))) written out"
      using Suc.hyps(2) lt by (intro Suc.hyps(1)) auto
    finally show ?thesis using False by (simp add: d)
  qed
qed

lemma write_wire_name_fields:
  assumes "i \<le> length name" "if i = 0 then name \<noteq> [] else name ! (i - 1) = 46"
  shows "write_wire_name_from name i i written out = wire_fields (delim_fields (\<lambda>b. b = 46) (drop i name)) written out"
  using assms
proof (induction "length name - i" arbitrary: i written out rule: less_induct)
  case less
  let ?rest = "drop i name" and ?nd = "\<lambda>b :: u8. b \<noteq> 46"
  define f where "f = takeWhile ?nd ?rest"
  define e where "e = i + length f"
  have fl: "length f \<le> length ?rest" unfolding f_def by (rule length_takeWhile_le)
  then have e: "e \<le> length name" using less.prems(1) by (simp add: e_def)
  have ft: "take (e - i) (drop i name) = f" by (simp add: e_def f_def takeWhile_eq_take [symmetric])
  have drest: "drop e name = dropWhile ?nd ?rest"
    by (simp add: e_def f_def dropWhile_eq_drop add.commute)
  have fields: "delim_fields (\<lambda>b. b = 46) ?rest =
      f # (case drop e name of [] \<Rightarrow> [] | _ # rest \<Rightarrow> delim_fields (\<lambda>b. b = 46) rest)"
    unfolding drest f_def by (rule delim_fields_unfold)
  have skip: "write_wire_name_from name i i written out = write_wire_name_from name i e written out"
    unfolding e_def f_def by (rule write_skip [OF less.prems(1)])
  have lab: "wire_label name i e written out =
     (if f = [] then if e = length name \<and> (i \<noteq> 0) then (Ok written, out) else (Err invalid, out)
      else if 63 < length f \<or> checked_add written (length f + 2) = None then (Err invalid, out)
      else if length out \<le> written + length f + 1 then (Err ENAMETOOLONG, out)
      else (Ok (written + length f + 1), splice out written (word_of_nat (length f) # f)))"
    using less.prems ft by (auto simp: wire_label_def Let_def e_def put_range_Ok split: if_splits)
  show ?case
  proof (cases "e = length name")
    case True
    then have "delim_fields (\<lambda>b. b = 46) ?rest = [f]" by (simp add: fields)
    moreover have "f = [] \<Longrightarrow> i \<noteq> 0" using True less.prems(2) by (auto simp: e_def split: if_splits)
    moreover have "write_wire_name_from name i e written out =
        (case wire_label name i e written out of (Ok w, o') \<Rightarrow> wire_name_end w o' | (Err x, o') \<Rightarrow> (Err x, o')
          | (Panic, o') \<Rightarrow> (Panic, o'))"
      using True by (subst write_wire_name_from.simps) (simp split: prod.split outcome.split)
    ultimately show ?thesis unfolding skip lab using True by auto
  next
    case False
    then have el: "e < length name" using e by simp
    then have d: "drop e name = name ! e # drop (e + 1) name" by (simp add: drop_Cons_nth)
    have dot: "name ! e = 46"
      using drest d dropWhile_eq_Cons_conv [of ?nd ?rest "name ! e" "drop (e + 1) name"] by auto
    have w: "write_wire_name_from name i e written out =
        (case wire_label name i e written out of (Ok w, o') \<Rightarrow> write_wire_name_from name (e + 1) (e + 1) w o'
          | (Err x, o') \<Rightarrow> (Err x, o') | (Panic, o') \<Rightarrow> (Panic, o'))"
      using el dot by (subst write_wire_name_from.simps) (simp split: prod.split outcome.split)
    have ih: "write_wire_name_from name (e + 1) (e + 1) w o' =
        wire_fields (delim_fields (\<lambda>b. b = 46) (drop (e + 1) name)) w o'" for w o'
      using el dot by (intro less.hyps) (auto simp: e_def)
    have "delim_fields (\<lambda>b. b = 46) ?rest = f # delim_fields (\<lambda>b. b = 46) (drop (e + 1) name)"
      unfolding fields d by simp
    then show ?thesis unfolding skip w lab using False el by (auto simp: ih [simplified])
  qed
qed

lemma wire_name_end_splice:
  "written < length out \<Longrightarrow> wire_name_end written out = (Ok (written + 1), splice out written [0])"
  by (simp add: wire_name_end_def list_update_splice)

lemma wire_fields_Ok:
  assumes "fs \<noteq> []" "list_all label_ok (strip_last fs)" "written + length (wire (strip_last fs)) \<le> length out"
    "slice_len_ok out"
  shows "wire_fields fs written out =
     (Ok (written + length (wire (strip_last fs))), splice out written (wire (strip_last fs)))"
  using assms
proof (induction fs arbitrary: written out)
  case (Cons f fs)
  show ?case
  proof (cases "f = [] \<and> fs = []")
    case True
    with Cons.prems show ?thesis by (simp add: strip_last_def wire_name_end_splice)
  next
    case False
    have s: "strip_last (f # fs) = f # strip_last fs"
      using False by (cases "fs = []") (auto simp: strip_last_Cons, auto simp: strip_last_def)
    have f: "f \<noteq> []" "length f \<le> 63" using Cons.prems(2) unfolding s by (auto simp: label_ok_def)
    let ?o = "splice out written (word_of_nat (length f) # f)" and ?w = "written + length f + 1"
    have fit: "?w + length (wire (strip_last fs)) \<le> length out" using Cons.prems(3) unfolding s by simp
    moreover have "0 < length (wire (strip_last fs))" by (simp add: wire_def)
    ultimately have lt: "?w < length out" by linarith
    then have ca: "checked_add written (length f + 2) = Some (written + (length f + 2))"
      using Cons.prems(4) by (simp add: checked_add_def slice_len_ok_def)
    have step: "wire_fields (f # fs) written out = wire_fields fs ?w ?o"
      using f lt ca by simp
    have lo: "length ?o = length out" using lt by simp
    have rec: "wire_fields fs ?w ?o =
        (Ok (?w + length (wire (strip_last fs))), splice ?o ?w (wire (strip_last fs)))"
    proof (cases "fs = []")
      case True
      then show ?thesis using lt lo by (simp add: strip_last_def wire_name_end_splice)
    next
      case ne: False
      show ?thesis
        using Cons.prems(2,4) fit lo unfolding s by (intro Cons.IH ne) (auto simp: slice_len_ok_def)
    qed
    have "splice ?o ?w (wire (strip_last fs)) = splice out written ((word_of_nat (length f) # f) @ wire (strip_last fs))"
      using splice_splice [of written "word_of_nat (length f) # f" "wire (strip_last fs)" out] fit by simp
    then show ?thesis unfolding step rec s by simp
  qed
qed simp

lemma wire_fields_sound:
  assumes "wire_fields fs written out = (r, out')" "fs \<noteq> []"
  shows "r \<noteq> Panic \<and> length out' = length out \<and>
    (\<forall>n. r = Ok n \<longrightarrow> list_all label_ok (strip_last fs) \<and> written + length (wire (strip_last fs)) \<le> length out)"
  using assms
proof (induction fs arbitrary: written out)
  case (Cons f fs)
  show ?case
  proof (cases "f = []")
    case True
    then show ?thesis using Cons.prems
      by (auto simp: wire_name_end_def strip_last_def split: if_splits)
  next
    case f: False
    have s: "strip_last (f # fs) = f # strip_last fs"
      using f by (cases "fs = []") (auto simp: strip_last_Cons, auto simp: strip_last_def)
    let ?o = "splice out written (word_of_nat (length f) # f)" and ?w = "written + length f + 1"
    show ?thesis
    proof (cases "63 < length f \<or> checked_add written (length f + 2) = None \<or> length out \<le> ?w")
      case True
      then show ?thesis using Cons.prems f by (auto split: if_splits)
    next
      case False
      then have rec: "wire_fields fs ?w ?o = (r, out')" using Cons.prems f by auto
      have lo: "length ?o = length out" using False by simp
      have ok: "label_ok f" using False f by (simp add: label_ok_def)
      show ?thesis
      proof (cases "fs = []")
        case True
        then show ?thesis using rec lo ok False unfolding s
          by (auto simp: wire_name_end_def strip_last_def split: if_splits)
      next
        case ne: False
        from Cons.IH [OF rec ne] lo ok show ?thesis unfolding s by auto
      qed
    qed
  qed
qed simp

lemma write_wire_name_eq:
  "name \<noteq> [] \<Longrightarrow> out \<noteq> [] \<Longrightarrow> write_wire_name name out = wire_fields (delim_fields (\<lambda>b. b = 46) name) 0 out"
  by (simp add: write_wire_name_def write_wire_name_fields)

lemma write_wire_name_iff:
  assumes "slice_len_ok out"
  shows "write_wire_name name out = (Ok n, out') \<longleftrightarrow>
     name \<noteq> [] \<and> list_all label_ok (name_labels name) \<and> length (wire (name_labels name)) \<le> length out \<and>
     n = length (wire (name_labels name)) \<and> out' = wire (name_labels name) @ drop n out"
proof (cases "name = [] \<or> out = []")
  case True
  then show ?thesis by (auto simp: write_wire_name_def wire_def)
next
  case False
  then have eq: "write_wire_name name out = wire_fields (delim_fields (\<lambda>b. b = 46) name) 0 out"
    by (simp add: write_wire_name_eq)
  show ?thesis
  proof
    assume l: "write_wire_name name out = (Ok n, out')"
    then have "list_all label_ok (name_labels name) \<and> length (wire (name_labels name)) \<le> length out"
      using wire_fields_sound [of "delim_fields (\<lambda>b. b = 46) name" 0 out] unfolding eq name_labels_def by auto
    with l show "name \<noteq> [] \<and> list_all label_ok (name_labels name) \<and> length (wire (name_labels name)) \<le> length out \<and>
     n = length (wire (name_labels name)) \<and> out' = wire (name_labels name) @ drop n out"
      using False assms wire_fields_Ok [of "delim_fields (\<lambda>b. b = 46) name" 0 out]
      unfolding eq name_labels_def by (auto simp: splice_0)
  next
    assume "name \<noteq> [] \<and> list_all label_ok (name_labels name) \<and> length (wire (name_labels name)) \<le> length out \<and>
     n = length (wire (name_labels name)) \<and> out' = wire (name_labels name) @ drop n out"
    then show "write_wire_name name out = (Ok n, out')"
      using assms wire_fields_Ok [of "delim_fields (\<lambda>b. b = 46) name" 0 out]
      unfolding eq name_labels_def by (auto simp: splice_0)
  qed
qed

lemma write_wire_name_no_panic: "write_wire_name name out = (r, out') \<Longrightarrow> r \<noteq> Panic \<and> length out' = length out"
  using wire_fields_sound [of "delim_fields (\<lambda>b. b = 46) name" 0 out r out']
  by (cases "name = [] \<or> out = []") (auto simp: write_wire_name_eq, auto simp: write_wire_name_def)

end
