(* ===== verification/DnsMessage.thy ===== *)
theory DnsMessage
  imports DnsNames
begin

text \<open>
  Whole messages of \<open>crabc-core/src/resolver.rs\<close>: the layout \<open>encode_query\<close> produces, the exact
  condition under which a response is accepted, and what \<open>rdata_at\<close> and the record checks return.
\<close>

subsection \<open>What was written reads back\<close>

definition name_text :: "bytes \<Rightarrow> bytes" where
  "name_text name = (if name \<noteq> [] \<and> last name = 46 then butlast name else name)"

lemma dotted_tail_eq: "ls \<noteq> [] \<Longrightarrow> dotted_tail ls = 46 # dotted ls"
  by (cases ls) (simp_all add: dotted_tail_def)

lemma dotted_delim_fields: "xs \<noteq> [] \<Longrightarrow> dotted (delim_fields (\<lambda>b. b = 46) xs) = xs"
proof (induction xs)
  case (Cons x xs)
  show ?case
  proof (cases "xs = []")
    case True
    then show ?thesis by (auto simp: dotted_tail_def)
  next
    case False
    then show ?thesis using Cons.IH by (auto simp: dotted_tail_eq split: list.split)
  qed
qed simp

lemma last_delim_fields: "last (delim_fields (\<lambda>b. b = 46) xs) = [] \<longleftrightarrow> xs = [] \<or> last xs = 46"
proof (induction xs)
  case (Cons x xs)
  let ?fs = "delim_fields (\<lambda>b. b = 46) xs"
  have "\<not> (?fs = [[]] \<and> xs \<noteq> [])"
    using length_delim_fields [of "\<lambda>b. b = 46" xs] concat_delim_fields [of "\<lambda>b. b = 46" xs]
    by (cases xs) (auto split: if_splits)
  with Cons.IH show ?case by (auto split: list.splits)
qed simp

lemma dotted_snoc: "ls \<noteq> [] \<Longrightarrow> dotted (ls @ [l]) = dotted ls @ 46 # l"
  by (cases ls) (simp_all add: dotted_tail_def)

lemma dotted_name_labels:
  assumes "name \<noteq> []" "name_labels name \<noteq> []"
  shows "dotted (name_labels name) = name_text name"
proof (cases "last name = 46")
  case True
  let ?fs = "delim_fields (\<lambda>b. b = 46) name"
  have l: "last ?fs = []" using True by (simp add: last_delim_fields)
  then have b: "name_labels name = butlast ?fs" by (simp add: name_labels_def strip_last_def)
  have "?fs = butlast ?fs @ [[]]" using l append_butlast_last_id [of ?fs] by simp
  then have "name = dotted (butlast ?fs @ [[]])" using dotted_delim_fields [OF assms(1)] by metis
  also have "\<dots> = dotted (name_labels name) @ [46]" using assms(2) by (simp add: b dotted_snoc)
  finally show ?thesis using True assms(1) by (metis butlast_snoc name_text_def)
next
  case False
  then show ?thesis using assms(1)
    by (simp add: name_labels_def strip_last_def last_delim_fields dotted_delim_fields name_text_def)
qed

lemma unat_length_label: "label_ok l \<Longrightarrow> unat (word_of_nat (length l) :: u8) = length l"
  by (simp add: label_ok_def unat_of_nat)

lemma wire_prefix_label:
  assumes "take (length (wire (l # ls))) (drop off packet) = wire (l # ls)" "label_ok l"
  shows "off < length packet" "packet ! off = word_of_nat (length l)" "packet ! off \<noteq> 0" "packet ! off \<le> 63"
    "off + 1 + unat (packet ! off) \<le> length packet" "take (unat (packet ! off)) (drop (off + 1) packet) = l"
    "take (length (wire ls)) (drop (off + 1 + unat (packet ! off)) packet) = wire ls"
proof -
  have len: "length (wire (l # ls)) \<le> length (drop off packet)"
    using assms(1) by (metis length_take min.absorb_iff1 min.commute)
  then show o: "off < length packet" by auto
  have d: "drop off packet = packet ! off # drop (off + 1) packet" using o by (simp add: drop_Cons_nth)
  have h: "packet ! off = word_of_nat (length l)" and
    t: "take (length l + length (wire ls)) (drop (off + 1) packet) = l @ wire ls"
    using assms(1) unfolding d by simp_all
  show "packet ! off = word_of_nat (length l)" by (rule h)
  have u: "unat (packet ! off) = length l" using unat_length_label [OF assms(2)] by (simp add: h)
  show "packet ! off \<noteq> 0" "packet ! off \<le> 63"
    using u assms(2) by (auto simp: label_ok_def word_le_nat_alt)
  show "off + 1 + unat (packet ! off) \<le> length packet" using len o by (simp add: u)
  show "take (unat (packet ! off)) (drop (off + 1) packet) = l"
    unfolding u using t by (metis append_eq_conv_conj min.absorb1 le_add1 take_take)
  have "drop (length l) (take (length l + length (wire ls)) (drop (off + 1) packet)) = wire ls"
    unfolding t by simp
  then show "take (length (wire ls)) (drop (off + 1 + unat (packet ! off)) packet) = wire ls"
    unfolding u by (simp add: drop_take add.commute add.left_commute)
qed

lemma wire_prefix_root:
  assumes "take (length (wire [])) (drop off packet) = wire []"
  shows "off < length packet" "packet ! off = 0"
  using assms by (cases "off < length packet"; auto simp: drop_Cons_nth)+

lemma name_at_wire:
  "take (length (wire ls)) (drop off packet) = wire ls \<Longrightarrow> list_all label_ok ls \<Longrightarrow> name_at packet off 0 ls"
proof (induction ls arbitrary: off)
  case Nil
  then show ?case by (intro name_root wire_prefix_root) auto
next
  case (Cons l ls)
  then have ok: "label_ok l" by simp
  note w = wire_prefix_label [OF Cons.prems(1) ok]
  have "name_at packet off 0 (take (unat (packet ! off)) (drop (off + 1) packet) # ls)"
    using w Cons by (intro name_label) auto
  then show ?case by (simp only: w(6))
qed

lemma skip_name_loop_wire:
  "take (length (wire ls)) (drop off packet) = wire ls \<Longrightarrow> list_all label_ok ls \<Longrightarrow> slice_len_ok packet \<Longrightarrow>
   steps + length ls \<le> 128 \<Longrightarrow> skip_name_loop packet off None steps = Ok (off + length (wire ls))"
proof (induction ls arbitrary: off steps)
  case Nil
  then show ?case using wire_prefix_root [OF Nil(1)] by (simp add: skip_label)
next
  case (Cons l ls)
  then have ok: "label_ok l" by simp
  note w = wire_prefix_label [OF Cons.prems(1) ok]
  have u: "unat (packet ! off) = length l" using unat_length_label [OF ok] by (simp add: w(2))
  have "skip_name_loop packet off None steps = skip_name_loop packet (off + 1 + unat (packet ! off)) None (Suc steps)"
    using w and_c0_pointer [OF w(4)] Cons.prems by (subst skip_label) auto
  also have "\<dots> = Ok (off + 1 + unat (packet ! off) + length (wire ls))"
    using Cons.prems w(7) by (intro Cons.IH) auto
  finally show ?case by (simp add: u)
qed

lemma length_wire_labels: "list_all label_ok ls \<Longrightarrow> 2 * length ls < length (wire ls)"
proof (induction ls)
  case (Cons l ls)
  then have "1 \<le> length l" by (cases l) (auto simp: label_ok_def)
  with Cons show ?case by simp
qed simp

lemma skip_name_wire:
  assumes "take (length (wire ls)) (drop off packet) = wire ls" "list_all label_ok ls" "slice_len_ok packet"
    "length (wire ls) \<le> MAX_NAME_WIRE"
  shows "skip_name packet off = Ok (off + length (wire ls))"
  unfolding skip_name_def using assms length_wire_labels [OF assms(2)]
  by (intro skip_name_loop_wire) (auto simp: MAX_NAME_WIRE_def)

lemma expand_name_wire:
  assumes "take (length (wire ls)) (drop off packet) = wire ls" "list_all label_ok ls"
    "length (dotted ls) < length out"
  shows "expand_name packet off out = (Ok (length (dotted ls)), dotted ls @ drop (length (dotted ls)) out)"
proof -
  have "out \<noteq> []" using assms(3) by auto
  then show ?thesis using expand_complete [OF name_at_wire [OF assms(1,2)], of 0 0 out] assms(3)
  by (cases ls) (auto simp: expand_name_def expansion_fits_def expansion_def splice_0)
qed

text \<open>The question section of a query and the whole message \<open>encode_query\<close> writes.\<close>

definition question :: "bytes \<Rightarrow> u16 \<Rightarrow> bytes" where
  "question name record_type = wire (name_labels name) @ u16_to_be_bytes record_type @ u16_to_be_bytes CLASS_IN"

definition query_header :: "u16 \<Rightarrow> bytes" where
  "query_header query_id = u16_to_be_bytes query_id @ [0x01, 0, 0, 0x01, 0, 0, 0, 0, 0, 0]"

definition name_ok :: "bytes \<Rightarrow> bool" where
  "name_ok name \<longleftrightarrow> name \<noteq> [] \<and> list_all label_ok (name_labels name) \<and>
     length (wire (name_labels name)) \<le> MAX_NAME_WIRE"

lemma write_wire_name_scratch:
  "write_wire_name name (replicate MAX_NAME_WIRE 0) = (Ok n, w) \<longleftrightarrow>
     name_ok name \<and> n = length (wire (name_labels name)) \<and>
     w = wire (name_labels name) @ replicate (MAX_NAME_WIRE - n) 0"
  by (subst write_wire_name_iff) (auto simp: name_ok_def slice_len_ok_def MAX_NAME_WIRE_def)

lemma write_wire_name_scratch_cases:
  obtains (ok) "name_ok name" "write_wire_name name (replicate MAX_NAME_WIRE 0) =
      (Ok (length (wire (name_labels name))),
       wire (name_labels name) @ replicate (MAX_NAME_WIRE - length (wire (name_labels name))) 0)"
  | (err) e w where "\<not> name_ok name" "write_wire_name name (replicate MAX_NAME_WIRE 0) = (Err e, w)"
proof (cases "name_ok name")
  case True
  then show ?thesis using ok write_wire_name_scratch by blast
next
  case False
  obtain r w where rw: "write_wire_name name (replicate MAX_NAME_WIRE 0) = (r, w)" by fastforce
  with False write_wire_name_scratch [of name] write_wire_name_no_panic [OF rw] obtain e where "r = Err e"
    by (cases r) auto
  with rw False err show ?thesis by blast
qed

lemma put_range_mid:
  "i = length xs \<Longrightarrow> length ys = length zs \<Longrightarrow> put_range (xs @ ys @ ts) i zs = Ok (xs @ zs @ ts)"
  by (simp add: put_range_def splice_def)

lemma encode_query_stores:
  assumes "12 + length w + 4 \<le> length out"
  defines "qtype \<equiv> 12 + length w"
  shows "and_then (put_range out 0 (replicate (12 + length w + 4) 0)) (\<lambda>out.
         and_then (put_range out 0 [a]) (\<lambda>out. and_then (put_range out 1 [b]) (\<lambda>out.
         and_then (put_range out 2 [c]) (\<lambda>out. and_then (put_range out 5 [d]) (\<lambda>out.
         and_then (get_range (w @ pad) 0 (length w)) (\<lambda>wire. and_then (put_range out 12 wire) (\<lambda>out.
         and_then (put_range out qtype [e]) (\<lambda>out. and_then (put_range out (qtype + 1) [f]) (\<lambda>out.
         and_then (put_range out (qtype + 2) [g]) (\<lambda>out. put_range out (qtype + 3) [h])))))))))) =
    (Ok ([a, b, c, 0, 0, d, 0, 0, 0, 0, 0, 0] @ w @ [e, f, g, h] @ drop (12 + length w + 4) out) :: bytes result)"
proof -
  let ?z = "replicate (length w) (0 :: u8)" and ?r = "drop (12 + length w + 4) out"
  let ?T = "?z @ [0, 0, 0, 0] @ ?r" and ?U = "w @ [0, 0, 0, 0] @ ?r"
  have rep: "replicate (12 + length w + 4) (0 :: u8) =
      [0, 0, 0, 0, 0, 0, 0, 0, 0, 0, 0, 0] @ ?z @ [0, 0, 0, 0]"
    by (simp only: replicate_add) (simp add: numeral_eq_Suc)
  have 0: "put_range out 0 (replicate (12 + length w + 4) 0) =
      (Ok ([0, 0, 0, 0, 0, 0, 0, 0, 0, 0, 0, 0] @ ?T) :: bytes result)"
  proof -
    have "put_range out 0 (replicate (12 + length w + 4) 0) =
        (Ok (replicate (12 + length w + 4) 0 @ ?r) :: bytes result)"
      using assms(1) by (simp add: put_range_def splice_0)
    then show ?thesis unfolding rep by (simp only: append_assoc)
  qed
  have 1: "put_range ([0, 0, 0, 0, 0, 0, 0, 0, 0, 0, 0, 0] @ ?T) 0 [a] =
      (Ok ([a, 0, 0, 0, 0, 0, 0, 0, 0, 0, 0, 0] @ ?T) :: bytes result)"
    by (simp add: put_range_def splice_def)
  have 2: "put_range ([a, 0, 0, 0, 0, 0, 0, 0, 0, 0, 0, 0] @ ?T) 1 [b] =
      (Ok ([a, b, 0, 0, 0, 0, 0, 0, 0, 0, 0, 0] @ ?T) :: bytes result)"
    by (simp add: put_range_def splice_def)
  have 3: "put_range ([a, b, 0, 0, 0, 0, 0, 0, 0, 0, 0, 0] @ ?T) 2 [c] =
      (Ok ([a, b, c, 0, 0, 0, 0, 0, 0, 0, 0, 0] @ ?T) :: bytes result)"
    by (simp add: put_range_def splice_def)
  have 4: "put_range ([a, b, c, 0, 0, 0, 0, 0, 0, 0, 0, 0] @ ?T) 5 [d] =
      (Ok ([a, b, c, 0, 0, d, 0, 0, 0, 0, 0, 0] @ ?T) :: bytes result)"
    by (simp add: put_range_def splice_def)
  have 5: "get_range (w @ pad) 0 (length w) = (Ok w :: bytes result)" by (simp add: get_range_def)
  have 6: "put_range ([a, b, c, 0, 0, d, 0, 0, 0, 0, 0, 0] @ ?T) 12 w =
      (Ok ([a, b, c, 0, 0, d, 0, 0, 0, 0, 0, 0] @ ?U) :: bytes result)"
    by (rule put_range_mid) simp_all
  let ?H = "[a, b, c, 0, 0, d, 0, 0, 0, 0, 0, 0] @ w"
  have q: "qtype = length ?H" by (simp add: qtype_def)
  have 7: "put_range (?H @ [0, 0, 0, 0] @ ?r) qtype [e] = (Ok (?H @ [e, 0, 0, 0] @ ?r) :: bytes result)"
    using put_range_mid [of qtype ?H "[0]" "[e]" "[0, 0, 0] @ ?r"] q by simp
  have 8: "put_range (?H @ [e, 0, 0, 0] @ ?r) (qtype + 1) [f] = (Ok (?H @ [e, f, 0, 0] @ ?r) :: bytes result)"
    using put_range_mid [of "qtype + 1" "?H @ [e]" "[0]" "[f]" "[0, 0] @ ?r"] q by simp
  have 9: "put_range (?H @ [e, f, 0, 0] @ ?r) (qtype + 2) [g] = (Ok (?H @ [e, f, g, 0] @ ?r) :: bytes result)"
    using put_range_mid [of "qtype + 2" "?H @ [e, f]" "[0]" "[g]" "[0] @ ?r"] q by simp
  have 10: "put_range (?H @ [e, f, g, 0] @ ?r) (qtype + 3) [h] = (Ok (?H @ [e, f, g, h] @ ?r) :: bytes result)"
    using put_range_mid [of "qtype + 3" "?H @ [e, f, g]" "[0]" "[h]" "?r"] q by simp
  show ?thesis
    by (simp only: 0 1 2 3 4 5 6 7 [unfolded append_assoc] 8 [unfolded append_assoc]
        9 [unfolded append_assoc] 10 [unfolded append_assoc] and_then.simps append_assoc)
qed

lemma encode_query_layout:
  "encode_query name record_type query_id out =
     (if length out < 12 then (Err EMSGSIZE, out)
      else case write_wire_name name (replicate MAX_NAME_WIRE 0) of
        (Err e, _) \<Rightarrow> (Err e, out)
      | (Panic, _) \<Rightarrow> (Panic, out)
      | (Ok n, _) \<Rightarrow>
          if length out < 12 + n + 4 then (Err EMSGSIZE, out)
          else (Ok (12 + n + 4),
                query_header query_id @ question name record_type @ drop (12 + n + 4) out))"
proof (cases name rule: write_wire_name_scratch_cases)
  case ok
  let ?w = "wire (name_labels name)"
  have c: "Option.bind (checked_add 12 (length ?w)) (\<lambda>v. checked_add v 4) = Some (12 + length ?w + 4)"
    using ok(1) by (simp add: checked_add_def name_ok_def MAX_NAME_WIRE_def)
  show ?thesis
  proof (cases "length out < 12 \<or> length out < 12 + length ?w + 4")
    case True
    then show ?thesis unfolding encode_query_def ok(2) by (auto simp: c)
  next
    case False
    then have le: "12 + length ?w + 4 \<le> length out" by simp
    show ?thesis
      unfolding encode_query_def ok(2) prod.case outcome.case c option.case Let_def encode_query_stores [OF le]
      using False by (simp add: query_header_def question_def u16_to_be_bytes_def CLASS_IN_def)
  qed
next
  case (err e w)
  then show ?thesis by (simp add: encode_query_def)
qed
subsection \<open>Accepting a response\<close>

lemma take_length_eq_le: "take (length u) xs = u \<Longrightarrow> length u \<le> length xs"
  by (metis length_take min.absorb_iff2 min.commute)

lemma take_append_iff:
  "take (length (u @ v)) xs = u @ v \<longleftrightarrow> take (length u) xs = u \<and> take (length v) (drop (length u) xs) = v"
proof
  assume h: "take (length (u @ v)) xs = u @ v"
  then have "length (u @ v) \<le> length xs" by (rule take_length_eq_le)
  with h show "take (length u) xs = u \<and> take (length v) (drop (length u) xs) = v"
    by (auto simp: take_add append_eq_append_conv)
qed (simp add: take_add)

lemma two_byte_field:
  "i + 1 < length packet \<Longrightarrow> take 2 (drop i packet) = [packet ! i, packet ! (i + 1)]"
  by (simp add: numeral_2_eq_2 take_Suc_conv_app_nth)

lemma u16_be_eq_iff: "u16_from_be_bytes a b = x \<longleftrightarrow> [a, b] = u16_to_be_bytes x"
proof
  show "u16_from_be_bytes a b = x \<Longrightarrow> [a, b] = u16_to_be_bytes x" using u16_be_to_from by metis
  show "[a, b] = u16_to_be_bytes x \<Longrightarrow> u16_from_be_bytes a b = x"
    using u16_be_from_to [of x] by (simp add: u16_to_be_bytes_def)
qed

lemma length_u16_to_be_bytes [simp]: "length (u16_to_be_bytes x) = 2"
  by (simp add: u16_to_be_bytes_def)

lemma u16_at_in: "i + 1 < length packet \<Longrightarrow> u16_at packet i = Ok (u16_from_be_bytes (packet ! i) (packet ! (i + 1)))"
  by (simp add: u16_at_def get_byte_Ok)

lemma u16_at_next:
  "i + 1 < length packet \<Longrightarrow> j = i + 1 \<Longrightarrow> u16_at packet i = Ok (u16_from_be_bytes (packet ! i) (packet ! j))"
  by (simp add: u16_at_in)

lemma u16_at_Ok_iff: "u16_at packet i = Ok x \<longleftrightarrow> i + 1 < length packet \<and> take 2 (drop i packet) = u16_to_be_bytes x"
proof (cases "i + 1 < length packet")
  case True
  then show ?thesis by (simp add: u16_at_in two_byte_field u16_be_eq_iff [symmetric])
qed (auto simp: u16_at_def and_then_Ok_conv)

lemma u16_field_iff:
  "i + 1 < length packet \<Longrightarrow>
     u16_from_be_bytes (packet ! i) (packet ! (i + 1)) = x \<longleftrightarrow> take 2 (drop i packet) = u16_to_be_bytes x"
  by (simp add: two_byte_field u16_be_eq_iff)

lemma skip_name_Ok:
  assumes "skip_name packet offset = Ok e" "slice_len_ok packet"
  shows "offset < e" "e \<le> length packet" "\<exists>jumps ls. name_at packet offset jumps ls \<and> jumps + length ls \<le> 128"
  using skip_name_loop_sound [OF assms(2), of offset None 0 e] assms(1) by (auto simp: skip_name_def)

lemma skip_name_no_panic: "slice_len_ok packet \<Longrightarrow> skip_name packet offset \<noteq> Panic"
  by (simp add: skip_name_def skip_name_loop_no_panic)

definition response_header_ok :: "bytes \<Rightarrow> u16 \<Rightarrow> bool" where
  "response_header_ok packet query_id \<longleftrightarrow>
     12 \<le> length packet \<and> take 2 packet = u16_to_be_bytes query_id \<and>
     packet ! 2 AND 0x80 \<noteq> 0 \<and> packet ! 2 AND 0x78 = 0"

definition response_of :: "bytes \<Rightarrow> nat \<Rightarrow> dns_response" where
  "response_of packet question_end =
     \<lparr>dr_packet = packet, dr_answer_offset = question_end,
      dr_answer_count = u16_from_be_bytes (packet ! 6) (packet ! 7),
      dr_response_code = packet ! 3 AND 0x0f, dr_truncated = (packet ! 2 AND 0x02 \<noteq> 0)\<rparr>"

lemma length_question: "length (question name rt) = length (wire (name_labels name)) + 4"
  by (simp add: question_def)

lemma question_prefix:
  "take (length (question name rt)) xs = question name rt \<longleftrightarrow>
     take (length (wire (name_labels name))) xs = wire (name_labels name) \<and>
     take 2 (drop (length (wire (name_labels name))) xs) = u16_to_be_bytes rt \<and>
     take 2 (drop (length (wire (name_labels name)) + 2) xs) = u16_to_be_bytes CLASS_IN"
  unfolding question_def take_append_iff by (simp add: add.commute)

lemma parse_cases:
  assumes sl: "slice_len_ok packet"
  shows "parse packet name rt qid =
    (if \<not> response_header_ok packet qid \<or> take 2 (drop 4 packet) \<noteq> u16_to_be_bytes 1 then Err malformed
     else case write_wire_name name (replicate MAX_NAME_WIRE 0) of
        (Err e, _) \<Rightarrow> Err e
      | (Panic, _) \<Rightarrow> Panic
      | (Ok n, _) \<Rightarrow> (case skip_name packet 12 of
          Err e \<Rightarrow> Err e
        | Panic \<Rightarrow> Panic
        | Ok q \<Rightarrow> if take (length (question name rt)) (drop 12 packet) = question name rt \<and> q = 12 + n
                 then Ok (response_of packet (12 + length (question name rt))) else Err malformed))"
proof (cases "response_header_ok packet qid \<and> take 2 (drop 4 packet) = u16_to_be_bytes 1")
  case False
  then show ?thesis
    by (auto simp: parse_def response_header_ok_def u16_at_in u16_field_iff [of 0, simplified]
        u16_field_iff [of 4, simplified])
next
  case hdr: True
  then have len: "12 \<le> length packet" by (simp add: response_header_ok_def)
  have r: "and_then (u16_at packet 6) (\<lambda>ancount. Ok \<lparr>dr_packet = packet, dr_answer_offset = q + 4,
        dr_answer_count = ancount, dr_response_code = packet ! 3 AND 0x0f,
        dr_truncated = (packet ! 2 AND 0x02 \<noteq> 0)\<rparr>) = Ok (response_of packet (q + 4))" for q
    using len by (simp add: u16_at_in response_of_def)
  have p: "parse packet name rt qid =
     (case write_wire_name name (replicate MAX_NAME_WIRE 0) of
        (Err e, _) \<Rightarrow> Err e
      | (Panic, _) \<Rightarrow> Panic
      | (Ok n, w) \<Rightarrow> and_then (skip_name packet 12) (\<lambda>q.
          if length packet < q + 4 \<or> q - 12 \<noteq> n then Err malformed
          else and_then (get_range packet 12 q) (\<lambda>echoed. and_then (get_range w 0 n) (\<lambda>expected.
            if echoed \<noteq> expected then Err malformed
            else and_then (u16_at packet q) (\<lambda>qt. if qt \<noteq> rt then Err malformed
              else and_then (u16_at packet (q + 2)) (\<lambda>qc. if qc \<noteq> CLASS_IN then Err malformed
                else Ok (response_of packet (q + 4)))))))) "
    using hdr len unfolding parse_def response_header_ok_def r
    by (simp add: u16_at_in u16_field_iff [of 0, simplified] u16_field_iff [of 4, simplified])
  show ?thesis
  proof (cases name rule: write_wire_name_scratch_cases)
    case (err e w)
    then show ?thesis using hdr by (simp add: p)
  next
    case ok
    let ?W = "wire (name_labels name)"
    show ?thesis
    proof (cases "skip_name packet 12")
      case (Ok q)
      then have q: "12 < q" "q \<le> length packet" using skip_name_Ok [OF Ok sl] by auto
      show ?thesis
      proof (cases "length packet < q + 4 \<or> q - 12 \<noteq> length ?W")
        case True
        moreover have "\<not> (take (length (question name rt)) (drop 12 packet) = question name rt \<and> q = 12 + length ?W)"
          using True take_length_eq_le [of "question name rt" "drop 12 packet"] q by (auto simp: length_question)
        ultimately show ?thesis using hdr by (simp add: p ok(2) Ok)
      next
        case False
        then have qe: "q = 12 + length ?W" "q + 4 \<le> length packet" using q by auto
        have g: "get_range packet 12 q = (Ok (take (length ?W) (drop 12 packet)) :: bytes result)"
          "get_range (?W @ replicate (MAX_NAME_WIRE - length ?W) 0) 0 (length ?W) = (Ok ?W :: bytes result)"
          using qe by (simp_all add: get_range_def)
        have f: "u16_from_be_bytes (packet ! q) (packet ! (q + 1)) = rt \<longleftrightarrow> take 2 (drop q packet) = u16_to_be_bytes rt"
          "u16_from_be_bytes (packet ! (q + 2)) (packet ! (q + 2 + 1)) = CLASS_IN \<longleftrightarrow>
             take 2 (drop (q + 2) packet) = u16_to_be_bytes CLASS_IN"
          using qe by (intro u16_field_iff; simp)+
        have d: "drop (length ?W) (drop 12 packet) = drop q packet" "drop (length ?W + 2) (drop 12 packet) = drop (q + 2) packet"
          using qe by (simp_all add: add.commute add.left_commute)
        have e: "12 + length (question name rt) = q + 4" "12 + length ?W = q" "q - 12 = length ?W" "\<not> length packet < q + 4"
          using qe by (simp_all add: length_question)
        show ?thesis
          using hdr qe(2) unfolding p ok(2) Ok question_prefix d
          by (simp add: g u16_at_in f [simplified] e)
      qed
    qed (use hdr in \<open>simp_all add: p ok(2)\<close>)
  qed
qed


lemma take_question_wire:
  "take (length (question name rt)) xs = question name rt \<Longrightarrow>
     take (length (wire (name_labels name))) xs = wire (name_labels name)"
  by (simp add: question_prefix)

lemma skip_question:
  assumes "slice_len_ok packet" "name_ok name" "take (length (question name rt)) (drop 12 packet) = question name rt"
  shows "skip_name packet 12 = Ok (12 + length (wire (name_labels name)))"
  using assms by (intro skip_name_wire take_question_wire) (auto simp: name_ok_def)

lemma parse_Ok_iff:
  assumes "slice_len_ok packet"
  shows "parse packet name rt qid = Ok r \<longleftrightarrow>
     name_ok name \<and> response_header_ok packet qid \<and> take 2 (drop 4 packet) = u16_to_be_bytes 1 \<and>
     take (length (question name rt)) (drop 12 packet) = question name rt \<and>
     r = response_of packet (12 + length (question name rt))"
proof (cases name rule: write_wire_name_scratch_cases)
  case ok
  show ?thesis
  proof (cases "take (length (question name rt)) (drop 12 packet) = question name rt")
    case True
    then show ?thesis
      unfolding parse_cases [OF assms] ok(2) using skip_question [OF assms ok(1) True] ok(1) by auto
  next
    case False
    then show ?thesis
      unfolding parse_cases [OF assms] ok(2) by (auto split: outcome.splits if_splits)
  qed
next
  case (err e w)
  then show ?thesis unfolding parse_cases [OF assms] by auto
qed

lemma parse_no_panic: "slice_len_ok packet \<Longrightarrow> parse packet name rt qid \<noteq> Panic"
  unfolding parse_cases
  by (cases name rule: write_wire_name_scratch_cases)
     (auto simp: skip_name_no_panic split: outcome.split)

subsection \<open>Reading records\<close>

lemma compression_target_Err: "compression_target packet offset = Err e \<Longrightarrow> e = malformed"
  by (auto simp: compression_target_def and_then_Err_conv checked_add_def ok_or_def Let_def split: if_splits)

lemma skip_name_loop_Err:
  "slice_len_ok packet \<Longrightarrow> skip_name_loop packet offset encoded_end steps = Err e \<Longrightarrow> e = malformed"
proof (induction "128 - steps" arbitrary: offset encoded_end steps rule: less_induct)
  case less
  consider (out) "length packet \<le> offset"
    | (pointer) "offset < length packet" "packet ! offset AND 0xc0 = 0xc0"
    | (label) "offset < length packet" "\<not> packet ! offset AND 0xc0 = 0xc0" by linarith
  then show ?case
  proof cases
    case out
    then show ?thesis using less.prems by (simp add: skip_end)
  next
    case pointer
    show ?thesis
    proof (cases "compression_target packet offset")
      case (Ok t)
      show ?thesis
      proof (cases "128 \<le> steps")
        case True
        then show ?thesis using less.prems Ok by (simp add: skip_pointer [OF pointer])
      next
        case False
        then show ?thesis
          using less.prems Ok less.hyps [of "Suc steps" t "Some (case encoded_end of None \<Rightarrow> offset + 2 | Some e \<Rightarrow> e)"]
          by (simp add: skip_pointer [OF pointer])
      qed
    qed (use less.prems compression_target_Err in \<open>auto simp: skip_pointer [OF pointer]\<close>)
  next
    case label
    then show ?thesis using less.prems less.hyps [of "Suc steps" "offset + 1 + unat (packet ! offset)" encoded_end]
      by (auto simp: skip_label [OF label] split: if_splits)
  qed
qed

lemma skip_name_Err: "slice_len_ok packet \<Longrightarrow> skip_name packet offset = Err e \<Longrightarrow> e = malformed"
  unfolding skip_name_def by (rule skip_name_loop_Err)

lemma record_at_eq:
  assumes "slice_len_ok packet"
  shows "record_at packet offset =
    (case skip_name packet offset of
       Ok q \<Rightarrow>
         let len = unat (u16_from_be_bytes (packet ! (q + 8)) (packet ! (q + 9))) in
         if q + 10 + len \<le> length packet \<and> q + 10 \<le> length packet
         then Ok (u16_from_be_bytes (packet ! q) (packet ! (q + 1)),
                  u16_from_be_bytes (packet ! (q + 2)) (packet ! (q + 3)), q + 10, len)
         else Err malformed
     | _ \<Rightarrow> Err malformed)"
proof (cases "skip_name packet offset")
  case (Ok q)
  show ?thesis
  proof (cases "q + 10 \<le> length packet")
    case True
    have c: "checked_add (q + 10) (unat l) = Some (q + 10 + unat l)" for l :: u16
      using True assms unat_u16_less [of l] by (simp add: checked_add_def slice_len_ok_def)
    have u: "u16_at packet q = Ok (u16_from_be_bytes (packet ! q) (packet ! (q + 1)))"
      "u16_at packet (q + 2) = Ok (u16_from_be_bytes (packet ! (q + 2)) (packet ! (q + 3)))"
      "u16_at packet (q + 8) = Ok (u16_from_be_bytes (packet ! (q + 8)) (packet ! (q + 9)))"
      using True by (auto intro!: u16_at_next)
    show ?thesis using True unfolding record_at_def Ok and_then.simps u
      by (simp add: c Let_def)
  qed (simp add: record_at_def Ok)
next
  case (Err e)
  then show ?thesis using skip_name_Err [OF assms Err] by (simp add: record_at_def)
next
  case Panic
  then show ?thesis using skip_name_no_panic [OF assms] by simp
qed


text \<open>The reference: the records in order, as far as they are readable, and whether all of them were.\<close>

fun read_records :: "nat \<Rightarrow> bytes \<Rightarrow> nat \<Rightarrow> (u16 \<times> u16 \<times> nat \<times> nat) list \<times> bool" where
  "read_records 0 packet offset = ([], True)"
| "read_records (Suc n) packet offset =
     (case record_at packet offset of
        Ok (kind, cls, data, len) \<Rightarrow>
          let (rs, complete) = read_records n packet (data + len) in ((kind, cls, data, len) # rs, complete)
      | _ \<Rightarrow> ([], False))"

definition matching :: "u16 \<Rightarrow> (u16 \<times> u16 \<times> nat \<times> nat) list \<Rightarrow> (u16 \<times> u16 \<times> nat \<times> nat) list" where
  "matching rt rs = filter (\<lambda>(kind, cls, _, _). kind = rt \<and> cls = CLASS_IN) rs"

definition copy_answer :: "bytes \<Rightarrow> u16 \<Rightarrow> u16 \<times> u16 \<times> nat \<times> nat \<Rightarrow> bytes \<Rightarrow> nat option result \<times> bytes" where
  "copy_answer packet rt answer out =
     (case answer of (_, _, data, len) \<Rightarrow>
        if rt = TYPE_CNAME \<or> rt = TYPE_PTR then
          (case expand_name packet data out of
             (Ok n, out') \<Rightarrow> (Ok (Some n), out')
           | (Err e, out') \<Rightarrow> (Err e, out')
           | (Panic, out') \<Rightarrow> (Panic, out'))
        else if length out < len then (Err EMSGSIZE, out)
        else (Ok (Some len), take len (drop data packet) @ drop len out))"

lemma record_at_Ok_bounds:
  assumes "slice_len_ok packet" "record_at packet offset = Ok (kind, cls, data, len)"
  shows "offset + 10 < data \<and> data + len \<le> length packet"
proof (cases "skip_name packet offset")
  case (Ok q)
  then show ?thesis using assms skip_name_Ok(1) [OF Ok assms(1)]
    by (auto simp: record_at_eq Let_def split: if_splits)
qed (use assms in \<open>auto simp: record_at_eq\<close>)

lemma record_at_not_Ok: "slice_len_ok packet \<Longrightarrow> record_at packet offset = Err e \<Longrightarrow> e = malformed"
  "slice_len_ok packet \<Longrightarrow> record_at packet offset \<noteq> Panic"
  by (auto simp: record_at_eq Let_def split: outcome.splits if_splits)

lemma rdata_loop_step:
  assumes "record_at packet offset = Ok (kind, cls, data, len)" "data + len \<le> length packet"
  shows "rdata_loop (Suc n) packet offset rt ordinal found out =
    (if kind = rt \<and> cls = CLASS_IN \<and> found = ordinal then copy_answer packet rt (kind, cls, data, len) out
     else rdata_loop n packet (data + len) rt ordinal (if kind = rt \<and> cls = CLASS_IN then found + 1 else found) out)"
proof -
  have "and_then (get_range packet data (data + len)) (put_range out 0) =
     (Ok (take len (drop data packet) @ drop len out) :: bytes result)" if "len \<le> length out"
    using that assms(2) by (simp add: get_range_Ok put_range_Ok splice_0)
  then show ?thesis by (simp add: assms(1) copy_answer_def)
qed

lemma rdata_loop_reference:
  assumes "slice_len_ok packet"
  shows "rdata_loop n packet offset rt (found + k) found out =
     (let (rs, complete) = read_records n packet offset; ms = matching rt rs in
      if k < length ms then copy_answer packet rt (ms ! k) out
      else if complete then (Ok None, out) else (Err malformed, out))"
proof (induction n arbitrary: offset found k)
  case 0
  then show ?case by (simp add: matching_def)
next
  case (Suc n)
  show ?case
  proof (cases "record_at packet offset")
    case (Ok r)
    then obtain kind cls data len where r: "record_at packet offset = Ok (kind, cls, data, len)" by (cases r) auto
    have b: "data + len \<le> length packet" using record_at_Ok_bounds [OF assms r] by simp
    obtain rs complete where rec: "read_records n packet (data + len) = (rs, complete)" by fastforce
    have rec': "read_records (Suc n) packet offset = ((kind, cls, data, len) # rs, complete)"
      by (simp add: r rec)
    show ?thesis
    proof (cases "kind = rt \<and> cls = CLASS_IN")
      case m: True
      then have ms: "matching rt ((kind, cls, data, len) # rs) = (kind, cls, data, len) # matching rt rs"
        by (simp add: matching_def)
      show ?thesis
      proof (cases k)
        case 0
        then show ?thesis unfolding rdata_loop_step [OF r b] rec' prod.case Let_def ms using m by simp
      next
        case (Suc k')
        have "rdata_loop (Suc n) packet offset rt (found + k) found out =
            rdata_loop n packet (data + len) rt (Suc found + k') (Suc found) out"
          unfolding rdata_loop_step [OF r b] using m Suc by simp
        then show ?thesis unfolding Suc.IH [of "data + len" "Suc found" k'] rec rec' prod.case Let_def ms using Suc
          by simp
      qed
    next
      case False
      then have ms: "matching rt ((kind, cls, data, len) # rs) = matching rt rs"
        by (auto simp: matching_def)
      have "rdata_loop (Suc n) packet offset rt (found + k) found out =
            rdata_loop n packet (data + len) rt (found + k) found out"
        unfolding rdata_loop_step [OF r b] using False by auto
      then show ?thesis unfolding Suc.IH [of "data + len" found k] rec rec' prod.case Let_def ms by simp
    qed
  next
    case (Err e)
    then show ?thesis using record_at_not_Ok(1) [OF assms Err] by (simp add: matching_def)
  next
    case Panic
    then show ?thesis using record_at_not_Ok(2) [OF assms] by blast
  qed
qed

lemma read_records_bounds:
  "slice_len_ok packet \<Longrightarrow> read_records n packet offset = (rs, complete) \<Longrightarrow>
     list_all (\<lambda>(_, _, data, len). data + len \<le> length packet) rs"
proof (induction n arbitrary: offset rs)
  case (Suc n)
  show ?case
  proof (cases "record_at packet offset")
    case (Ok r)
    then obtain kind cls data len where r: "record_at packet offset = Ok (kind, cls, data, len)" by (cases r) auto
    obtain rs' c' where rec: "read_records n packet (data + len) = (rs', c')" by fastforce
    with Suc.prems r have "rs = (kind, cls, data, len) # rs'" "c' = complete" by auto
    with Suc.IH [OF Suc.prems(1)] rec record_at_Ok_bounds [OF Suc.prems(1) r] show ?thesis by auto
  qed (use Suc.prems in auto)
qed simp

subsection \<open>Complete records\<close>

lemma skip_records_eq:
  assumes "slice_len_ok packet"
  shows "skip_records n packet offset =
    (case read_records n packet offset of
       (rs, True) \<Rightarrow> Ok (Some (if rs = [] then offset else (case last rs of (_, _, data, len) \<Rightarrow> data + len)))
     | (_, False) \<Rightarrow> Ok None)"
proof (induction n arbitrary: offset)
  case (Suc n)
  show ?case
  proof (cases "skip_name packet offset")
    case (Ok q)
    let ?l = "unat (u16_from_be_bytes (packet ! (q + 8)) (packet ! (q + 9)))"
    have q: "q \<le> length packet" using skip_name_Ok [OF Ok assms] by simp
    have c: "checked_add q 10 = Some (q + 10)" "q + 10 \<le> length packet \<Longrightarrow> checked_add (q + 10) ?l = Some (q + 10 + ?l)"
      using q assms unat_u16_less [of "u16_from_be_bytes (packet ! (q + 8)) (packet ! (q + 9))"]
      by (simp_all add: checked_add_def slice_len_ok_def)
    have u: "q + 10 \<le> length packet \<Longrightarrow>
        u16_at packet (q + 8) = Ok (u16_from_be_bytes (packet ! (q + 8)) (packet ! (q + 9)))"
      by (auto intro!: u16_at_next)
    show ?thesis
    proof (cases "q + 10 + ?l \<le> length packet")
      case True
      then have "skip_records (Suc n) packet offset = skip_records n packet (q + 10 + ?l)"
        using c u by (simp add: Ok)
      then show ?thesis
        unfolding Suc.IH using True Ok
        by (auto simp: record_at_eq [OF assms] Let_def split: prod.splits bool.splits)
    next
      case False
      then have "skip_records (Suc n) packet offset = Ok None"
        using c u by (cases "q + 10 \<le> length packet") (simp_all add: Ok)
      then show ?thesis using False Ok by (simp add: record_at_eq [OF assms] Let_def)
    qed
  qed (use skip_name_no_panic [OF assms] in \<open>auto simp: record_at_eq [OF assms]\<close>)
qed simp


lemma complete_records_read:
  assumes "slice_len_ok packet" "12 \<le> length packet" "has_complete_records packet offset = Ok True"
  shows "snd (read_records (unat (u16_from_be_bytes (packet ! 6) (packet ! 7))) packet offset)"
proof -
  let ?n = "unat (u16_from_be_bytes (packet ! 6) (packet ! 7))"
  have u: "u16_at packet 6 = Ok (u16_from_be_bytes (packet ! 6) (packet ! 7))"
    using assms(2) by (intro u16_at_next) auto
  obtain e where "skip_sections [6, 8, 10] packet offset = Ok (Some e)"
    using assms(3) by (auto simp: has_complete_records_def and_then_Ok_conv)
  then obtain o' where "skip_records ?n packet offset = Ok (Some o')"
    unfolding skip_sections.simps(2) [of 6] u by (auto simp: and_then_Ok_conv split: option.splits)
  then show ?thesis by (auto simp: skip_records_eq [OF assms(1)] split: prod.splits bool.splits)
qed

lemma one_question_end_Ok_iff:
  assumes "slice_len_ok packet"
  shows "one_question_end packet = Ok e \<longleftrightarrow>
    12 \<le> length packet \<and> take 2 (drop 4 packet) = u16_to_be_bytes 1 \<and>
    (\<exists>q. skip_name packet 12 = Ok q \<and> e = q + 4 \<and> e \<le> length packet)"
proof (cases "12 \<le> length packet \<and> take 2 (drop 4 packet) = u16_to_be_bytes 1")
  case True
  then have u: "u16_at packet 4 = Ok 1" by (simp add: u16_at_Ok_iff)
  have c: "checked_add q 4 = Some (q + 4)" if "skip_name packet 12 = Ok q" for q
    using skip_name_Ok(2) [OF that assms] assms by (simp add: checked_add_def slice_len_ok_def)
  show ?thesis using True c by (auto simp: one_question_end_def u and_then_Ok_conv not_less split: if_splits)
next
  case False
  then show ?thesis
    by (auto simp: one_question_end_def and_then_Ok_conv u16_at_Ok_iff)
qed

lemma one_question_end_no_panic: "slice_len_ok packet \<Longrightarrow> one_question_end packet \<noteq> Panic"
  using skip_name_no_panic [of packet 12]
  by (auto simp: one_question_end_def and_then_Panic_conv u16_at_def ok_or_def split: option.splits)

lemma one_question_end_query:
  assumes "name_ok name" "query = query_header qid @ question name rt"
  shows "one_question_end query = Ok (length query)"
proof -
  have l: "length query = 12 + length (question name rt)"
    by (simp add: assms(2) query_header_def u16_to_be_bytes_def)
  have sl: "slice_len_ok query"
    using assms(1) unfolding slice_len_ok_def l length_question by (simp add: name_ok_def MAX_NAME_WIRE_def)
  have d: "drop 12 query = question name rt" by (simp add: assms(2) query_header_def u16_to_be_bytes_def)
  have "skip_name query 12 = Ok (12 + length (wire (name_labels name)))"
    using assms(1) d by (intro skip_question [OF sl, where rt = rt]) auto
  moreover have "take 2 (drop 4 query) = u16_to_be_bytes 1"
    by (simp add: assms(2) query_header_def u16_to_be_bytes_def)
  ultimately show ?thesis
    unfolding one_question_end_Ok_iff [OF sl] by (simp add: l length_question)
qed

lemma matching_question_end_eq:
  assumes "slice_len_ok packet" "name_ok name" "query = query_header qid @ question name rt"
  shows "matching_question_end packet query qid =
     Ok (if response_header_ok packet qid \<and> take 2 (drop 4 packet) = u16_to_be_bytes 1 \<and>
            take (length (question name rt)) (drop 12 packet) = question name rt
         then Some (12 + length (question name rt)) else None)"
proof (cases "response_header_ok packet qid")
  case False
  then show ?thesis
    by (auto simp: matching_question_end_def response_header_ok_def u16_at_in u16_field_iff [of 0, simplified])
next
  case hdr: True
  let ?Q = "question name rt"
  have l: "length query = 12 + length ?Q" by (simp add: assms(3) query_header_def u16_to_be_bytes_def)
  have g: "get_range query 12 (length query) = (Ok ?Q :: bytes result)"
    using l by (simp add: get_range_def) (simp add: assms(3) query_header_def u16_to_be_bytes_def)
  note qe = one_question_end_query [OF assms(2,3)]
  have m: "matching_question_end packet query qid =
     (case one_question_end packet of
        Panic \<Rightarrow> Panic | Err _ \<Rightarrow> Ok None
      | Ok e \<Rightarrow> and_then (get_range packet 12 e) (\<lambda>echoed. if echoed \<noteq> ?Q then Ok None else Ok (Some e)))"
    using hdr unfolding matching_question_end_def qe outcome.case(1) g and_then.simps(1)
    by (simp add: response_header_ok_def u16_at_in u16_field_iff [of 0, simplified] g)
  show ?thesis
  proof (cases "one_question_end packet")
    case (Ok e)
    then obtain q where q: "skip_name packet 12 = Ok q" "e = q + 4" "e \<le> length packet"
      "take 2 (drop 4 packet) = u16_to_be_bytes 1" unfolding one_question_end_Ok_iff [OF assms(1)] by blast
    have "12 < q" using skip_name_Ok [OF q(1) assms(1)] by simp
    then have r: "get_range packet 12 e = (Ok (take (e - 12) (drop 12 packet)) :: bytes result)"
      using q by (simp add: get_range_def)
    have len: "length (take (e - 12) (drop 12 packet)) = e - 12" using q(3) by simp
    have "take (e - 12) (drop 12 packet) = ?Q \<longleftrightarrow> take (length ?Q) (drop 12 packet) = ?Q \<and> e = 12 + length ?Q"
    proof
      assume h: "take (e - 12) (drop 12 packet) = ?Q"
      then have "e - 12 = length ?Q" using len by simp
      then show "take (length ?Q) (drop 12 packet) = ?Q \<and> e = 12 + length ?Q" using h \<open>12 < q\<close> q(2) by auto
    qed auto
    moreover have "e = 12 + length ?Q" if "take (length ?Q) (drop 12 packet) = ?Q"
      using skip_question [OF assms(1,2) that] q(1,2) by (simp add: length_question)
    ultimately show ?thesis unfolding m Ok using hdr q(4) by (simp add: r)
  next
    case (Err x)
    then have "\<not> (take 2 (drop 4 packet) = u16_to_be_bytes 1 \<and> take (length ?Q) (drop 12 packet) = ?Q)"
      using one_question_end_Ok_iff [OF assms(1), of "12 + length ?Q"] skip_question [OF assms(1,2), of rt] hdr
        take_length_eq_le [of ?Q "drop 12 packet"]
      by (auto simp: response_header_ok_def length_question)
    then show ?thesis unfolding m Err by simp
  next
    case Panic
    then show ?thesis using one_question_end_no_panic [OF assms(1)] by blast
  qed
qed

lemma encode_query_Ok_iff:
  "encode_query name rt qid out = (Ok n, out') \<longleftrightarrow>
     name_ok name \<and> n = 12 + length (question name rt) \<and> n \<le> length out \<and>
     out' = query_header qid @ question name rt @ drop n out"
  by (cases name rule: write_wire_name_scratch_cases)
     (auto simp: encode_query_layout length_question)
end
