(* ===== verification/DnsProps.thy ===== *)
theory DnsProps
  imports DnsMessage
begin

text \<open>
  The properties of the DNS wire layer, over the definitions of theory \<open>Dns\<close>. The sample
  messages are the ones the witnesses use.
\<close>

subsection \<open>Sample messages\<close>

text \<open>The name \<open>ab.c\<close>, its query and an answer with one A record whose owner is a
  compression pointer to the question.\<close>

definition sample_name :: bytes where "sample_name = [97, 98, 46, 99]"

definition sample_query :: bytes where
  "sample_query = [0x12, 0x34, 1, 0, 0, 1, 0, 0, 0, 0, 0, 0, 2, 97, 98, 1, 99, 0, 0, 1, 0, 1]"

definition sample_response :: bytes where
  "sample_response = [0x12, 0x34, 0x81, 0, 0, 1, 0, 1, 0, 0, 0, 0, 2, 97, 98, 1, 99, 0, 0, 1, 0, 1,
     0xc0, 12, 0, 1, 0, 1, 0, 0, 0, 60, 0, 4, 10, 0, 0, 1]"

lemma sample_labels: "name_labels sample_name = [[97, 98], [99]]"
  by (simp add: name_labels_def sample_name_def strip_last_def)

lemma sample_name_ok: "name_ok sample_name"
  by (simp add: name_ok_def sample_labels) (simp add: sample_name_def label_ok_def MAX_NAME_WIRE_def)

lemma sample_encode:
  "encode_query sample_name TYPE_A 0x1234 (replicate 22 0 @ [7, 7]) = (Ok 22, sample_query @ [7, 7])"
  unfolding encode_query_Ok_iff
  by (simp add: sample_name_ok question_def sample_labels query_header_def u16_to_be_bytes_def TYPE_A_def CLASS_IN_def
      sample_query_def)

lemma sample_len: "slice_len_ok sample_response" "length sample_response = 38"
  by (simp_all add: slice_len_ok_def sample_response_def)


lemma sample_pointer: "compression_target sample_response 22 = Ok 12"
  by (simp add: compression_target_def checked_add_def sample_len get_byte_Ok Let_def)
     (simp add: sample_response_def)

lemma sample_bytes:
  "sample_response ! 22 = 0xc0" "sample_response ! 12 = 2" "sample_response ! 15 = 1" "sample_response ! 17 = 0"
  by (simp_all add: sample_response_def)

lemma sample_skip: "skip_name sample_response 22 = Ok 24"
proof -
  have "skip_name sample_response 22 = skip_name_loop sample_response 12 (Some 24) 1"
    by (simp add: skip_name_def skip_pointer [OF _ _ sample_len(1)] sample_len sample_bytes sample_pointer)
  also have "\<dots> = skip_name_loop sample_response 15 (Some 24) (Suc 1)"
    by (subst skip_label [OF _ _ sample_len(1)]) (simp_all add: sample_len sample_bytes)
  also have "\<dots> = skip_name_loop sample_response 17 (Some 24) (Suc (Suc 1))"
    by (subst skip_label [OF _ _ sample_len(1)]) (simp_all add: sample_len sample_bytes)
  also have "\<dots> = Ok 24"
    by (subst skip_label [OF _ _ sample_len(1)]) (simp_all add: sample_len sample_bytes)
  finally show ?thesis .
qed

lemma sample_query_layout: "sample_query = query_header 0x1234 @ question sample_name TYPE_A"
  by (simp add: question_def sample_labels query_header_def u16_to_be_bytes_def TYPE_A_def CLASS_IN_def sample_query_def)

lemma sample_records:
  "read_records (Suc 0) sample_response 22 = ([(TYPE_A, CLASS_IN, 34, 4)], True)"
  unfolding read_records.simps record_at_eq [OF sample_len(1)] sample_skip
  by (simp add: sample_response_def u16_from_be_bytes_def TYPE_A_def CLASS_IN_def)

lemma sample_complete: "has_complete_records sample_response 22 = Ok True"
proof -
  have u: "u16_at sample_response 6 = Ok 1" "u16_at sample_response 8 = Ok 0" "u16_at sample_response 10 = Ok 0"
    by (simp_all add: u16_at_def get_byte_Ok sample_len) (simp_all add: sample_response_def u16_from_be_bytes_def)
  show ?thesis
    unfolding has_complete_records_def skip_sections.simps u
    by (simp add: skip_records_eq [OF sample_len(1)] sample_records sample_len del: read_records.simps(2))
qed

lemma sample_parse: "parse sample_response sample_name TYPE_A 0x1234 = Ok (response_of sample_response 22)"
proof -
  have "length (question sample_name TYPE_A) = 10" by (simp add: length_question sample_labels)
  moreover have "take 10 (drop 12 sample_response) = question sample_name TYPE_A"
    by (simp add: question_def sample_labels u16_to_be_bytes_def TYPE_A_def CLASS_IN_def sample_response_def)
  moreover have "response_header_ok sample_response 0x1234"
    by (simp add: response_header_ok_def sample_response_def u16_to_be_bytes_def)
  moreover have "take 2 (drop 4 sample_response) = u16_to_be_bytes 1"
    by (simp add: sample_response_def u16_to_be_bytes_def)
  ultimately show ?thesis
    unfolding parse_Ok_iff [OF sample_len(1)] by (simp add: sample_name_ok)
qed


subsection \<open>Names\<close>

lemma name_labels_nonempty:
  assumes "name \<noteq> []"
  shows "name_labels name \<noteq> []"
proof
  let ?fs = "delim_fields (\<lambda>b. b = 46) name"
  assume "name_labels name = []"
  then have "butlast ?fs = []" "last ?fs = []"
    by (auto simp: name_labels_def strip_last_def split: if_splits)
  then have "?fs = [[]]" using append_butlast_last_id [of ?fs] by simp
  then have "name = []" using dotted_delim_fields [OF assms] by (simp add: dotted_tail_def)
  with assms show False by simp
qed




text \<open>C18. Writing a dotted name succeeds exactly when the name is non-empty, every label between dots (one
  trailing dot aside) has 1 to 63 bytes and the wire form fits; it then writes the wire form and nothing else.
  Wherever that wire form of at most 256 bytes stands in a packet, skipping it ends right after it and expanding it
  gives the name back without its trailing dot.\<close>

theorem wire_name_roundtrip:
  assumes "slice_len_ok out"
  shows "(write_wire_name name out = (Ok n, out') \<longleftrightarrow>
      name \<noteq> [] \<and> list_all label_ok (name_labels name) \<and> n = length (wire (name_labels name)) \<and> n \<le> length out \<and>
      out' = wire (name_labels name) @ drop n out) \<and>
    (write_wire_name name out = (Ok n, out') \<longrightarrow> n \<le> MAX_NAME_WIRE \<longrightarrow> slice_len_ok packet \<longrightarrow>
      take n (drop off packet) = take n out' \<longrightarrow> length (name_text name) < length buf \<longrightarrow>
      skip_name packet off = Ok (off + n) \<and>
      expand_name packet off buf =
        (Ok (length (name_text name)), name_text name @ drop (length (name_text name)) buf))"
proof (intro conjI impI)
  show iff: "write_wire_name name out = (Ok n, out') \<longleftrightarrow>
      name \<noteq> [] \<and> list_all label_ok (name_labels name) \<and> n = length (wire (name_labels name)) \<and> n \<le> length out \<and>
      out' = wire (name_labels name) @ drop n out"
    unfolding write_wire_name_iff [OF assms] by auto
  assume wr: "write_wire_name name out = (Ok n, out')" and m: "n \<le> MAX_NAME_WIRE" "slice_len_ok packet"
    and t: "take n (drop off packet) = take n out'" and b: "length (name_text name) < length buf"
  from wr have w: "name \<noteq> []" "list_all label_ok (name_labels name)" "n = length (wire (name_labels name))"
      "take n out' = wire (name_labels name)" unfolding iff by simp_all
  have p: "take (length (wire (name_labels name))) (drop off packet) = wire (name_labels name)" using t w by simp
  show "skip_name packet off = Ok (off + n)" using skip_name_wire [OF p w(2) m(2)] w(3) m(1) by simp
  have d: "dotted (name_labels name) = name_text name"
    using w(1) name_labels_nonempty [OF w(1)] by (rule dotted_name_labels)
  show "expand_name packet off buf =
        (Ok (length (name_text name)), name_text name @ drop (length (name_text name)) buf)"
    using expand_name_wire [OF p w(2), of buf] b by (simp add: d)
qed


lemma sample_write:
  "write_wire_name sample_name [9, 9, 9, 9, 9, 9, 9] = (Ok 6, [2, 97, 98, 1, 99, 0, 9])"
  by (subst write_wire_name_iff) (simp_all add: sample_labels slice_len_ok_def label_ok_def, simp add: sample_name_def)

theorem wire_name_roundtrip_witness:
  "skip_name sample_query 12 = Ok 18 \<and> expand_name sample_query 12 [0, 0, 0, 0, 7] = (Ok 4, [97, 98, 46, 99, 7])"
proof -
  have t: "name_text sample_name = [97, 98, 46, 99]" by (simp add: name_text_def sample_name_def)
  have "slice_len_ok [9, 9, 9, 9, 9, 9, 9 :: u8]" "slice_len_ok sample_query"
    by (simp_all add: slice_len_ok_def sample_query_def)
  moreover have "take 6 (drop 12 sample_query) = take 6 [2, 97, 98, 1, 99, 0, 9]"
    by (simp add: sample_query_def)
  ultimately show ?thesis
    using wire_name_roundtrip [of "[9, 9, 9, 9, 9, 9, 9]" sample_name 6 "[2, 97, 98, 1, 99, 0, 9]" sample_query 12 "[0, 0, 0, 0, 7]"]
    by (simp add: sample_write t MAX_NAME_WIRE_def)
qed

subsection \<open>Queries and responses\<close>

text \<open>C22. \<open>encode_query\<close> never panics. It succeeds exactly when the name can be written in 256 bytes and the
  message fits, and then writes the header with the recursion-desired flag and one question, followed by the old
  contents; on every error the buffer is unchanged, and a message that does not fit is reported as \<open>EMSGSIZE\<close>.\<close>

theorem encode_query_spec:
  "fst (encode_query name rt qid out) \<noteq> Panic \<and>
   (\<forall>n. fst (encode_query name rt qid out) = Ok n \<longleftrightarrow>
      name_ok name \<and> n = 12 + length (question name rt) \<and> n \<le> length out) \<and>
   snd (encode_query name rt qid out) =
     (if name_ok name \<and> 12 + length (question name rt) \<le> length out
      then query_header qid @ question name rt @ drop (12 + length (question name rt)) out else out) \<and>
   (\<not> 12 + length (question name rt) \<le> length out \<and> name_ok name \<longleftrightarrow>
      name_ok name \<and> fst (encode_query name rt qid out) = Err EMSGSIZE)"
  by (cases name rule: write_wire_name_scratch_cases)
     (auto simp: encode_query_layout length_question)

text \<open>C15. A response is accepted exactly when it answers the query that was encoded: for the message
  \<open>encode_query\<close> wrote, \<open>parse\<close> returns a response if and only if the packet carries the query's
  identifier, the response flag with opcode zero, a question count of one and, byte for byte, the query's question;
  the returned view then starts right after the question. \<open>parse\<close> never panics, whatever the packet.\<close>

theorem parse_accepts_echo:
  assumes "encode_query name rt qid out = (Ok n, out')" and "slice_len_ok packet"
  shows "parse packet name rt qid \<noteq> Panic \<and>
    (parse packet name rt qid = Ok r \<longleftrightarrow>
      response_header_ok packet qid \<and> take 2 (drop 4 packet) = take 2 (drop 4 out') \<and>
      take (n - 12) (drop 12 packet) = take (n - 12) (drop 12 out') \<and> r = response_of packet n)"
proof -
  have e: "name_ok name" "n = 12 + length (question name rt)"
    "out' = query_header qid @ question name rt @ drop n out" using assms(1) unfolding encode_query_Ok_iff by auto
  have h: "length (query_header qid) = 12" "take 2 (drop 4 (query_header qid)) = u16_to_be_bytes 1"
    by (simp_all add: query_header_def u16_to_be_bytes_def)
  have "take 2 (drop 4 out') = u16_to_be_bytes 1" "take (n - 12) (drop 12 out') = question name rt"
    using h by (simp_all add: e(2,3))
  then show ?thesis
    using parse_no_panic [OF assms(2)] parse_Ok_iff [OF assms(2)] e(1,2) by auto
qed

theorem parse_accepts_echo_witness:
  "encode_query sample_name TYPE_A 0x1234 (replicate 22 0 @ [7, 7]) = (Ok 22, sample_query @ [7, 7]) \<and>
   response_header_ok sample_response 0x1234 \<and> take 10 (drop 12 sample_response) = take 10 (drop 12 (sample_query @ [7, 7]))"
  using parse_accepts_echo [OF sample_encode sample_len(1), of "response_of sample_response 22"] sample_parse sample_encode
  by simp

text \<open>C16. The transport's correlation check and the response parser agree: against the query \<open>encode_query\<close>
  wrote, \<open>matching_question_end\<close> accepts a packet if and only if \<open>parse\<close> does, with the same end of
  question; it never panics.\<close>

theorem matching_question_agrees_parse:
  assumes "encode_query name rt qid out = (Ok n, out')" and "slice_len_ok packet"
  shows "matching_question_end packet (take n out') qid =
     Ok (case parse packet name rt qid of Ok r \<Rightarrow> Some (dr_answer_offset r) | _ \<Rightarrow> None)"
proof -
  have e: "name_ok name" "n = 12 + length (question name rt)"
    "out' = query_header qid @ question name rt @ drop n out" using assms(1) unfolding encode_query_Ok_iff by auto
  have "length (query_header qid) = 12" by (simp add: query_header_def u16_to_be_bytes_def)
  then have q: "take n out' = query_header qid @ question name rt" by (simp add: e(2,3))
  show ?thesis
  proof (cases "parse packet name rt qid")
    case (Ok r)
    then have "response_header_ok packet qid \<and> take 2 (drop 4 packet) = u16_to_be_bytes 1 \<and>
        take (length (question name rt)) (drop 12 packet) = question name rt"
      "dr_answer_offset r = 12 + length (question name rt)"
      unfolding parse_Ok_iff [OF assms(2)] by (simp_all add: response_of_def)
    then show ?thesis unfolding matching_question_end_eq [OF assms(2) e(1) q] Ok by simp
  next
    case (Err x)
    then have "\<not> (response_header_ok packet qid \<and> take 2 (drop 4 packet) = u16_to_be_bytes 1 \<and>
        take (length (question name rt)) (drop 12 packet) = question name rt)"
      using e(1) parse_Ok_iff [OF assms(2), of name rt qid "response_of packet (12 + length (question name rt))"] by auto
    then show ?thesis unfolding matching_question_end_eq [OF assms(2) e(1) q] Err by simp
  next
    case Panic
    then show ?thesis using parse_no_panic [OF assms(2)] by blast
  qed
qed

theorem matching_question_agrees_parse_witness:
  "matching_question_end sample_response sample_query 0x1234 = Ok (Some 22)"
  using matching_question_agrees_parse [OF sample_encode sample_len(1)] sample_parse
  by (simp add: response_of_def sample_query_def)

text \<open>C17. \<open>rdata_at\<close> selects the record a straightforward reading of the answer section gives: with
  \<open>read_records\<close> the records in order (as far as they are well formed), it copies the data of the \<open>k\<close>-th record of
  the requested type and class IN, or expands the name for CNAME and PTR; with fewer than \<open>k + 1\<close> such records it
  returns \<open>None\<close>, or the malformed-message error if the section was cut. Every record it uses lies inside the
  packet, and records after the selected one are not inspected.\<close>

theorem rdata_at_reference:
  assumes "slice_len_ok (dr_packet resp)"
  shows "rdata_at resp rt k out =
     (let (rs, complete) = read_records (unat (dr_answer_count resp)) (dr_packet resp) (dr_answer_offset resp);
          ms = matching rt rs
      in if k < length ms then copy_answer (dr_packet resp) rt (ms ! k) out
         else if complete then (Ok None, out) else (Err malformed, out)) \<and>
    list_all (\<lambda>(_, _, data, len). data + len \<le> length (dr_packet resp))
      (fst (read_records (unat (dr_answer_count resp)) (dr_packet resp) (dr_answer_offset resp)))"
  using rdata_loop_reference [OF assms, of "unat (dr_answer_count resp)" "dr_answer_offset resp" rt 0 k out]
    read_records_bounds [OF assms, of "unat (dr_answer_count resp)" "dr_answer_offset resp"]
  by (auto simp: rdata_at_def split: prod.splits)

theorem rdata_at_reference_witness:
  "rdata_at (response_of sample_response 22) TYPE_A 0 [9, 9, 9, 9, 9] = (Ok (Some 4), [10, 0, 0, 1, 9])"
proof -
  have c: "unat (dr_answer_count (response_of sample_response 22)) = Suc 0"
    by (simp add: response_of_def sample_response_def u16_from_be_bytes_def)
  have p: "dr_packet (response_of sample_response 22) = sample_response"
    "dr_answer_offset (response_of sample_response 22) = 22" by (simp_all add: response_of_def)
  have "slice_len_ok (dr_packet (response_of sample_response 22))" using sample_len by (simp add: p)
  from rdata_at_reference [OF this, of TYPE_A 0 "[9, 9, 9, 9, 9]"] show ?thesis
    unfolding c p sample_records
    by (simp add: matching_def copy_answer_def TYPE_A_def TYPE_CNAME_def TYPE_PTR_def CLASS_IN_def sample_response_def)
qed

text \<open>C21. The completeness check of the exchange is what its callers need: in an accepted response whose
  declared records are all complete, reading an address record can only find it, find none, or run out of
  buffer; it never reports a malformed message and never panics.\<close>

theorem complete_records_readable:
  assumes "slice_len_ok packet" and "parse packet name qt qid = Ok r"
    and "has_complete_records packet (dr_answer_offset r) = Ok True"
    and "rt \<noteq> TYPE_CNAME" "rt \<noteq> TYPE_PTR"
  shows "fst (rdata_at r rt k out) \<in> {Ok None, Err EMSGSIZE} \<union> {Ok (Some len) | len. len \<le> length out}"
proof -
  have r: "r = response_of packet (12 + length (question name qt))" "12 \<le> length packet"
    using assms(2) unfolding parse_Ok_iff [OF assms(1)] by (auto simp: response_header_ok_def)
  have p: "dr_packet r = packet" "dr_answer_count r = u16_from_be_bytes (packet ! 6) (packet ! 7)"
    by (simp_all add: r(1) response_of_def)
  obtain rs complete where rec: "read_records (unat (dr_answer_count r)) packet (dr_answer_offset r) = (rs, complete)"
    by fastforce
  have complete using complete_records_read [OF assms(1) r(2) assms(3)] rec by (simp add: p)
  then have "rdata_at r rt k out =
      (if k < length (matching rt rs) then copy_answer packet rt (matching rt rs ! k) out else (Ok None, out))"
    using rdata_loop_reference [OF assms(1), of "unat (dr_answer_count r)" "dr_answer_offset r" rt 0 k out] rec
    by (simp add: rdata_at_def p)
  then show ?thesis using assms(4,5) by (auto simp: copy_answer_def split: prod.splits)
qed

theorem complete_records_readable_witness:
  "fst (rdata_at (response_of sample_response 22) TYPE_A 0 [9]) \<in> {Ok None, Err EMSGSIZE} \<union> {Ok (Some len) | len. len \<le> length [9 :: u8]}"
proof -
  have o: "dr_answer_offset (response_of sample_response 22) = 22" by (simp add: response_of_def)
  show ?thesis
    by (rule complete_records_readable [OF sample_len(1) sample_parse])
       (simp_all add: o sample_complete TYPE_A_def TYPE_CNAME_def TYPE_PTR_def)
qed

end
