(* ===== verification/Timegm.thy ===== *)
theory Timegm
  imports Prelude "HOL-Library.Signed_Division"
begin

text \<open>
  \<open>libc/src/c_abi/x86_64/timegm.rs\<close>: broken-down UTC time to seconds and back. Every
  \<open>i64\<close> operation the source spells \<open>wrapping_*\<close> goes through \<open>i64_of\<close> and every
  \<open>as c_int\<close> through \<open>i32_of\<close>; Rust's truncating \<open>/\<close> and \<open>%\<close> are \<open>sdiv\<close> and
  \<open>smod\<close>. The reference is the proleptic Gregorian calendar (\<open>year_start\<close>).
\<close>

definition LEAPOCH :: int where "LEAPOCH = 946684800 + 86400 * (31 + 29)"
definition DAYS_PER_400Y :: int where "DAYS_PER_400Y = 365 * 400 + 97"
definition DAYS_PER_100Y :: int where "DAYS_PER_100Y = 365 * 100 + 24"
definition DAYS_PER_4Y :: int where "DAYS_PER_4Y = 365 * 4 + 1"
definition SECONDS_PER_DAY :: int where "SECONDS_PER_DAY = 86400"

definition SECS_THROUGH_MONTH :: "int list" where
  "SECS_THROUGH_MONTH = map (\<lambda>d. d * SECONDS_PER_DAY)
     [0, 31, 59, 90, 120, 151, 181, 212, 243, 273, 304, 334]"

definition DAYS_IN_MONTH :: "int list" where
  "DAYS_IN_MONTH = [31, 30, 31, 30, 31, 31, 30, 31, 30, 31, 31, 29]"

text \<open>\<open>struct tm\<close>; the zone name is \<open>None\<close> for a null pointer.\<close>

record tm =
  tm_seconds :: int
  tm_minutes :: int
  tm_hours :: int
  tm_month_day :: int
  tm_month :: int
  tm_year :: int
  tm_week_day :: int
  tm_year_day :: int
  tm_daylight_saving :: int
  tm_utc_offset :: int
  tm_utc_name :: "string option"

subsection \<open>Fields to seconds\<close>

text \<open>The century and leap-day counts of a remainder modulo 400 in the general path.\<close>

definition century_split :: "int \<Rightarrow> bool \<times> int \<times> int" where
  "century_split remainder =
     (if remainder = 0 then (True, 0, 0)
      else
        let (centuries, remainder) =
          (if 200 \<le> remainder
           then if 300 \<le> remainder then (3, remainder - 300) else (2, remainder - 200)
           else if 100 \<le> remainder then (1, remainder - 100) else (0, remainder))
        in if remainder = 0 then (False, centuries, 0)
           else (remainder smod 4 = 0, centuries, remainder sdiv 4))"

definition year_to_secs :: "int \<Rightarrow> int \<times> bool" where
  "year_to_secs year =
     (if (year - 2) mod 2 ^ 64 \<le> 136 then
        let year = i32_of year;
            leaps = (year - 68) div 4;
            is_leap = ((year - 68) mod 4 = 0);
            leaps = (if is_leap then leaps - 1 else leaps)
        in (i64_of (i64_of ((year - 70) * 31536000) + i64_of (leaps * SECONDS_PER_DAY)), is_leap)
      else
        let cycles = i32_of (i64_of (year - 100) sdiv 400);
            remainder = i32_of (i64_of (year - 100) smod 400);
            (cycles, remainder) = (if remainder < 0 then (cycles - 1, remainder + 400) else (cycles, remainder));
            (is_leap, centuries, leaps) = century_split remainder;
            total_leaps =
              i64_of (i64_of (i64_of (leaps + i64_of (cycles * 97)) + i64_of (centuries * 24))
                - (if is_leap then 1 else 0))
        in (i64_of (i64_of (i64_of (i64_of (i64_of (year - 100) * 31536000)
              + i64_of (total_leaps * SECONDS_PER_DAY)) + 946684800) + SECONDS_PER_DAY), is_leap))"

definition month_to_secs :: "int \<Rightarrow> bool \<Rightarrow> (int, unit) outcome" where
  "month_to_secs month is_leap =
     (if 0 \<le> month \<and> month < 12 then
        let seconds = SECS_THROUGH_MONTH ! nat month
        in Ok (if is_leap \<and> 2 \<le> month then i64_of (seconds + SECONDS_PER_DAY) else seconds)
      else Panic)"

definition tm_to_secs :: "tm \<Rightarrow> (int, unit) outcome" where
  "tm_to_secs value =
     (let (year, month) =
        (if 0 \<le> tm_month value \<and> tm_month value < 12 then (tm_year value, tm_month value)
         else
           let adjustment = tm_month value sdiv 12;
               month = tm_month value smod 12;
               (adjustment, month) = (if month < 0 then (i32_of (adjustment - 1), month + 12) else (adjustment, month))
           in (i64_of (tm_year value + adjustment), month));
          (seconds, is_leap) = year_to_secs year
      in and_then (month_to_secs month is_leap) (\<lambda>month_seconds.
        let seconds = i64_of (seconds + month_seconds);
            seconds = i64_of (seconds + i64_of (i64_of (tm_month_day value - 1) * SECONDS_PER_DAY));
            seconds = i64_of (seconds + i64_of (tm_hours value * 3600));
            seconds = i64_of (seconds + i64_of (tm_minutes value * 60))
        in Ok (i64_of (seconds + tm_seconds value))))"

subsection \<open>Seconds to fields\<close>

text \<open>The loop over \<open>DAYS_IN_MONTH\<close>.\<close>

fun month_loop :: "int list \<Rightarrow> int \<Rightarrow> int \<Rightarrow> int \<times> int" where
  "month_loop [] months remaining_days = (months, remaining_days)"
| "month_loop (d # ds) months remaining_days =
     (if d \<le> remaining_days then month_loop ds (months + 1) (remaining_days - d) else (months, remaining_days))"

text \<open>The century, four-year and year counts of a day number inside a 400-year cycle.\<close>

definition cycle_split :: "int \<Rightarrow> int \<times> int \<times> int \<times> int" where
  "cycle_split remaining_days =
     (let centennial_cycles = remaining_days sdiv DAYS_PER_100Y;
          centennial_cycles = (if centennial_cycles = 4 then centennial_cycles - 1 else centennial_cycles);
          remaining_days = remaining_days - centennial_cycles * DAYS_PER_100Y;
          quadrennial_cycles = remaining_days sdiv DAYS_PER_4Y;
          quadrennial_cycles = (if quadrennial_cycles = 25 then quadrennial_cycles - 1 else quadrennial_cycles);
          remaining_days = remaining_days - quadrennial_cycles * DAYS_PER_4Y;
          remaining_years = remaining_days sdiv 365;
          remaining_years = (if remaining_years = 4 then remaining_years - 1 else remaining_years);
          remaining_days = remaining_days - remaining_years * 365
      in (centennial_cycles, quadrennial_cycles, remaining_years, remaining_days))"

definition secs_to_tm :: "int \<Rightarrow> tm \<Rightarrow> tm option" where
  "secs_to_tm seconds output =
     (if seconds < i64_of (- (2 ^ 31) * 31622400) \<or> seconds > i64_of ((2 ^ 31 - 1) * 31622400) then None
      else
        let elapsed = i64_of (seconds - LEAPOCH);
            days = elapsed sdiv SECONDS_PER_DAY;
            remaining_seconds = i32_of (elapsed smod SECONDS_PER_DAY);
            (remaining_seconds, days) =
              (if remaining_seconds < 0 then (remaining_seconds + SECONDS_PER_DAY, i64_of (days - 1))
               else (remaining_seconds, days));
            week_day = i32_of (i64_of (3 + days) smod 7);
            week_day = (if week_day < 0 then week_day + 7 else week_day);
            quadricentennial_cycles = i32_of (days sdiv DAYS_PER_400Y);
            remaining_days = i32_of (days smod DAYS_PER_400Y);
            (remaining_days, quadricentennial_cycles) =
              (if remaining_days < 0 then (remaining_days + DAYS_PER_400Y, quadricentennial_cycles - 1)
               else (remaining_days, quadricentennial_cycles));
            (centennial_cycles, quadrennial_cycles, remaining_years, remaining_days) = cycle_split remaining_days;
            leap = (remaining_years = 0 \<and> (quadrennial_cycles \<noteq> 0 \<or> centennial_cycles = 0));
            year_day = remaining_days + 31 + 28 + (if leap then 1 else 0);
            year_day = (if 365 + (if leap then 1 else 0) \<le> year_day
                        then year_day - (365 + (if leap then 1 else 0)) else year_day);
            years = i64_of (i64_of (i64_of (remaining_years + i64_of (quadrennial_cycles * 4))
                      + i64_of (centennial_cycles * 100)) + i64_of (quadricentennial_cycles * 400));
            (months, remaining_days) = month_loop DAYS_IN_MONTH 0 remaining_days;
            (months, years) = (if 10 \<le> months then (months - 12, i64_of (years + 1)) else (months, years));
            year = i64_of (years + 100)
        in if year > 2 ^ 31 - 1 \<or> year < - (2 ^ 31) then None
           else Some (output\<lparr>tm_year := i32_of year, tm_month := months + 2,
             tm_month_day := remaining_days + 1, tm_week_day := week_day, tm_year_day := year_day,
             tm_hours := remaining_seconds sdiv 3600, tm_minutes := remaining_seconds sdiv 60 smod 60,
             tm_seconds := remaining_seconds smod 60\<rparr>))"

definition zero_tm :: tm where
  "zero_tm = \<lparr>tm_seconds = 0, tm_minutes = 0, tm_hours = 0, tm_month_day = 0, tm_month = 0, tm_year = 0,
     tm_week_day = 0, tm_year_day = 0, tm_daylight_saving = 0, tm_utc_offset = 0, tm_utc_name = None\<rparr>"

definition secs_to_utc_tm :: "int \<Rightarrow> tm option" where
  "secs_to_utc_tm seconds =
     map_option (\<lambda>output. output\<lparr>tm_daylight_saving := 0, tm_utc_offset := 0, tm_utc_name := Some ''UTC''\<rparr>)
       (secs_to_tm seconds zero_tm)"

text \<open>\<open>timegm\<close> reads the caller's record and returns the seconds, the record as the call leaves it and
  the \<open>errno\<close> it sets, if any (\<open>EOVERFLOW\<close> is 75).\<close>

definition timegm :: "tm \<Rightarrow> (int \<times> tm \<times> int option, unit) outcome" where
  "timegm value =
     and_then (tm_to_secs value) (\<lambda>seconds.
       case secs_to_utc_tm seconds of
         None \<Rightarrow> Ok (- 1, value, Some 75)
       | Some normalized \<Rightarrow> Ok (seconds, normalized, None))"

end
