(* ===== verification/Calendar.thy ===== *)
theory Calendar
  imports Timegm
begin

text \<open>
  The proleptic Gregorian calendar as day counts, and the arithmetic the conversions of \<open>Timegm\<close>
  rest on: flooring division by truncating division and a correction, the leap-day tables, and the
  March-based years.
\<close>

subsection \<open>The calendar\<close>

definition leap_year :: "int \<Rightarrow> bool" where
  "leap_year y \<longleftrightarrow> y mod 4 = 0 \<and> (y mod 100 \<noteq> 0 \<or> y mod 400 = 0)"

text \<open>Days from 1 January 1970 to 1 January of year \<open>y\<close>.\<close>

definition year_start :: "int \<Rightarrow> int" where
  "year_start y = 365 * (y - 1970) + ((y - 1) div 4 - (y - 1) div 100 + (y - 1) div 400 - 477)"

lemma div_pred: "(y - 1) div k = y div k - (if y mod k = 0 then 1 else 0)" if "0 < k" for y k :: int
proof (cases "y mod k = 0")
  case True
  then have "y - 1 = k * (y div k - 1) + (k - 1)" using div_mult_mod_eq [of y k] by (simp add: algebra_simps)
  from int_div_pos_eq [OF this] that True show ?thesis by simp
next
  case False
  have e: "y - 1 = k * (y div k) + (y mod k - 1)" by (simp add: algebra_simps)
  have "0 \<le> y mod k - 1" "y mod k - 1 < k"
    using False pos_mod_bound [OF that, of y] pos_mod_sign [OF that, of y] by linarith+
  from int_div_pos_eq [OF e this] False show ?thesis by simp
qed

lemma leap_year_mods: "leap_year y \<longleftrightarrow> (y mod 4 = 0) \<and> (y mod 100 = 0 \<longrightarrow> y mod 400 = 0)"
  by (auto simp: leap_year_def)

lemma mod_100_4: "(y :: int) mod 100 = 0 \<Longrightarrow> y mod 4 = 0" "(y :: int) mod 400 = 0 \<Longrightarrow> y mod 100 = 0"
  by presburger+

lemma year_start_step:
  "year_start 1970 = 0" "year_start (y + 1) = year_start y + (if leap_year y then 366 else 365)"
  using mod_100_4 [of y]
  by (auto simp: year_start_def div_pred leap_year_def)


subsection \<open>Truncating and flooring division\<close>

lemma sdiv_smod_floor:
  fixes x k :: int
  assumes "0 < k"
  shows "x smod k < 0 \<Longrightarrow> x sdiv k - 1 = x div k" "x smod k < 0 \<Longrightarrow> x smod k + k = x mod k"
    "\<not> x smod k < 0 \<Longrightarrow> x sdiv k = x div k" "\<not> x smod k < 0 \<Longrightarrow> x smod k = x mod k"
proof -
  have b: "0 \<le> x mod k" "x mod k < k" using assms by auto
  have m: "x smod k = x mod k - k * of_bool (sgn x \<noteq> 1 \<and> \<not> k dvd x)"
    using signed_modulo_int_eq_modulo_int [of x k] assms by simp
  have d: "x sdiv k = x div k + of_bool (sgn x \<noteq> 1 \<and> \<not> k dvd x)"
    using signed_divide_int_eq_divide_int [of x k] assms by simp
  show "x smod k < 0 \<Longrightarrow> x sdiv k - 1 = x div k" "x smod k < 0 \<Longrightarrow> x smod k + k = x mod k"
    "\<not> x smod k < 0 \<Longrightarrow> x sdiv k = x div k" "\<not> x smod k < 0 \<Longrightarrow> x smod k = x mod k"
    using b unfolding m d by (auto simp: of_bool_def split: if_splits)
qed

lemma sdiv_nonneg: "0 \<le> x \<Longrightarrow> 0 < k \<Longrightarrow> x sdiv k = x div k" "0 \<le> x \<Longrightarrow> 0 < k \<Longrightarrow> x smod k = x mod k"
  for x k :: int
  using sdiv_smod_floor(3) [of k x] smod_mod_positive [of x k] pos_mod_sign [of k x] by fastforce+

lemma smod_bounds: "0 < k \<Longrightarrow> - k < x smod k \<and> x smod k < k" for x k :: int
  using smod_int_range [of k x] by auto

lemma sdiv_bounds: "0 < k \<Longrightarrow> - \<bar>x\<bar> \<le> x sdiv k \<and> x sdiv k \<le> \<bar>x\<bar>" for x k :: int
  using sdiv_int_range [of x k] by auto

text \<open>The source's idiom: truncate, then correct a negative remainder.\<close>

lemma floor_split:
  fixes x k :: int
  assumes "0 < k" "k < 2 ^ 31" "- (2 ^ 31) \<le> x div k" "x div k < 2 ^ 31 - 1"
  shows "i32_of (x sdiv k) - (if i32_of (x smod k) < 0 then 1 else 0) = x div k"
    "i32_of (x smod k) + (if i32_of (x smod k) < 0 then k else 0) = x mod k"
proof -
  have m: "i32_of (x smod k) = x smod k" using smod_bounds [OF assms(1), of x] assms(2) by (intro i32_of_id) auto
  have "x sdiv k \<in> {x div k, x div k + 1}" using sdiv_smod_floor(1,3) [OF assms(1), of x] by (cases "x smod k < 0") auto
  then have d: "i32_of (x sdiv k) = x sdiv k" using assms(3,4) by (intro i32_of_id) auto
  show "i32_of (x sdiv k) - (if i32_of (x smod k) < 0 then 1 else 0) = x div k"
    "i32_of (x smod k) + (if i32_of (x smod k) < 0 then k else 0) = x mod k"
    unfolding m d using sdiv_smod_floor [OF assms(1), of x] by auto
qed

subsection \<open>Years\<close>

lemma fast_range:
  assumes "- (2 ^ 40) \<le> y" "y \<le> 2 ^ 40"
  shows "(y - 2) mod 2 ^ 64 \<le> 136 \<longleftrightarrow> 2 \<le> y \<and> y \<le> (138 :: int)"
proof (cases "2 \<le> y")
  case True
  with assms have "(y - 2) mod 2 ^ 64 = y - 2" by (intro mod_pos_pos_trivial) auto
  with True show ?thesis by simp
next
  case False
  with assms have "(y - 2 + 2 ^ 64) mod 2 ^ 64 = y - 2 + 2 ^ 64" by (intro mod_pos_pos_trivial) auto
  then have "(y - 2) mod 2 ^ 64 = y - 2 + 2 ^ 64" by (simp only: mod_add_self2)
  with False assms show ?thesis by simp
qed

lemma fast_years:
  "\<forall>y\<in>{2..138 :: int}.
     365 * (y - 70) + ((y - 68) div 4 - (if (y - 68) mod 4 = 0 then 1 else 0)) = year_start (y + 1900) \<and>
     ((y - 68) mod 4 = 0 \<longleftrightarrow> leap_year (y + 1900))"
  unfolding year_start_def leap_year_def by code_simp

lemma century_split_table:
  "\<forall>r\<in>{0..399 :: int}. case century_split r of (is_leap, centuries, leaps) \<Rightarrow>
     leaps + centuries * 24 - (if is_leap then 1 else 0) =
       (r + 1999) div 4 - (r + 1999) div 100 + (r + 1999) div 400 - 485 \<and>
     0 \<le> leaps \<and> leaps \<le> 24 \<and> 0 \<le> centuries \<and> centuries \<le> 3 \<and>
     (is_leap \<longleftrightarrow> r mod 4 = 0 \<and> (r mod 100 \<noteq> 0 \<or> r mod 400 = 0))"
  by code_simp

lemma div_400_shift:
  "(400 * q + r + 1999) div 4 = 100 * q + (r + 1999) div 4"
  "(400 * q + r + 1999) div 100 = 4 * q + (r + 1999) div 100"
  "(400 * q + r + 1999) div 400 = q + (r + 1999) div 400" for q r :: int
  by linarith+

lemma leap_year_400: "leap_year (400 * q + r + 2000) \<longleftrightarrow> leap_year r"
proof -
  have e: "400 * q + r + 2000 = r + (100 * q + 500) * 4" "400 * q + r + 2000 = r + (4 * q + 20) * 100"
    "400 * q + r + 2000 = r + (q + 5) * 400" by simp_all
  have "(400 * q + r + 2000) mod 4 = r mod 4" unfolding e(1) by (rule mod_mult_self1)
  moreover have "(400 * q + r + 2000) mod 100 = r mod 100" unfolding e(2) by (rule mod_mult_self1)
  moreover have "(400 * q + r + 2000) mod 400 = r mod 400" unfolding e(3) by (rule mod_mult_self1)
  ultimately show ?thesis by (simp add: leap_year_def)
qed

lemma i64_small: "- 9000000000000000000 \<le> x \<Longrightarrow> x \<le> 9000000000000000000 \<Longrightarrow> i64_of x = x"
  by (rule i64_of_id) auto

lemma year_to_secs_fast:
  assumes "2 \<le> year" "year \<le> 138"
  shows "year_to_secs year = (86400 * year_start (year + 1900), leap_year (year + 1900))"
proof -
  have m: "year \<in> {2..138}" using assms by simp
  note t = conjunct1 [OF bspec [OF fast_years m]] conjunct2 [OF bspec [OF fast_years m]]
  have w: "i32_of year = year" using assms by (intro i32_of_id) auto
  define l where "l = (year - 68) div 4 - (if (year - 68) mod 4 = 0 then 1 else 0)"
  have l: "- 18 \<le> l" "l \<le> 17" using assms unfolding l_def by (auto split: if_splits)
  have a: "i64_of ((year - 70) * 31536000) = (year - 70) * 31536000" using assms by (intro i64_small) simp_all
  have b: "i64_of (l * 86400) = l * 86400" using l by (intro i64_small) simp_all
  have c: "i64_of ((year - 70) * 31536000 + l * 86400) = 86400 * (365 * (year - 70) + l)"
    using assms l by (subst i64_small) simp_all
  have f: "(year - 2) mod 2 ^ 64 \<le> 136" using assms fast_range [of year] by simp
  have "year_to_secs year = (i64_of (i64_of ((year - 70) * 31536000) + i64_of (l * 86400)), (year - 68) mod 4 = 0)"
    unfolding year_to_secs_def Let_def w if_P [OF f] SECONDS_PER_DAY_def l_def by (simp only: if_distrib [of "\<lambda>x. _ - x"] diff_0_right)
  then show ?thesis unfolding a b c t(2) unfolding l_def t(1) .
qed

lemma year_to_secs_slow:
  assumes "- (2 ^ 33) \<le> year" "year \<le> 2 ^ 33" "\<not> (2 \<le> year \<and> year \<le> 138)"
  shows "year_to_secs year = (86400 * year_start (year + 1900), leap_year (year + 1900))"
proof -
  define x where "x = year - 100"
  define q where "q = x div 400"
  define r where "r = x mod 400"
  have r: "0 \<le> r" "r \<le> 399" unfolding r_def by simp_all
  have x: "x = 400 * q + r" unfolding q_def r_def by (rule mult_div_mod_eq [symmetric])
  have q: "- 33554432 \<le> q" "q \<le> 33554432" using assms(1,2) x r unfolding x_def by simp_all
  obtain il c l where cs: "century_split r = (il, c, l)" by (cases "century_split r")
  define g where "g = (r + 1999) div 4 - (r + 1999) div 100 + (r + 1999) div 400 - 485"
  have m: "r \<in> {0..399}" using r by simp
  have H: "l + c * 24 - (if il then 1 else 0) = g \<and> 0 \<le> l \<and> l \<le> 24 \<and> 0 \<le> c \<and> c \<le> 3 \<and> (il \<longleftrightarrow> leap_year r)"
    using bspec [OF century_split_table m] unfolding cs prod.case leap_year_def g_def .
  then have il: "il \<longleftrightarrow> leap_year r" by (elim conjE)
  from H have t0: "l + c * 24 - (if il then 1 else 0) = g" by (elim conjE)
  from H have t: "0 \<le> l" "l \<le> 24" "0 \<le> c" "c \<le> 3" by simp_all
  have g: "- 1 \<le> g" "g \<le> 96" using t0 t by (simp_all split: if_splits)
  have x64: "i64_of x = x" using x q r by (intro i64_small) simp_all
  have fs: "(if i32_of (x smod 400) < 0 then (i32_of (x sdiv 400) - 1, i32_of (x smod 400) + 400)
      else (i32_of (x sdiv 400), i32_of (x smod 400))) = (q, r)"
    using floor_split [of 400 x] q unfolding q_def [symmetric] r_def [symmetric] by (simp split: if_splits)
  have tot: "i64_of (i64_of (i64_of (l + i64_of (q * 97)) + i64_of (c * 24)) - (if il then 1 else 0)) = q * 97 + g"
  proof -
    have "i64_of (q * 97) = q * 97" "i64_of (c * 24) = c * 24" using q t by (intro i64_small; simp)+
    moreover have "i64_of (l + q * 97) = l + q * 97" using q t by (intro i64_small) simp_all
    moreover have "i64_of (l + q * 97 + c * 24) = l + q * 97 + c * 24" using q t by (intro i64_small) simp_all
    moreover have "i64_of (l + q * 97 + c * 24 - (if il then 1 else 0)) = q * 97 + g"
      using q g unfolding t0 [symmetric] by (subst i64_small) simp_all
    ultimately show ?thesis by (simp only:)
  qed
  have secs: "i64_of (i64_of (i64_of (i64_of (x * 31536000) + i64_of ((q * 97 + g) * 86400)) + 946684800) + 86400)
      = 86400 * (365 * (x + 30) + (97 * q + g + 8))"
  proof -
    have "i64_of (x * 31536000) = x * 31536000" using x q r by (intro i64_small) simp_all
    moreover have "i64_of ((q * 97 + g) * 86400) = (q * 97 + g) * 86400" using q g by (intro i64_small) simp_all
    moreover have "i64_of (x * 31536000 + (q * 97 + g) * 86400) = x * 31536000 + (q * 97 + g) * 86400"
      using x q r g by (intro i64_small) simp_all
    moreover have "i64_of (x * 31536000 + (q * 97 + g) * 86400 + 946684800) = x * 31536000 + (q * 97 + g) * 86400 + 946684800"
      using x q r g by (intro i64_small) simp_all
    moreover have "i64_of (x * 31536000 + (q * 97 + g) * 86400 + 946684800 + 86400) = 86400 * (365 * (x + 30) + (97 * q + g + 8))"
      using x q r g by (subst i64_small) simp_all
    ultimately show ?thesis by (simp only:)
  qed
  have y: "year + 1900 = 400 * q + r + 2000" using x unfolding x_def by linarith
  have ys: "year_start (year + 1900) = 365 * (x + 30) + (97 * q + g + 8)"
  proof -
    have "400 * q + r + 2000 - 1 = 400 * q + r + 1999" by simp
    moreover have "365 * (400 * q + r + 2000 - 1970) + (100 * q + a - (4 * q + b) + (q + d) - 477) =
      365 * (400 * q + r + 30) + (97 * q + (a - b + d - 485) + 8)" for a b d :: int by simp
    ultimately show ?thesis unfolding year_start_def g_def y x by (simp only: div_400_shift)
  qed
  have f: "\<not> (year - 2) mod 2 ^ 64 \<le> 136" using assms fast_range [of year] by simp
  show ?thesis
    unfolding year_to_secs_def if_not_P [OF f] x_def [symmetric] x64 Let_def fs prod.case cs tot SECONDS_PER_DAY_def
    unfolding secs ys unfolding y leap_year_400 il [symmetric] ..
qed

lemma year_to_secs_calendar:
  assumes "- (2 ^ 33) \<le> year" "year \<le> 2 ^ 33"
  shows "year_to_secs year = (86400 * year_start (year + 1900), leap_year (year + 1900))"
  using year_to_secs_fast year_to_secs_slow [OF assms] by blast

subsection \<open>Dates\<close>

definition month_lengths :: "bool \<Rightarrow> int list" where
  "month_lengths leap = [31, if leap then 29 else 28, 31, 30, 31, 30, 31, 31, 30, 31, 30, 31]"

definition month_start :: "bool \<Rightarrow> int \<Rightarrow> int" where
  "month_start leap month = sum_list (take (nat month) (month_lengths leap))"

text \<open>Days from 1 January 1970 to a date; the month counts from zero, the day from one.\<close>

definition day_number :: "int \<Rightarrow> int \<Rightarrow> int \<Rightarrow> int" where
  "day_number year month day = year_start year + month_start (leap_year year) month + (day - 1)"

definition date_ok :: "int \<Rightarrow> int \<Rightarrow> int \<Rightarrow> bool" where
  "date_ok year month day \<longleftrightarrow>
     0 \<le> month \<and> month < 12 \<and> 1 \<le> day \<and> day \<le> month_lengths (leap_year year) ! nat month"

lemma month_to_secs_table:
  "\<forall>m\<in>{0..11 :: int}.
     month_to_secs m True = Ok (86400 * month_start True m) \<and> month_to_secs m False = Ok (86400 * month_start False m) \<and>
     0 \<le> month_start True m \<and> month_start True m \<le> 335 \<and> 0 \<le> month_start False m \<and> month_start False m \<le> 334"
  unfolding month_to_secs_def i64_of_def by code_simp

lemma month_to_secs_calendar:
  assumes "0 \<le> m" "m < 12"
  shows "month_to_secs m leap = Ok (86400 * month_start leap m)" "0 \<le> month_start leap m" "month_start leap m \<le> 335"
  using bspec [OF month_to_secs_table, of m] assms by (cases leap; simp)+

definition i32_range :: "int \<Rightarrow> bool" where
  "i32_range x \<longleftrightarrow> - (2 ^ 31) \<le> x \<and> x < 2 ^ 31"

definition tm_ok :: "tm \<Rightarrow> bool" where
  "tm_ok v \<longleftrightarrow> list_all i32_range [tm_seconds v, tm_minutes v, tm_hours v, tm_month_day v, tm_month v, tm_year v]"

lemma month_split:
  assumes "i32_range m" "i32_range y"
  shows "(if 0 \<le> m \<and> m < 12 then (y, m)
     else let adjustment = m sdiv 12; month = m smod 12;
              (adjustment, month) = (if month < 0 then (i32_of (adjustment - 1), month + 12) else (adjustment, month))
          in (i64_of (y + adjustment), month)) = (y + m div 12, m mod 12)"
proof (cases "0 \<le> m \<and> m < 12")
  case True
  then show ?thesis by simp
next
  case False
  have d: "- 178956971 \<le> m div 12" "m div 12 \<le> 178956970" using assms(1) [unfolded i32_range_def, simplified] by linarith+
  then have a: "i32_of (m div 12) = m div 12" "i64_of (y + m div 12) = y + m div 12"
    using assms(2) unfolding i32_range_def by (simp_all add: i32_of_id i64_small)
  show ?thesis
  proof (cases "m smod 12 < 0")
    case True
    with False sdiv_smod_floor(1,2) [of 12 m] a show ?thesis by (simp add: Let_def)
  next
    case neg: False
    with False sdiv_smod_floor(3,4) [of 12 m] a show ?thesis by (simp add: Let_def)
  qed
qed

lemma year_start_bounds:
  assumes "- 8000000000 \<le> y" "y \<le> 8000000000"
  shows "- 4000000000000 \<le> year_start y" "year_start y \<le> 4000000000000"
proof -
  have d: "- 4000000000 \<le> (y - 1) div 4" "(y - 1) div 4 \<le> 4000000000" "- 4000000000 \<le> (y - 1) div 100"
    "(y - 1) div 100 \<le> 4000000000" "- 4000000000 \<le> (y - 1) div 400" "(y - 1) div 400 \<le> 4000000000"
    using assms by linarith+
  with assms show "- 4000000000000 \<le> year_start y" "year_start y \<le> 4000000000000"
    unfolding year_start_def by simp_all
qed

lemma tm_to_secs_calendar:
  assumes "tm_ok v"
  shows "tm_to_secs v = Ok (86400 * day_number (1900 + tm_year v + tm_month v div 12) (tm_month v mod 12) (tm_month_day v)
     + 3600 * tm_hours v + 60 * tm_minutes v + tm_seconds v)"
proof -
  define y m where "y = tm_year v + tm_month v div 12" and "m = tm_month v mod 12"
  have r: "i32_range (tm_seconds v)" "i32_range (tm_minutes v)" "i32_range (tm_hours v)" "i32_range (tm_month_day v)"
    "i32_range (tm_month v)" "i32_range (tm_year v)" using assms unfolding tm_ok_def by simp_all
  note r' = r [unfolded i32_range_def, simplified]
  have y: "- 4000000000 \<le> y" "y \<le> 4000000000" using r'(5,6) unfolding y_def by linarith+
  have m: "0 \<le> m" "m < 12" unfolding m_def by simp_all
  define a where "a = year_start (y + 1900)"
  define b where "b = month_start (leap_year (y + 1900)) m"
  have a: "- 4000000000000 \<le> a" "a \<le> 4000000000000" using year_start_bounds [of "y + 1900"] y unfolding a_def by simp_all
  have b: "0 \<le> b" "b \<le> 335" using month_to_secs_calendar(2,3) [OF m] unfolding b_def by simp_all
  have ys: "year_to_secs y = (86400 * a, leap_year (y + 1900))" unfolding a_def
    by (rule year_to_secs_calendar) (use y in simp_all)
  have ms: "month_to_secs m (leap_year (y + 1900)) = Ok (86400 * b)"
    unfolding b_def by (rule month_to_secs_calendar(1) [OF m])
  have "tm_to_secs v = Ok (i64_of (86400 * a + 86400 * b + (tm_month_day v - 1) * 86400
      + tm_hours v * 3600 + tm_minutes v * 60 + tm_seconds v))"
    unfolding tm_to_secs_def month_split [OF r(5,6)] y_def [symmetric] m_def [symmetric]
    by (simp only: Let_def prod.case ys ms and_then.simps SECONDS_PER_DAY_def i64_of_wrap add.assoc)
  also have "i64_of (86400 * a + 86400 * b + (tm_month_day v - 1) * 86400
      + tm_hours v * 3600 + tm_minutes v * 60 + tm_seconds v) = 86400 * a + 86400 * b + (tm_month_day v - 1) * 86400
      + tm_hours v * 3600 + tm_minutes v * 60 + tm_seconds v"
    using a b r' by (intro i64_small) simp_all
  finally show ?thesis unfolding day_number_def a_def b_def y_def m_def by (simp add: algebra_simps)
qed

subsection \<open>Day numbers to dates\<close>

lemma month_loop_table:
  "\<forall>d\<in>{0..365 :: int}. case month_loop DAYS_IN_MONTH 0 d of (mo, md) \<Rightarrow>
     0 \<le> mo \<and> mo \<le> 11 \<and> 0 \<le> md \<and> md \<le> 30 \<and> (10 \<le> mo \<longleftrightarrow> 306 \<le> d) \<and>
     (if 10 \<le> mo then month_start False (mo - 10) + md = d - 306 \<and> month_start True (mo - 10) + md = d - 306 \<and>
        md < month_lengths True ! nat (mo - 10) \<and> (d < 365 \<longrightarrow> md < month_lengths False ! nat (mo - 10))
      else month_start False (mo + 2) + md = d + 59 \<and> month_start True (mo + 2) + md = d + 60 \<and>
        md < month_lengths True ! nat (mo + 2) \<and> md < month_lengths False ! nat (mo + 2))"
  by code_simp

text \<open>1 March of year \<open>2000 + y\<close>, counted from 1 March 2000 (day 11017).\<close>

definition march_start :: "int \<Rightarrow> int" where
  "march_start y = 365 * y + y div 4 - y div 100 + y div 400"

lemma march_start_year:
  "year_start (y + 2000) + (if leap_year (y + 2000) then 60 else 59) = 11017 + march_start y"
proof -
  have e: "y + 2000 - 1 = (y - 1) + 500 * 4" "y + 2000 - 1 = (y - 1) + 20 * 100" "y + 2000 - 1 = (y - 1) + 5 * 400" by simp_all
  have d: "(y + 2000 - 1) div 4 = (y - 1) div 4 + 500" "(y + 2000 - 1) div 100 = (y - 1) div 100 + 20"
    "(y + 2000 - 1) div 400 = (y - 1) div 400 + 5" by linarith+
  have l: "leap_year (y + 2000) \<longleftrightarrow> leap_year y" using leap_year_400 [of 0 y] by simp
  show ?thesis unfolding year_start_def march_start_def l d
    using mod_100_4 [of y] by (auto simp: div_pred leap_year_def)
qed

lemma march_start_step: "march_start (y + 1) = march_start y + (if leap_year (y + 2001) then 366 else 365)"
  using march_start_year [of y] march_start_year [of "y + 1"] year_start_step(2) [of "y + 2000"]
  by (simp add: add.commute split: if_splits)

text \<open>The digits of a year inside a 400-year cycle.\<close>

lemma cycle_digits:
  assumes "0 \<le> c" "c \<le> 3" "0 \<le> q" "q \<le> 24" "0 \<le> y" "y \<le> (3 :: int)"
  shows "(100 * c + 4 * q + y) div 4 = 25 * c + q" "(100 * c + 4 * q + y) div 100 = c" "(100 * c + 4 * q + y) div 400 = 0"
    "(100 * c + 4 * q + y) mod 4 = y" "(100 * c + 4 * q + y) mod 100 = 4 * q + y"
    "(100 * c + 4 * q + y) mod 400 = 100 * c + 4 * q + y"
proof -
  let ?x = "100 * c + 4 * q + y"
  show d: "?x div 4 = 25 * c + q" "?x div 100 = c" "?x div 400 = 0" using assms by linarith+
  have m: "?x mod k = ?x - k * (?x div k)" for k by (simp add: minus_mult_div_eq_mod)
  show "?x mod 4 = y" "?x mod 100 = 4 * q + y" "?x mod 400 = ?x" unfolding m d by simp_all
qed

lemma leap_cycle:
  assumes "0 \<le> c" "c \<le> 3" "0 \<le> q" "q \<le> 24" "0 \<le> y" "y \<le> (3 :: int)"
  shows "leap_year (100 * c + 4 * q + y) \<longleftrightarrow> y = 0 \<and> (q \<noteq> 0 \<or> c = 0)"
  unfolding leap_year_def cycle_digits [OF assms] using assms by auto

lemma leap_next:
  assumes "0 \<le> c" "c \<le> 3" "0 \<le> q" "q \<le> 24" "\<not> (c \<le> 2 \<and> q = (24 :: int))"
  shows "leap_year (100 * c + 4 * q + 3 + 1)"
proof (cases "q = 24")
  case True
  with assms have "100 * c + 4 * q + 3 + 1 = 400" by simp
  then show ?thesis by (simp add: leap_year_def)
next
  case False
  then have "100 * c + 4 * q + 3 + 1 = 100 * c + 4 * (q + 1) + 0" by simp
  then show ?thesis using leap_cycle [of c "q + 1" 0] assms False by (simp only:) simp
qed

lemma cycle_split_march:
  assumes "0 \<le> R" "R < 146097" "cycle_split R = (c, q, y, d)"
  shows "0 \<le> c" "c \<le> 3" "0 \<le> q" "q \<le> 24" "0 \<le> y" "y \<le> 3" "0 \<le> d" "d \<le> 365"
    "R = 36524 * c + 1461 * q + 365 * y + d" "d = 365 \<longrightarrow> y = 3 \<and> \<not> (c \<le> 2 \<and> q = 24)"
proof -
  define C where "C = R div 36524"
  have C: "0 \<le> C" "C \<le> 4" "36524 * C \<le> R" "R < 36524 * C + 36524" using assms(1,2) unfolding C_def by linarith+
  have c: "c = (if C = 4 then 3 else C)"
    using assms(3) sdiv_nonneg(1) [OF assms(1), of 36524]
    unfolding cycle_split_def DAYS_PER_100Y_def C_def by (simp add: Let_def split: if_splits)
  define S where "S = R - c * 36524"
  have S: "0 \<le> S" "S \<le> 36524" "c \<le> 2 \<Longrightarrow> S < 36524" using C assms(2) unfolding S_def c by (auto split: if_splits)
  have Q: "S div 1461 \<le> 24" "1461 * (S div 1461) \<le> S" "S < 1461 * (S div 1461) + 1461" using S by linarith+
  define T where "T = S - (S div 1461) * 1461"
  have T: "0 \<le> T" "T \<le> 1460" "c \<le> 2 \<Longrightarrow> S div 1461 = 24 \<Longrightarrow> T < 1460" using S Q unfolding T_def by linarith+
  define Y where "Y = T div 365"
  have Y: "0 \<le> Y" "Y \<le> 4" "365 * Y \<le> T" "T < 365 * Y + 365" using T unfolding Y_def by linarith+
  have "cycle_split R = (c, S div 1461, if Y = 4 then 3 else Y, T - (if Y = 4 then 3 else Y) * 365)"
  proof -
    have "cycle_split R = (let q0 = S sdiv 1461; q1 = (if q0 = 25 then q0 - 1 else q0); t = S - q1 * 1461; y0 = t sdiv 365;
       y1 = (if y0 = 4 then y0 - 1 else y0) in (c, q1, y1, t - y1 * 365))"
      unfolding cycle_split_def DAYS_PER_4Y_def DAYS_PER_100Y_def S_def c C_def sdiv_nonneg(1) [OF assms(1)]
      using sdiv_nonneg(1) [OF assms(1), of 36524] by (simp add: Let_def)
    then show ?thesis using Q Y(2) sdiv_nonneg(1) [OF S(1), of 1461] sdiv_nonneg(1) [OF T(1), of 365]
      by (simp add: Let_def T_def [symmetric] Y_def [symmetric])
  qed
  with assms(3) have e: "q = S div 1461" "y = (if Y = 4 then 3 else Y)" "d = T - y * 365" by auto
  show "0 \<le> c" "c \<le> 3" using C unfolding c by auto
  show "0 \<le> q" "q \<le> 24" using S(1) Q(1) unfolding e by simp_all
  show "0 \<le> y" "y \<le> 3" using Y unfolding e by auto
  show "0 \<le> d" "d \<le> 365" using Y T unfolding e by auto
  show "R = 36524 * c + 1461 * q + 365 * y + d" unfolding e(3) T_def S_def e(1) by simp
  show "d = 365 \<longrightarrow> y = 3 \<and> \<not> (c \<le> 2 \<and> q = 24)" using Y T unfolding e by auto
qed

lemma march_date:
  assumes "0 \<le> d" "d < 365 + (if leap_year (Y + 2001) then 1 else 0)" "month_loop DAYS_IN_MONTH 0 d = (mo, md)"
    and "(month, year) = (if 10 \<le> mo then (mo - 10, Y + 2001) else (mo + 2, Y + 2000))"
  shows "date_ok year month (md + 1)" "day_number year month (md + 1) = 11017 + march_start Y + d"
    "(if 365 + (if leap_year (Y + 2000) then 1 else 0) \<le> d + 59 + (if leap_year (Y + 2000) then 1 else 0)
      then d + 59 + (if leap_year (Y + 2000) then 1 else 0) - (365 + (if leap_year (Y + 2000) then 1 else 0))
      else d + 59 + (if leap_year (Y + 2000) then 1 else 0)) = day_number year month (md + 1) - year_start year"
proof -
  have dm: "d \<in> {0..365}" using assms(1,2) by (simp split: if_splits)
  note t = bspec [OF month_loop_table dm, unfolded assms(3) prod.case]
  have ys: "year_start (Y + 2000) = 11017 + march_start Y - (if leap_year (Y + 2000) then 60 else 59)"
    using march_start_year [of Y] by simp
  have yn: "year_start (Y + 2001) = 11017 + march_start Y + 306"
    using year_start_step(2) [of "Y + 2000"] ys by (simp add: add.assoc split: if_splits)
  consider (late) "10 \<le> mo" "306 \<le> d" "month = mo - 10" "year = Y + 2001"
    | (early) "\<not> 10 \<le> mo" "\<not> 306 \<le> d" "month = mo + 2" "year = Y + 2000"
    using t assms(4) by (cases "10 \<le> mo") auto
  then have "date_ok year month (md + 1) \<and> day_number year month (md + 1) = 11017 + march_start Y + d \<and>
    year_start year = 11017 + march_start Y + (if 306 \<le> d then 306 else - 59 - (if leap_year (Y + 2000) then 1 else 0))"
  proof cases
    case late
    with t have u: "month_start False month + md = d - 306" "month_start True month + md = d - 306" "0 \<le> month" "month < 12"
      "0 \<le> md" "md < month_lengths True ! nat month" "d < 365 \<longrightarrow> md < month_lengths False ! nat month" by auto
    have n: "day_number year month (md + 1) = 11017 + march_start Y + d"
      unfolding day_number_def late(4) yn using u(1,2) by (cases "leap_year (Y + 2001)") simp_all
    have "date_ok year month (md + 1)" unfolding date_ok_def late(4) using u assms(2)
      by (cases "leap_year (Y + 2001)") auto
    with n late show ?thesis by (simp add: yn)
  next
    case early
    with t have u: "month_start False month + md = d + 59" "month_start True month + md = d + 60" "0 \<le> month" "month < 12"
      "0 \<le> md" "md < month_lengths True ! nat month" "md < month_lengths False ! nat month" by auto
    have n: "day_number year month (md + 1) = 11017 + march_start Y + d"
      unfolding day_number_def early(4) ys using u(1,2) by (cases "leap_year (Y + 2000)") simp_all
    have "date_ok year month (md + 1)" unfolding date_ok_def early(4) using u
      by (cases "leap_year (Y + 2000)") auto
    with n early show ?thesis by (simp add: ys)
  qed
  then show "date_ok year month (md + 1)" "day_number year month (md + 1) = 11017 + march_start Y + d"
    "(if 365 + (if leap_year (Y + 2000) then 1 else 0) \<le> d + 59 + (if leap_year (Y + 2000) then 1 else 0)
      then d + 59 + (if leap_year (Y + 2000) then 1 else 0) - (365 + (if leap_year (Y + 2000) then 1 else 0))
      else d + 59 + (if leap_year (Y + 2000) then 1 else 0)) = day_number year month (md + 1) - year_start year"
    by simp_all
qed

lemma march_start_cycle:
  assumes "0 \<le> c" "c \<le> 3" "0 \<le> q" "q \<le> 24" "0 \<le> y" "y \<le> 3"
  shows "march_start (400 * Q + (100 * c + 4 * q + y)) = 146097 * Q + (36524 * c + 1461 * q + 365 * y)"
proof -
  let ?x = "100 * c + 4 * q + y"
  have "(400 * Q + ?x) div 4 = 100 * Q + ?x div 4" "(400 * Q + ?x) div 100 = 4 * Q + ?x div 100"
    "(400 * Q + ?x) div 400 = Q + ?x div 400" by linarith+
  then show ?thesis unfolding march_start_def cycle_digits [OF assms] by simp
qed

lemma leap_cycle_year:
  "leap_year (400 * Q + x + 2000) \<longleftrightarrow> leap_year x" "leap_year (400 * Q + x + 2001) \<longleftrightarrow> leap_year (x + 1)"
  using leap_year_400 [of Q x] leap_year_400 [of Q "x + 1"] by (simp_all add: add.assoc)

lemma secs_to_tm_calendar:
  assumes "- (2 ^ 31) * 31622400 \<le> s" "s \<le> (2 ^ 31 - 1) * 31622400"
  obtains year month day where "date_ok year month day" "day_number year month day = s div 86400"
    "secs_to_tm s output = (if i32_range (year - 1900) then Some (output\<lparr>tm_year := year - 1900, tm_month := month,
       tm_month_day := day, tm_week_day := (s div 86400 + 4) mod 7, tm_year_day := s div 86400 - year_start year,
       tm_hours := s mod 86400 div 3600, tm_minutes := s mod 86400 div 60 mod 60, tm_seconds := s mod 60\<rparr>) else None)"
proof -
  define E where "E = s - LEAPOCH"
  define D where "D = E div 86400"
  define S where "S = E mod 86400"
  define Q where "Q = D div 146097"
  define R where "R = D mod 146097"
  have s: "- 67908587000000000 \<le> s" "s \<le> 67908587000000000" using assms by simp_all
  have E: "i64_of E = E" using s unfolding E_def LEAPOCH_def by (intro i64_small) simp_all
  have "s = E + 11017 * 86400" unfolding E_def LEAPOCH_def by simp
  then have D: "s div 86400 = D + 11017" and S: "s mod 86400 = S" unfolding D_def S_def
    by (simp_all only: div_mult_self1 mod_mult_self1)
  have Eb: "- 67910000000000000 \<le> E" "E \<le> 67910000000000000" using s unfolding E_def LEAPOCH_def by simp_all
  have Db: "- 786000000000 \<le> D" "D \<le> 786000000000" using Eb unfolding D_def by linarith+
  have Qb: "- 5400000 \<le> Q" "Q \<le> 5400000" using Db unfolding Q_def by linarith+
  have Sb: "0 \<le> S" "S < 86400" and Rb: "0 \<le> R" "R < 146097" unfolding S_def R_def by simp_all
  have fs1: "(if i32_of (E smod 86400) < 0 then (i32_of (E smod 86400) + 86400, i64_of (E sdiv 86400 - 1))
      else (i32_of (E smod 86400), E sdiv 86400)) = (S, D)"
  proof -
    have "i32_of (E smod 86400) = E smod 86400" using smod_bounds [of 86400 E] by (intro i32_of_id) auto
    moreover have "i64_of D = D" using Db by (intro i64_small) simp_all
    ultimately show ?thesis using sdiv_smod_floor [of 86400 E] unfolding D_def S_def by auto
  qed
  have fs2: "(if i32_of (D smod 146097) < 0 then (i32_of (D smod 146097) + 146097, i32_of (D sdiv 146097) - 1)
      else (i32_of (D smod 146097), i32_of (D sdiv 146097))) = (R, Q)"
    using floor_split [of 146097 D] Qb unfolding Q_def [symmetric] R_def [symmetric] by (simp split: if_splits)
  have wd: "(if i32_of (i64_of (3 + D) smod 7) < 0 then i32_of (i64_of (3 + D) smod 7) + 7
      else i32_of (i64_of (3 + D) smod 7)) = (3 + D) mod 7"
  proof -
    have "i64_of (3 + D) = 3 + D" using Db by (intro i64_small) simp_all
    moreover have "i32_of ((3 + D) smod 7) = (3 + D) smod 7" using smod_bounds [of 7 "3 + D"] by (intro i32_of_id) auto
    ultimately show ?thesis using sdiv_smod_floor [of 7 "3 + D"] by auto
  qed
  obtain c q y d where cs: "cycle_split R = (c, q, y, d)" by (cases "cycle_split R")
  note cy = cycle_split_march [OF Rb cs]
  define Y where "Y = 400 * Q + (100 * c + 4 * q + y)"
  obtain mo md where ml: "month_loop DAYS_IN_MONTH 0 d = (mo, md)" by (cases "month_loop DAYS_IN_MONTH 0 d")
  have lp: "leap_year (Y + 2000) \<longleftrightarrow> y = 0 \<and> (q \<noteq> 0 \<or> c = 0)"
    unfolding Y_def leap_cycle_year using leap_cycle cy by blast
  have "d < 365 + (if leap_year (Y + 2001) then 1 else 0)"
    unfolding Y_def leap_cycle_year using cy(8,10) leap_next [OF cy(1-4)] by auto
  note md = march_date [OF cy(7) this ml]
  have D': "D = march_start Y + d"
    unfolding Y_def march_start_cycle [OF cy(1-6)] using cy(9) unfolding Q_def R_def by (simp add: minus_mod_eq_mult_div [symmetric])
  have Yb: "- 2170000000 \<le> Y" "Y \<le> 2170000000" using Qb cy unfolding Y_def by simp_all
  have y64: "i64_of (i64_of (i64_of (y + i64_of (q * 4)) + i64_of (c * 100)) + i64_of (Q * 400)) = Y"
    unfolding i64_of_wrap Y_def using Qb cy by (subst i64_small) simp_all
  define month year where "month = (if 10 \<le> mo then mo - 10 else mo + 2)" and "year = (if 10 \<le> mo then Y + 2001 else Y + 2000)"
  have my: "(month, year) = (if 10 \<le> mo then (mo - 10, Y + 2001) else (mo + 2, Y + 2000))" unfolding month_def year_def by simp
  have mo: "(if 10 \<le> mo then (mo - 12, i64_of (Y + 1)) else (mo, Y)) = (month - 2, year - 2000)"
    using Yb unfolding month_def year_def by (simp add: i64_small)
  have yr: "i64_of (year - 2000 + 100) = year - 1900" using Yb unfolding year_def by (simp add: i64_small)
  have yd: "(if 365 + (if leap_year (Y + 2000) then 1 else 0) \<le> d + 31 + 28 + (if leap_year (Y + 2000) then 1 else 0)
      then d + 31 + 28 + (if leap_year (Y + 2000) then 1 else 0) - (365 + (if leap_year (Y + 2000) then 1 else 0))
      else d + 31 + 28 + (if leap_year (Y + 2000) then 1 else 0)) = s div 86400 - year_start year"
    using md(2,3) [OF my] unfolding D D' by (simp add: add.assoc split: if_splits)
  have g: "\<not> (s < i64_of (- (2 ^ 31) * 31622400) \<or> s > i64_of ((2 ^ 31 - 1) * 31622400))"
    using assms by (simp add: i64_small)
  have "secs_to_tm s output = (if year - 1900 > 2 ^ 31 - 1 \<or> year - 1900 < - (2 ^ 31) then None
      else Some (output\<lparr>tm_year := i32_of (year - 1900), tm_month := month - 2 + 2, tm_month_day := md + 1,
       tm_week_day := (3 + D) mod 7, tm_year_day := s div 86400 - year_start year,
       tm_hours := S sdiv 3600, tm_minutes := S sdiv 60 smod 60, tm_seconds := S smod 60\<rparr>))"
    unfolding secs_to_tm_def if_not_P [OF g] E_def [symmetric] E SECONDS_PER_DAY_def
    by (simp only: Let_def fs1 prod.case wd fs2 cs lp [symmetric] y64 ml mo yr yd DAYS_PER_400Y_def [simplified])
  also have "\<dots> = (if i32_range (year - 1900) then Some (output\<lparr>tm_year := year - 1900, tm_month := month,
       tm_month_day := md + 1, tm_week_day := (s div 86400 + 4) mod 7, tm_year_day := s div 86400 - year_start year,
       tm_hours := s mod 86400 div 3600, tm_minutes := s mod 86400 div 60 mod 60, tm_seconds := s mod 60\<rparr>) else None)"
  proof -
    have "(s div 86400 + 4) mod 7 = (3 + D) mod 7"
    proof -
      have "s div 86400 + 4 = 3 + D + 1574 * 7" unfolding D by simp
      then show ?thesis by (simp only: mod_mult_self1)
    qed
    moreover have "s mod 60 = S mod 60" unfolding S [symmetric] by (simp add: mod_mod_cancel)
    moreover have "S sdiv 3600 = S div 3600" "S sdiv 60 smod 60 = S div 60 mod 60" "S smod 60 = S mod 60"
      using Sb by (simp_all add: sdiv_nonneg pos_imp_zdiv_nonneg_iff)
    moreover have "year - 1900 > 2 ^ 31 - 1 \<or> year - 1900 < - (2 ^ 31) \<longleftrightarrow> \<not> i32_range (year - 1900)"
      unfolding i32_range_def by linarith
    moreover have "i32_range (year - 1900) \<Longrightarrow> i32_of (year - 1900) = year - 1900"
      unfolding i32_range_def by (rule i32_of_id) simp_all
    ultimately show ?thesis unfolding S by (cases "i32_range (year - 1900)") (simp_all only: if_True if_False diff_add_cancel simp_thms)
  qed
  finally show thesis by (rule that [OF md(1) [OF my], rotated 1]) (use md(2) [OF my] D D' in simp)
qed

subsection \<open>Years and their days\<close>

lemma year_start_mono: "x \<le> y \<Longrightarrow> year_start x + 365 * (y - x) \<le> year_start y"
proof (induction y rule: int_ge_induct)
  case (step y)
  have "year_start y + 365 \<le> year_start (y + 1)" unfolding year_start_step(2) by simp
  with step show ?case by simp
qed simp

lemma year_start_less_iff: "year_start x < year_start y \<longleftrightarrow> x < y"
  using year_start_mono [of x y] year_start_mono [of y x] by (cases "x < y") auto

lemma year_start_le_iff: "year_start x \<le> year_start y \<longleftrightarrow> x \<le> y"
  by (simp only: linorder_not_less [symmetric] year_start_less_iff)

lemma month_bounds_table:
  "\<forall>m\<in>{0..11 :: int}. 0 \<le> month_start True m \<and> 0 \<le> month_start False m \<and>
     month_start True m + month_lengths True ! nat m \<le> 366 \<and> month_start False m + month_lengths False ! nat m \<le> 365"
  by code_simp

lemma date_ok_year:
  assumes "date_ok year month day"
  shows "year_start year \<le> day_number year month day" "day_number year month day < year_start (year + 1)"
  using bspec [OF month_bounds_table, of month] assms
  unfolding date_ok_def day_number_def year_start_step(2) by (cases "leap_year year"; simp)+

text \<open>The seconds whose year fits a C \<open>int\<close>.\<close>

definition representable :: "int \<Rightarrow> bool" where
  "representable s \<longleftrightarrow> year_start (1900 - 2 ^ 31) \<le> s div 86400 \<and> s div 86400 < year_start (1900 + 2 ^ 31)"

lemma representable_year:
  assumes "date_ok year month day" "day_number year month day = s div 86400"
  shows "representable s \<longleftrightarrow> i32_range (year - 1900)"
proof -
  have "year_start (1900 - 2 ^ 31) \<le> s div 86400 \<longleftrightarrow> 1900 - 2 ^ 31 \<le> year"
  proof
    assume "year_start (1900 - 2 ^ 31) \<le> s div 86400"
    then have "year_start (1900 - 2 ^ 31) < year_start (year + 1)" using date_ok_year [OF assms(1)] assms(2) by linarith
    then show "1900 - 2 ^ 31 \<le> year" unfolding year_start_less_iff by simp
  next
    assume "1900 - 2 ^ 31 \<le> year"
    then have "year_start (1900 - 2 ^ 31) \<le> year_start year" unfolding year_start_le_iff .
    then show "year_start (1900 - 2 ^ 31) \<le> s div 86400" using date_ok_year(1) [OF assms(1)] assms(2) by linarith
  qed
  moreover have "s div 86400 < year_start (1900 + 2 ^ 31) \<longleftrightarrow> year < 1900 + 2 ^ 31"
  proof
    assume "s div 86400 < year_start (1900 + 2 ^ 31)"
    then have "year_start year < year_start (1900 + 2 ^ 31)" using date_ok_year [OF assms(1)] assms(2) by linarith
    then show "year < 1900 + 2 ^ 31" unfolding year_start_less_iff .
  next
    assume "year < 1900 + 2 ^ 31"
    then have "year_start (year + 1) \<le> year_start (1900 + 2 ^ 31)" unfolding year_start_le_iff by simp
    then show "s div 86400 < year_start (1900 + 2 ^ 31)" using date_ok_year(2) [OF assms(1)] assms(2) by linarith
  qed
  ultimately show ?thesis unfolding representable_def i32_range_def by auto
qed

lemma representable_guard:
  assumes "representable s" shows "- (2 ^ 31) * 31622400 \<le> s" "s \<le> (2 ^ 31 - 1) * 31622400"
proof -
  have "- 784354037482 \<le> s div 86400" "s div 86400 < 784354724632"
    using assms unfolding representable_def year_start_def by simp_all
  then show "- (2 ^ 31) * 31622400 \<le> s" "s \<le> (2 ^ 31 - 1) * 31622400" by simp_all
qed

end
