(* ===== verification/TimegmProps.thy ===== *)
theory TimegmProps
  imports Calendar
begin

text \<open>
  What the conversions between broken-down UTC time and seconds compute, against the calendar of
  \<open>Calendar\<close>: the seconds of any \<open>struct tm\<close>, the normalised record of any number of
  seconds, and \<open>timegm\<close> as their composition with its error path.
\<close>

text \<open>The seconds a broken-down time denotes, its month counted from the year's January whatever its range.\<close>

definition calendar_seconds :: "tm \<Rightarrow> int" where
  "calendar_seconds v =
     86400 * day_number (1900 + tm_year v + tm_month v div 12) (tm_month v mod 12) (tm_month_day v)
     + 3600 * tm_hours v + 60 * tm_minutes v + tm_seconds v"

text \<open>A normalised record: a date of the calendar, a time of the day, and the derived fields.\<close>

definition normal_tm :: "tm \<Rightarrow> bool" where
  "normal_tm v \<longleftrightarrow> tm_ok v \<and> date_ok (1900 + tm_year v) (tm_month v) (tm_month_day v) \<and>
     0 \<le> tm_hours v \<and> tm_hours v < 24 \<and> 0 \<le> tm_minutes v \<and> tm_minutes v < 60 \<and>
     0 \<le> tm_seconds v \<and> tm_seconds v < 60 \<and>
     tm_week_day v = (calendar_seconds v div 86400 + 4) mod 7 \<and>
     tm_year_day v = calendar_seconds v div 86400 - year_start (1900 + tm_year v)"

lemma month_lengths_le: "0 \<le> m \<Longrightarrow> m < 12 \<Longrightarrow> month_lengths leap ! nat m \<le> 366"
  using bspec [OF month_bounds_table, of m] by (cases leap; simp)

lemma time_of_day:
  fixes s :: int
  shows "3600 * (s mod 86400 div 3600) + 60 * (s mod 86400 div 60 mod 60) + s mod 60 = s mod 86400"
    "0 \<le> s mod 86400 div 3600" "s mod 86400 div 3600 < 24"
proof -
  define S where "S = s mod 86400"
  have S: "0 \<le> S" "S < 86400" unfolding S_def by simp_all
  have "s mod 60 = S mod 60" unfolding S_def by (simp add: mod_mod_cancel)
  moreover have "S div 3600 = S div 60 div 60" by (simp add: zdiv_zmult2_eq [symmetric])
  moreover have "3600 * (S div 60 div 60) + 60 * (S div 60 mod 60) + S mod 60 = S"
    using mult_div_mod_eq [of 60 "S div 60"] mult_div_mod_eq [of 60 S] by linarith
  ultimately show "3600 * (s mod 86400 div 3600) + 60 * (s mod 86400 div 60 mod 60) + s mod 60 = s mod 86400"
    unfolding S_def [symmetric] by simp
  show "0 \<le> s mod 86400 div 3600" "s mod 86400 div 3600 < 24" using S unfolding S_def [symmetric] by linarith+
qed

lemma secs_to_tm_cases:
  "(secs_to_tm s output = None \<longleftrightarrow> \<not> representable s) \<and>
   (\<forall>v. secs_to_tm s output = Some v \<longrightarrow> normal_tm v \<and> calendar_seconds v = s \<and>
      tm_daylight_saving v = tm_daylight_saving output \<and> tm_utc_offset v = tm_utc_offset output \<and>
      tm_utc_name v = tm_utc_name output)"
proof (cases "s < - (2 ^ 31) * 31622400 \<or> s > (2 ^ 31 - 1) * 31622400")
  case True
  then have "secs_to_tm s output = None" unfolding secs_to_tm_def by (simp add: i64_small)
  moreover have "\<not> representable s" using True representable_guard [of s] by linarith
  ultimately show ?thesis by simp
next
  case False
  then obtain year month day where d: "date_ok year month day" "day_number year month day = s div 86400"
    "secs_to_tm s output = (if i32_range (year - 1900) then Some (output\<lparr>tm_year := year - 1900, tm_month := month,
       tm_month_day := day, tm_week_day := (s div 86400 + 4) mod 7, tm_year_day := s div 86400 - year_start year,
       tm_hours := s mod 86400 div 3600, tm_minutes := s mod 86400 div 60 mod 60, tm_seconds := s mod 60\<rparr>) else None)"
    using secs_to_tm_calendar [of s] unfolding linorder_not_less de_Morgan_disj by metis
  define v where "v = output\<lparr>tm_year := year - 1900, tm_month := month,
       tm_month_day := day, tm_week_day := (s div 86400 + 4) mod 7, tm_year_day := s div 86400 - year_start year,
       tm_hours := s mod 86400 div 3600, tm_minutes := s mod 86400 div 60 mod 60, tm_seconds := s mod 60\<rparr>"
  have m: "0 \<le> month" "month < 12" "1 \<le> day" "day \<le> 366"
    using d(1) month_lengths_le [of month "leap_year year"] unfolding date_ok_def by auto
  have f: "tm_year v = year - 1900" "tm_month v = month" "tm_month_day v = day" "tm_hours v = s mod 86400 div 3600"
    "tm_minutes v = s mod 86400 div 60 mod 60" "tm_seconds v = s mod 60" "tm_week_day v = (s div 86400 + 4) mod 7"
    "tm_year_day v = s div 86400 - year_start year" "tm_daylight_saving v = tm_daylight_saving output"
    "tm_utc_offset v = tm_utc_offset output" "tm_utc_name v = tm_utc_name output" unfolding v_def by simp_all
  have z: "1900 + (year - 1900) = year" by simp
  have mm: "month div 12 = 0" "month mod 12 = month" using m by simp_all
  have c: "calendar_seconds v = s"
    unfolding calendar_seconds_def f z mm add_0_right d(2) using time_of_day(1) [of s] mult_div_mod_eq [of 86400 s] by linarith
  define h mi se where "h = s mod 86400 div 3600" and "mi = s mod 86400 div 60 mod 60" and "se = s mod 60"
  have hb: "0 \<le> h" "h < 24" "0 \<le> mi" "mi < 60" "0 \<le> se" "se < 60"
    unfolding h_def mi_def se_def using time_of_day(2,3) [of s] by simp_all
  have n: "normal_tm v" if "i32_range (year - 1900)"
    unfolding normal_tm_def tm_ok_def c f z h_def [symmetric] mi_def [symmetric] se_def [symmetric]
    using that d(1) m hb by (simp add: i32_range_def)
  show ?thesis
    using c n f(9-11) representable_year [OF d(1,2)] unfolding d(3) v_def [symmetric] by (cases "i32_range (year - 1900)") simp_all
qed

lemma calendar_seconds_bounds:
  assumes "tm_ok v" shows "\<bar>calendar_seconds v\<bar> < 2 ^ 60"
proof -
  have r: "i32_range (tm_seconds v)" "i32_range (tm_minutes v)" "i32_range (tm_hours v)" "i32_range (tm_month_day v)"
    "i32_range (tm_month v)" "i32_range (tm_year v)" using assms unfolding tm_ok_def by simp_all
  note r' = r [unfolded i32_range_def, simplified]
  define y where "y = 1900 + tm_year v + tm_month v div 12"
  have y: "- 8000000000 \<le> y" "y \<le> 8000000000" using r'(5,6) unfolding y_def by linarith+
  define b where "b = month_start (leap_year y) (tm_month v mod 12)"
  have b: "0 \<le> b" "b \<le> 335" using month_to_secs_calendar(2,3) [of "tm_month v mod 12"] unfolding b_def by simp_all
  show ?thesis unfolding calendar_seconds_def day_number_def y_def [symmetric] b_def [symmetric]
    using year_start_bounds [OF y] b r'(1-4) by (simp add: abs_less_iff)
qed

subsection \<open>Properties\<close>

text \<open>C28. The arithmetic of \<open>tm_to_secs\<close> never wraps: for every \<open>struct tm\<close> with C \<open>int\<close> fields, normalised
  or not, it does not panic and returns the exact number of seconds the fields denote in the proleptic Gregorian
  calendar, months outside 0 to 11 carried into the year; that number is far inside the 64-bit range.\<close>

theorem tm_to_secs_exact:
  assumes "tm_ok v"
  shows "tm_to_secs v = Ok (calendar_seconds v) \<and> \<bar>calendar_seconds v\<bar> < 2 ^ 60"
  using tm_to_secs_calendar [OF assms] calendar_seconds_bounds [OF assms] unfolding calendar_seconds_def by simp

definition sample_tm :: tm where
  "sample_tm = zero_tm\<lparr>tm_year := 124, tm_month := 13, tm_month_day := 29, tm_hours := 25, tm_minutes := -1\<rparr>"

lemma sample_tm_ok: "tm_ok sample_tm"
  unfolding sample_tm_def zero_tm_def tm_ok_def i32_range_def by simp

lemma sample_tm_seconds: "calendar_seconds sample_tm = 1740877140"
  unfolding sample_tm_def zero_tm_def by code_simp

theorem tm_to_secs_exact_witness: "tm_ok sample_tm \<and> tm_to_secs sample_tm = Ok 1740877140"
  using tm_to_secs_exact [OF sample_tm_ok] sample_tm_ok unfolding sample_tm_seconds by simp

text \<open>C27. \<open>secs_to_tm\<close> fails exactly on the seconds whose year does not fit a C \<open>int\<close>. Otherwise it fills the record
  with a date of the calendar (29 February in leap years only), the time of day, the day of the week and of the year,
  leaves the remaining fields alone, and \<open>tm_to_secs\<close> gives the seconds back.\<close>

theorem secs_to_tm_roundtrip:
  "case secs_to_tm s out of
     None \<Rightarrow> \<not> representable s
   | Some v \<Rightarrow> representable s \<and> normal_tm v \<and> calendar_seconds v = s \<and> tm_to_secs v = Ok s \<and>
       tm_daylight_saving v = tm_daylight_saving out \<and> tm_utc_offset v = tm_utc_offset out \<and> tm_utc_name v = tm_utc_name out"
proof (cases "secs_to_tm s out")
  case None
  then show ?thesis using secs_to_tm_cases [of s out] by simp
next
  case (Some v)
  then have v: "normal_tm v" "calendar_seconds v = s" "representable s" using secs_to_tm_cases [of s out] by simp_all
  then have "tm_ok v" unfolding normal_tm_def by simp
  from tm_to_secs_calendar [OF this] v(2) have "tm_to_secs v = Ok s" unfolding calendar_seconds_def by simp
  then show ?thesis using Some v secs_to_tm_cases [of s out] by simp
qed

text \<open>C26. \<open>timegm\<close> on any record with C \<open>int\<close> fields: when the denoted seconds fall in a year that fits a C
  \<open>int\<close>, it returns them, sets no error and leaves the normalised UTC record for the same instant, on which it is
  idempotent; otherwise it returns -1, sets \<open>EOVERFLOW\<close> and leaves the caller's record untouched.\<close>

theorem timegm_spec:
  assumes "tm_ok v"
  shows "(representable (calendar_seconds v) \<longrightarrow>
      (\<exists>v'. timegm v = Ok (calendar_seconds v, v', None) \<and> normal_tm v' \<and> calendar_seconds v' = calendar_seconds v \<and>
        tm_daylight_saving v' = 0 \<and> tm_utc_offset v' = 0 \<and> tm_utc_name v' = Some ''UTC'' \<and>
        timegm v' = Ok (calendar_seconds v, v', None))) \<and>
    (\<not> representable (calendar_seconds v) \<longrightarrow> timegm v = Ok (- 1, v, Some 75))"
proof -
  have s: "tm_to_secs v = Ok (calendar_seconds v)" if "tm_ok v" for v
    using tm_to_secs_calendar [OF that] unfolding calendar_seconds_def .
  show ?thesis
  proof (cases "secs_to_tm (calendar_seconds v) zero_tm")
    case None
    then have "\<not> representable (calendar_seconds v)"
      using conjunct1 [OF secs_to_tm_cases [of "calendar_seconds v" zero_tm]] by simp
    moreover have "timegm v = Ok (- 1, v, Some 75)"
      unfolding timegm_def s [OF assms] and_then.simps secs_to_utc_tm_def None by simp
    ultimately show ?thesis by simp
  next
    case (Some w)
    define v' where "v' = w\<lparr>tm_daylight_saving := 0, tm_utc_offset := 0, tm_utc_name := Some ''UTC''\<rparr>"
    have w: "normal_tm w" "calendar_seconds w = calendar_seconds v" "representable (calendar_seconds v)"
      using Some secs_to_tm_cases [of "calendar_seconds v" zero_tm] by simp_all
    have f: "calendar_seconds v' = calendar_seconds w" "tm_ok v' = tm_ok w" "normal_tm v' = normal_tm w"
      unfolding v'_def normal_tm_def calendar_seconds_def tm_ok_def by simp_all
    have "tm_ok v'" using w(1) unfolding f(2) normal_tm_def by (elim conjE)
    have u: "secs_to_utc_tm (calendar_seconds v) = Some v'" using Some unfolding secs_to_utc_tm_def v'_def by simp
    have t: "timegm v = Ok (calendar_seconds v, v', None)" "timegm v' = Ok (calendar_seconds v, v', None)"
      unfolding timegm_def s [OF assms] s [OF \<open>tm_ok v'\<close>] f(1) w(2) and_then.simps u option.case by (rule refl)+
    have z: "tm_daylight_saving v' = 0" "tm_utc_offset v' = 0" "tm_utc_name v' = Some ''UTC''" unfolding v'_def by simp_all
    show ?thesis using w t z by (intro conjI impI exI [of _ v']) (simp_all add: f)
  qed
qed

theorem timegm_spec_witness:
  "\<exists>v'. timegm sample_tm = Ok (1740877140, v', None) \<and> normal_tm v' \<and> tm_utc_name v' = Some ''UTC''"
proof -
  have "representable 1740877140" unfolding representable_def year_start_def by simp
  then show ?thesis using timegm_spec [OF sample_tm_ok] unfolding sample_tm_seconds by blast
qed

end
