(* ===== verification/IntegerParse.thy ===== *)
theory IntegerParse
  imports Prelude
begin

text \<open>
  \<open>libc/src/c_abi/x86_64/integer_parse.rs\<close>: \<open>strtol\<close>, \<open>strtoul\<close> and their
  siblings, and \<open>atoi\<close>, \<open>atol\<close>, \<open>atoll\<close>. The input is the list of bytes readable from
  the caller's pointer, a pointer into it is an index, and a read outside it (undefined in the source)
  is \<open>Panic\<close>. \<open>errno\<close> is returned as the value set, if any.
\<close>

definition EINVAL_code :: int where "EINVAL_code = 22"
definition ERANGE_code :: int where "ERANGE_code = 34"

record scan_result =
  sr_value :: u64
  sr_end :: nat

definition ascii_space :: "u8 \<Rightarrow> bool" where
  "ascii_space byte \<longleftrightarrow> byte = 32 \<or> byte = 9 \<or> byte = 10 \<or> byte = 13 \<or> byte = 0x0b \<or> byte = 0x0c"

definition digit_value :: "u8 \<Rightarrow> u8" where
  "digit_value byte =
     (if 48 \<le> byte \<and> byte \<le> 57 then byte - 48
      else if 97 \<le> byte \<and> byte \<le> 122 then byte - 97 + 10
      else if 65 \<le> byte \<and> byte \<le> 90 then byte - 65 + 10
      else 255)"

subsection \<open>The scanner\<close>

function skip_spaces :: "bytes \<Rightarrow> nat \<Rightarrow> (nat, unit) outcome" where
  "skip_spaces input cursor =
     (if length input \<le> cursor then Panic
      else if ascii_space (input ! cursor) then skip_spaces input (cursor + 1)
      else Ok cursor)"
  by pat_completeness auto
termination
  by (relation "measure (\<lambda>(input, cursor). length input - cursor)") auto

declare skip_spaces.simps [simp del]

definition scan_sign :: "bytes \<Rightarrow> nat \<Rightarrow> (bool \<times> nat, unit) outcome" where
  "scan_sign input cursor =
     and_then (get_byte input cursor) (\<lambda>byte.
       if byte = 45 then Ok (True, cursor + 1)
       else if byte = 43 then Ok (False, cursor + 1)
       else Ok (False, cursor))"

text \<open>The digit loop: \<open>value\<close>, the sticky overflow flag and the cursor.\<close>

function scan_digits :: "bytes \<Rightarrow> u8 \<Rightarrow> nat \<Rightarrow> u64 \<Rightarrow> bool \<Rightarrow> (u64 \<times> bool \<times> nat, unit) outcome" where
  "scan_digits input base cursor value overflowed =
     (if length input \<le> cursor then Panic
      else
        let digit = digit_value (input ! cursor) in
        if base \<le> digit then Ok (value, overflowed, cursor)
        else if (- 1 - ucast digit) div ucast base < value then scan_digits input base (cursor + 1) value True
        else if \<not> overflowed
        then scan_digits input base (cursor + 1) (value * ucast base + ucast digit) overflowed
        else scan_digits input base (cursor + 1) value overflowed)"
  by pat_completeness auto
termination
  by (relation "measure (\<lambda>(input, base, cursor, value, overflowed). length input - cursor)") auto

declare scan_digits.simps [simp del]

text \<open>Range saturation at the caller's limit, after the digits.\<close>

definition saturate :: "u64 \<Rightarrow> bool \<Rightarrow> bool \<Rightarrow> u64 \<Rightarrow> u64 \<times> int option" where
  "saturate limit negative overflowed value =
     (let errno = (if overflowed then Some ERANGE_code else None);
          negative = (if overflowed \<and> limit AND 1 \<noteq> 0 then False else negative);
          value = (if overflowed then limit else value);
          (value, errno) =
            (if limit \<le> value then
               if limit AND 1 = 0 \<and> \<not> negative then (limit - 1, Some ERANGE_code)
               else if limit < value then (limit, Some ERANGE_code)
               else (value, errno)
             else (value, errno))
      in (if negative then - value else value, errno))"

definition scan_value :: "bytes \<Rightarrow> u8 \<Rightarrow> bool \<Rightarrow> nat \<Rightarrow> u64 \<Rightarrow> (scan_result \<times> int option, unit) outcome" where
  "scan_value input base negative digits_start limit =
     and_then (scan_digits input base digits_start 0 False) (\<lambda>(value, overflowed, cursor).
       let (value, errno) = saturate limit negative overflowed value
       in Ok (\<lparr>sr_value = value, sr_end = cursor\<rparr>, errno))"

definition scan :: "bytes \<Rightarrow> int \<Rightarrow> u64 \<Rightarrow> (scan_result \<times> int option, unit) outcome" where
  "scan input requested_base limit =
     (if requested_base < 0 \<or> requested_base = 1 \<or> 36 < requested_base
      then Ok (\<lparr>sr_value = 0, sr_end = 0\<rparr>, Some EINVAL_code)
      else
        and_then (skip_spaces input 0) (\<lambda>cursor.
        and_then (scan_sign input cursor) (\<lambda>(negative, cursor).
          let base = word_of_int requested_base :: u8 in
          and_then (get_byte input cursor) (\<lambda>first.
            if (base = 0 \<or> base = 16) \<and> first = 48 then
              let zero = cursor; cursor = cursor + 1 in
              and_then (get_byte input cursor) (\<lambda>mark.
                if mark OR 0x20 = 120 then
                  let cursor = cursor + 1 in
                  and_then (get_byte input cursor) (\<lambda>hex.
                    if 16 \<le> digit_value hex then Ok (\<lparr>sr_value = 0, sr_end = zero + 1\<rparr>, None)
                    else scan_value input 16 negative cursor limit)
                else scan_value input (if base = 0 then 8 else base) negative zero limit)
            else
              let base = (if base = 0 then 10 else base) in
              if base \<le> digit_value first then Ok (\<lparr>sr_value = 0, sr_end = 0\<rparr>, Some EINVAL_code)
              else scan_value input base negative cursor limit))))"

text \<open>The public entries. \<open>endptr\<close> is \<open>None\<close> for a null pointer and otherwise the index it holds;
  the result is the value, \<open>endptr\<close> after the call and the \<open>errno\<close> set.\<close>

definition scan_with_endptr ::
    "bytes \<Rightarrow> nat option \<Rightarrow> int \<Rightarrow> u64 \<Rightarrow> (u64 \<times> nat option \<times> int option, unit) outcome" where
  "scan_with_endptr input endptr base limit =
     and_then (scan input base limit) (\<lambda>(result, errno).
       Ok (sr_value result, map_option (\<lambda>_. sr_end result) endptr, errno))"

definition as_signed ::
    "(u64 \<times> nat option \<times> int option, unit) outcome \<Rightarrow> (int \<times> nat option \<times> int option, unit) outcome" where
  "as_signed r = and_then r (\<lambda>(value, endptr, errno). Ok (sint value, endptr, errno))"

definition strtol :: "bytes \<Rightarrow> nat option \<Rightarrow> int \<Rightarrow> (int \<times> nat option \<times> int option, unit) outcome" where
  "strtol input endptr base = as_signed (scan_with_endptr input endptr base (word_of_int (- (2 ^ 63))))"

definition strtoul :: "bytes \<Rightarrow> nat option \<Rightarrow> int \<Rightarrow> (u64 \<times> nat option \<times> int option, unit) outcome" where
  "strtoul input endptr base = scan_with_endptr input endptr base (- 1)"

definition strtoll :: "bytes \<Rightarrow> nat option \<Rightarrow> int \<Rightarrow> (int \<times> nat option \<times> int option, unit) outcome" where
  "strtoll input endptr base = as_signed (scan_with_endptr input endptr base (word_of_int (- (2 ^ 63))))"

definition strtoull :: "bytes \<Rightarrow> nat option \<Rightarrow> int \<Rightarrow> (u64 \<times> nat option \<times> int option, unit) outcome" where
  "strtoull input endptr base = scan_with_endptr input endptr base (- 1)"

definition strtoimax :: "bytes \<Rightarrow> nat option \<Rightarrow> int \<Rightarrow> (int \<times> nat option \<times> int option, unit) outcome" where
  "strtoimax input endptr base = strtoll input endptr base"

definition strtoumax :: "bytes \<Rightarrow> nat option \<Rightarrow> int \<Rightarrow> (u64 \<times> nat option \<times> int option, unit) outcome" where
  "strtoumax input endptr base = strtoull input endptr base"

subsection \<open>The decimal loops\<close>

definition is_decimal :: "u8 \<Rightarrow> bool" where
  "is_decimal byte \<longleftrightarrow> 48 \<le> byte \<and> byte \<le> 57"

text \<open>The loops of \<open>decimal_i32\<close>, \<open>decimal_long\<close> and \<open>decimal_long_long\<close>: the same code at two widths.\<close>

function decimal_loop :: "bytes \<Rightarrow> nat \<Rightarrow> 'w::len word \<Rightarrow> ('w word, unit) outcome" where
  "decimal_loop input cursor value =
     (if length input \<le> cursor then Panic
      else
        let byte = input ! cursor in
        if \<not> is_decimal byte then Ok value
        else decimal_loop input (cursor + 1) (value * 10 - ucast (byte - 48)))"
  by pat_completeness auto
termination
  by (relation "measure (\<lambda>(input, cursor, value). length input - cursor)") auto

declare decimal_loop.simps [simp del]

definition decimal_i32 :: "bytes \<Rightarrow> (int, unit) outcome" where
  "decimal_i32 input =
     and_then (skip_spaces input 0) (\<lambda>cursor.
     and_then (scan_sign input cursor) (\<lambda>(negative, cursor).
     and_then (decimal_loop input cursor (0 :: 32 word)) (\<lambda>value.
       Ok (sint (if negative then value else - value)))))"

definition decimal_long :: "bytes \<Rightarrow> (int, unit) outcome" where
  "decimal_long input =
     and_then (skip_spaces input 0) (\<lambda>cursor.
     and_then (scan_sign input cursor) (\<lambda>(negative, cursor).
     and_then (decimal_loop input cursor (0 :: 64 word)) (\<lambda>value.
       Ok (sint (if negative then value else - value)))))"

definition decimal_long_long :: "bytes \<Rightarrow> (int, unit) outcome" where
  "decimal_long_long input =
     and_then (skip_spaces input 0) (\<lambda>cursor.
     and_then (scan_sign input cursor) (\<lambda>(negative, cursor).
     and_then (decimal_loop input cursor (0 :: 64 word)) (\<lambda>value.
       Ok (sint (if negative then value else - value)))))"

definition atoi :: "bytes \<Rightarrow> (int, unit) outcome" where "atoi input = decimal_i32 input"
definition atol :: "bytes \<Rightarrow> (int, unit) outcome" where "atol input = decimal_long input"
definition atoll :: "bytes \<Rightarrow> (int, unit) outcome" where "atoll input = decimal_long_long input"

end
