(* ===== verification/IntegerParseProps.thy ===== *)
theory IntegerParseProps
  imports IntegerParse
begin

text \<open>
  The integer parsers against the C standard's description: the subject sequence (white space, sign,
  base prefix, longest digit run), the number it denotes, and its clamping to the result type.
\<close>

subsection \<open>Bytes\<close>

lemma or_exp_set: "bit x k \<Longrightarrow> x OR 2 ^ k = x" for x :: "'a::len word"
  by (intro bit_word_eqI) (auto simp: bit_simps)

lemma or_exp_unset: "\<not> bit x k \<Longrightarrow> x OR 2 ^ k = x + 2 ^ k" for x :: "'a::len word"
  by (intro or_eq_plus_disjoint bit_word_eqI) (auto simp: bit_simps)

lemma or_x: "b OR 0x20 = 120 \<longleftrightarrow> b = 120 \<or> b = (88 :: u8)"
proof
  assume *: "b OR 0x20 = 120"
  show "b = 120 \<or> b = 88"
  proof (cases "bit b 5")
    case True
    from or_exp_set [OF this] * show ?thesis by simp
  next
    case False
    from or_exp_unset [OF this] * have "b + 32 = 88 + 32" by simp
    then show ?thesis by (simp only: add_right_cancel) simp
  qed
qed auto

lemma byte_facts:
  "b OR 0x20 = 120 \<Longrightarrow> b \<noteq> 0" "b OR 0x20 = 120 \<Longrightarrow> 16 \<le> digit_value b" "ascii_space b \<Longrightarrow> b \<noteq> 0"
  "digit_value 48 = 0" "36 \<le> digit_value 0"
  unfolding or_x by (auto simp: digit_value_def ascii_space_def)

lemma unat_digit_value:
  "unat (digit_value b) =
     (if 48 \<le> unat b \<and> unat b \<le> 57 then unat b - 48
      else if 97 \<le> unat b \<and> unat b \<le> 122 then unat b - 87
      else if 65 \<le> unat b \<and> unat b \<le> 90 then unat b - 55 else 255)"
proof -
  have a: "unat (b - 48) = unat b - 48" if "48 \<le> unat b" using that by (simp add: unat_sub word_le_nat_alt)
  have s: "unat (b - 97) = unat b - 97" if "97 \<le> unat b" using that by (simp add: unat_sub word_le_nat_alt)
  have t: "unat (b - 65) = unat b - 65" if "65 \<le> unat b" using that by (simp add: unat_sub word_le_nat_alt)
  have c: "unat (b - 97 + 10) = unat b - 87" if "97 \<le> unat b" "unat b \<le> 122"
    unfolding unat_word_ariths(1) s [OF that(1)] using that by simp
  have d: "unat (b - 65 + 10) = unat b - 55" if "65 \<le> unat b" "unat b \<le> 90"
    unfolding unat_word_ariths(1) t [OF that(1)] using that by simp
  have l: "48 \<le> b \<longleftrightarrow> 48 \<le> unat b" "b \<le> 57 \<longleftrightarrow> unat b \<le> 57" "97 \<le> b \<longleftrightarrow> 97 \<le> unat b" "b \<le> 122 \<longleftrightarrow> unat b \<le> 122"
    "65 \<le> b \<longleftrightarrow> 65 \<le> unat b" "b \<le> 90 \<longleftrightarrow> unat b \<le> 90" by (simp_all add: word_le_nat_alt)
  show ?thesis unfolding digit_value_def l using a c d by auto
qed

lemma digit_value_decimal: "is_decimal b \<longleftrightarrow> digit_value b < 10" "is_decimal b \<Longrightarrow> digit_value b = b - 48"
  unfolding is_decimal_def word_less_nat_alt word_le_nat_alt unat_digit_value
  by (auto simp: digit_value_def word_le_nat_alt)

subsection \<open>The loops\<close>

lemma skip_spaces_eq:
  assumes "0 \<in> set (drop cursor input)"
  shows "skip_spaces input cursor = Ok (cursor + length (takeWhile ascii_space (drop cursor input)))"
  using assms
proof (induction input cursor rule: skip_spaces.induct)
  case (1 input cursor)
  then have c: "cursor < length input" by (cases "cursor < length input") auto
  then have d: "drop cursor input = input ! cursor # drop (cursor + 1) input" by (simp add: Cons_nth_drop_Suc)
  show ?case
  proof (cases "ascii_space (input ! cursor)")
    case True
    with 1 d byte_facts(3) have "0 \<in> set (drop (cursor + 1) input)" by auto
    with 1 True c d show ?thesis by (subst skip_spaces.simps) simp
  next
    case False
    with c d show ?thesis by (subst skip_spaces.simps) simp
  qed
qed

text \<open>The number a run of digits denotes.\<close>

definition digits_value :: "u8 \<Rightarrow> bytes \<Rightarrow> nat" where
  "digits_value base = foldl (\<lambda>a c. a * unat base + unat (digit_value c)) 0"

lemma foldl_digits_ge: "2 \<le> b \<Longrightarrow> a \<le> foldl (\<lambda>a c. a * b + d c) a cs" for a b :: nat
proof (induction cs arbitrary: a)
  case (Cons c cs)
  have "a \<le> a * b + d c" using Cons.prems by (simp add: trans_le_add1)
  also have "\<dots> \<le> foldl (\<lambda>a c. a * b + d c) (a * b + d c) cs" by (rule Cons.IH [OF Cons.prems])
  finally show ?case by simp
qed simp

lemma overflow_guard:
  fixes v :: u64 and base d :: u8
  assumes "2 \<le> base"
  shows "(- 1 - ucast d) div ucast base < v \<longleftrightarrow> 2 ^ 64 \<le> unat v * unat base + unat d"
    "unat v * unat base + unat d < 2 ^ 64 \<Longrightarrow>
       unat (v * ucast base + ucast d) = unat v * unat base + unat d"
proof -
  have b: "2 \<le> unat base" using assms by (simp add: word_le_nat_alt)
  have u: "unat (ucast x :: u64) = unat x" for x :: u8 using unat_u8_less [of x] by (simp add: unat_ucast_mod)
  have m1: "unat (- 1 :: u64) = 2 ^ 64 - 1" by (simp add: unsigned_minus_1_eq_mask mask_eq_exp_minus_1)
  have m: "unat (- 1 - ucast d :: u64) = 2 ^ 64 - 1 - unat d"
    by (subst unat_sub) (simp_all add: m1 u)
  have "(- 1 - ucast d) div ucast base < v \<longleftrightarrow> (2 ^ 64 - 1 - unat d) div unat base < unat v"
    by (simp only: word_less_nat_alt unat_div_distrib m u)
  also have "\<dots> \<longleftrightarrow> 2 ^ 64 - 1 - unat d < unat v * unat base"
    using b by (simp add: div_less_iff_less_mult)
  also have "\<dots> \<longleftrightarrow> 2 ^ 64 \<le> unat v * unat base + unat d" using unat_u8_less [of d] by auto
  finally show "(- 1 - ucast d) div ucast base < v \<longleftrightarrow> 2 ^ 64 \<le> unat v * unat base + unat d" .
  show "unat v * unat base + unat d < 2 ^ 64 \<Longrightarrow>
       unat (v * ucast base + ucast d) = unat v * unat base + unat d"
    by (simp add: unat_word_ariths u)
qed

lemma scan_digits_overflowed:
  assumes "2 \<le> base" "0 \<in> set (drop cursor input)" "base \<le> 36"
  shows "\<exists>v'. scan_digits input base cursor v True =
     Ok (v', True, cursor + length (takeWhile (\<lambda>c. digit_value c < base) (drop cursor input)))"
  using assms(2)
proof (induction "length input - cursor" arbitrary: cursor rule: less_induct)
  case (less cursor)
  then have c: "cursor < length input" by (cases "cursor < length input") auto
  then have d: "drop cursor input = input ! cursor # drop (cursor + 1) input" by (simp add: Cons_nth_drop_Suc)
  show ?case
  proof (cases "digit_value (input ! cursor) < base")
    case True
    have "input ! cursor \<noteq> 0" using True assms(3) byte_facts(5) by (metis leD order_trans)
    with less.prems d have "0 \<in> set (drop (cursor + 1) input)" by auto
    from less.hyps [OF _ this] c True show ?thesis unfolding d by (subst scan_digits.simps) (auto simp: Let_def)
  next
    case False
    with c d show ?thesis by (subst scan_digits.simps) (simp add: Let_def not_less)
  qed
qed

lemma scan_digits_eq:
  assumes "2 \<le> base" "0 \<in> set (drop cursor input)" "base \<le> 36"
  shows "\<exists>v'. scan_digits input base cursor v False =
     Ok (v', 2 ^ 64 \<le> foldl (\<lambda>a c. a * unat base + unat (digit_value c)) (unat v) (takeWhile (\<lambda>c. digit_value c < base) (drop cursor input)),
        cursor + length (takeWhile (\<lambda>c. digit_value c < base) (drop cursor input))) \<and>
     (foldl (\<lambda>a c. a * unat base + unat (digit_value c)) (unat v) (takeWhile (\<lambda>c. digit_value c < base) (drop cursor input)) < 2 ^ 64 \<longrightarrow>
      unat v' = foldl (\<lambda>a c. a * unat base + unat (digit_value c)) (unat v) (takeWhile (\<lambda>c. digit_value c < base) (drop cursor input)))"
  using assms(2)
proof (induction "length input - cursor" arbitrary: cursor v rule: less_induct)
  case (less cursor)
  define step where "step = (\<lambda>a c. a * unat base + unat (digit_value c))"
  have b: "2 \<le> unat base" using assms(1) by (simp add: word_le_nat_alt)
  from less.prems have c: "cursor < length input" by (cases "cursor < length input") auto
  then have d: "drop cursor input = input ! cursor # drop (cursor + 1) input" by (simp add: Cons_nth_drop_Suc)
  show ?case
  proof (cases "digit_value (input ! cursor) < base")
    case True
    have "input ! cursor \<noteq> 0" using True assms(3) byte_facts(5) by (metis leD order_trans)
    with less.prems d have z: "0 \<in> set (drop (cursor + 1) input)" by auto
    define rest where "rest = takeWhile (\<lambda>c. digit_value c < base) (drop (cursor + 1) input)"
    define dv where "dv = digit_value (input ! cursor)"
    have t: "takeWhile (\<lambda>c. digit_value c < base) (drop cursor input) = input ! cursor # rest"
      unfolding d rest_def using True by simp
    have g: "(- 1 - ucast dv) div ucast base < v \<longleftrightarrow> 2 ^ 64 \<le> step (unat v) (input ! cursor)"
      unfolding step_def dv_def by (rule overflow_guard(1) [OF assms(1)])
    show ?thesis
    proof (cases "2 ^ 64 \<le> step (unat v) (input ! cursor)")
      case over: True
      have "2 ^ 64 \<le> foldl step (step (unat v) (input ! cursor)) rest"
        using over foldl_digits_ge [OF b, of "step (unat v) (input ! cursor)"] unfolding step_def by (rule order_trans)
      moreover obtain v' where "scan_digits input base (cursor + 1) v True = Ok (v', True, cursor + 1 + length rest)"
        using scan_digits_overflowed [OF assms(1) z assms(3)] unfolding rest_def by blast
      moreover have "scan_digits input base cursor v False = scan_digits input base (cursor + 1) v True"
        using c True [folded not_le] g over by (subst scan_digits.simps) (simp add: Let_def dv_def)
      ultimately show ?thesis unfolding t step_def [symmetric] by simp
    next
      case ok: False
      have "unat (v * ucast base + ucast dv) = step (unat v) (input ! cursor)"
        using ok overflow_guard(2) [OF assms(1)] unfolding step_def dv_def by simp
      moreover have "scan_digits input base cursor v False = scan_digits input base (cursor + 1) (v * ucast base + ucast dv) False"
        using c True [folded not_le] g ok by (subst scan_digits.simps) (simp add: Let_def dv_def)
      ultimately show ?thesis using less.hyps [OF _ z, of "v * ucast base + ucast dv"] c
        unfolding t rest_def step_def by simp
    qed
  next
    case False
    with c d show ?thesis using unsigned_less [of v, where ?'a = nat]
      by (subst scan_digits.simps) (simp add: Let_def not_less)
  qed
qed

subsection \<open>Saturation\<close>

text \<open>The signed range, magnitude limit \<open>2^63\<close>.\<close>

lemma saturate_signed:
  fixes v :: u64 and M :: nat and negative :: bool
  defines "n \<equiv> (if negative then - int M else int M)"
  assumes "M < 2 ^ 64 \<Longrightarrow> unat v = M"
  shows "\<exists>w. saturate (word_of_int (- (2 ^ 63))) negative (2 ^ 64 \<le> M) v =
      (w, if n < - (2 ^ 63) \<or> 2 ^ 63 \<le> n then Some ERANGE_code else None) \<and>
     sint w = max (- (2 ^ 63)) (min (2 ^ 63 - 1) n)"
proof -
  define L :: u64 where "L = word_of_int (- (2 ^ 63))"
  have L: "unat L = 2 ^ 63" "L AND 1 = 0" "sint (L - 1) = 2 ^ 63 - 1" "sint (- L) = - (2 ^ 63)" unfolding L_def by simp_all
  have s: "sint (word_of_int x :: u64) = x" if "- (2 ^ 63) \<le> x" "x < 2 ^ 63" for x
    using i64_of_id [OF that] by (simp add: int_word_sint i64_of_def)
  consider (over) "2 ^ 64 \<le> M" | (top) "2 ^ 63 \<le> M" "M < 2 ^ 64" | (low) "M < 2 ^ 63" by linarith
  then show ?thesis
  proof cases
    case over
    then show ?thesis using L unfolding saturate_def n_def L_def [symmetric] by (cases negative) (auto simp: Let_def)
  next
    case top
    then have v: "unat v = M" using assms(2) by simp
    have l: "L \<le> v" "L < v \<longleftrightarrow> M \<noteq> 2 ^ 63" using top by (auto simp: word_le_nat_alt word_less_nat_alt L v)
    have "v = L" if "M = 2 ^ 63" using that v L(1) by (intro word_unat_eq_iff [THEN iffD2]) simp
    then show ?thesis using L l top unfolding saturate_def n_def L_def [symmetric] by (cases negative) (auto simp: Let_def)
  next
    case low
    then have v: "unat v = M" using assms(2) by simp
    have l: "\<not> L \<le> v" using low by (simp add: word_le_nat_alt L v)
    have w: "v = word_of_int (int M)" unfolding v [symmetric] by simp
    show ?thesis using l low s [of "int M"] s [of "- int M"] unfolding saturate_def n_def w L_def [symmetric] by (cases negative) (simp_all add: Let_def)
  qed
qed

lemma saturate_unsigned:
  fixes v :: u64 and M :: nat and negative :: bool
  defines "n \<equiv> (if negative then - int M else int M)"
  assumes "M < 2 ^ 64 \<Longrightarrow> unat v = M"
  shows "saturate (- 1) negative (2 ^ 64 \<le> M) v =
      (if 2 ^ 64 \<le> M then (- 1, Some ERANGE_code) else (word_of_int n, None))"
proof (cases "2 ^ 64 \<le> M")
  case True
  then show ?thesis unfolding saturate_def by (simp add: Let_def)
next
  case False
  then have u: "unat v = M" using assms(2) by simp
  have v: "v = word_of_nat M" unfolding u [symmetric] by simp
  show ?thesis unfolding saturate_def n_def v using False by (simp add: Let_def)
qed

subsection \<open>The whole scan\<close>

text \<open>What the C standard calls the subject sequence: sign, effective base, offset and digit run.\<close>

definition space_end :: "bytes \<Rightarrow> nat" where
  "space_end s = length (takeWhile ascii_space s)"

definition sign_end :: "bytes \<Rightarrow> nat" where
  "sign_end s = (if s ! space_end s = 45 \<or> s ! space_end s = 43 then space_end s + 1 else space_end s)"

definition is_negative :: "bytes \<Rightarrow> bool" where
  "is_negative s \<longleftrightarrow> s ! space_end s = 45"

definition hex_prefix :: "bytes \<Rightarrow> int \<Rightarrow> bool" where
  "hex_prefix s base \<longleftrightarrow> (base = 0 \<or> base = 16) \<and> s ! sign_end s = 48 \<and>
     s ! (sign_end s + 1) OR 0x20 = 120 \<and> digit_value (s ! (sign_end s + 1 + 1)) < 16"

definition subject :: "bytes \<Rightarrow> int \<Rightarrow> bool \<times> u8 \<times> nat \<times> bytes" where
  "subject s base =
     (let b = (if hex_prefix s base then 16 else if base \<noteq> 0 then word_of_int base else if s ! sign_end s = 48 then 8 else 10);
          off = (if hex_prefix s base then sign_end s + 1 + 1 else sign_end s)
      in (is_negative s, b, off, takeWhile (\<lambda>c. digit_value c < b) (drop off s)))"

definition base_ok :: "int \<Rightarrow> bool" where
  "base_ok base \<longleftrightarrow> base = 0 \<or> 2 \<le> base \<and> base \<le> 36"

lemma scan_value_eq:
  assumes "0 \<in> set (drop off s)" "2 \<le> b" "b \<le> 36"
  defines "run \<equiv> takeWhile (\<lambda>c. digit_value c < b) (drop off s)"
  shows "\<exists>v. (digits_value b run < 2 ^ 64 \<longrightarrow> unat v = digits_value b run) \<and>
    scan_value s b negative off limit =
      (case saturate limit negative (2 ^ 64 \<le> digits_value b run) v of
         (w, e) \<Rightarrow> Ok (\<lparr>sr_value = w, sr_end = off + length run\<rparr>, e))"
  using scan_digits_eq [OF assms(2,1,3), of 0] unfolding digits_value_def scan_value_def run_def
  by (auto simp: Let_def)

lemma sign_facts:
  assumes "0 \<in> set s"
  shows "skip_spaces s 0 = Ok (space_end s)" "scan_sign s (space_end s) = Ok (is_negative s, sign_end s)"
    "sign_end s < length s" "0 \<in> set (drop (sign_end s) s)"
proof -
  show "skip_spaces s 0 = Ok (space_end s)" using skip_spaces_eq [of 0 s] assms unfolding space_end_def by simp
  have d: "drop (space_end s) s = dropWhile ascii_space s" unfolding space_end_def by (rule dropWhile_eq_drop [symmetric])
  have z0: "0 \<in> set (drop (space_end s) s)"
    using assms byte_facts(3) unfolding d by (metis (no_types) Un_iff set_append set_takeWhileD takeWhile_dropWhile_id)
  then have l0: "space_end s < length s" by (cases "space_end s < length s") auto
  then show "scan_sign s (space_end s) = Ok (is_negative s, sign_end s)"
    unfolding scan_sign_def sign_end_def is_negative_def by (simp add: get_byte_def)
  have c: "drop (space_end s) s = s ! space_end s # drop (space_end s + 1) s" using l0 by (simp add: Cons_nth_drop_Suc)
  show z1: "0 \<in> set (drop (sign_end s) s)" using z0 arg_cong [OF c, of set] unfolding sign_end_def by auto
  then show "sign_end s < length s" by (cases "sign_end s < length s") auto
qed

text \<open>The scanner after white space and sign.\<close>

lemma scan_prefix:
  assumes "0 \<in> set s" "base_ok base"
  defines "bw \<equiv> word_of_int base :: u8"
  shows "scan s base limit = (if (bw = 0 \<or> bw = 16) \<and> s ! sign_end s = 48 then
      and_then (get_byte s (sign_end s + 1)) (\<lambda>mark.
        if mark OR 0x20 = 120 then
          and_then (get_byte s (sign_end s + 1 + 1)) (\<lambda>hex.
            if 16 \<le> digit_value hex then Ok (\<lparr>sr_value = 0, sr_end = sign_end s + 1\<rparr>, None)
            else scan_value s 16 (is_negative s) (sign_end s + 1 + 1) limit)
        else scan_value s (if bw = 0 then 8 else bw) (is_negative s) (sign_end s) limit)
     else if (if bw = 0 then 10 else bw) \<le> digit_value (s ! sign_end s) then Ok (\<lparr>sr_value = 0, sr_end = 0\<rparr>, Some EINVAL_code)
          else scan_value s (if bw = 0 then 10 else bw) (is_negative s) (sign_end s) limit)"
proof -
  have b: "\<not> (base < 0 \<or> base = 1 \<or> 36 < base)" using assms(2) unfolding base_ok_def by auto
  note p = sign_facts [OF assms(1)]
  show ?thesis unfolding scan_def if_not_P [OF b] p(1)
    by (simp only: and_then.simps p(2) prod.case get_byte_Ok [OF p(3)] Let_def bw_def [symmetric])
qed

lemma base_word:
  assumes "base_ok base"
  defines "bw \<equiv> word_of_int base :: u8"
  shows "bw = 0 \<longleftrightarrow> base = 0" "bw = 16 \<longleftrightarrow> base = 16" "base \<noteq> 0 \<Longrightarrow> 2 \<le> bw" "bw \<le> 36"
proof -
  have "uint bw = base" unfolding bw_def using assms(1) by (auto simp: base_ok_def uint_word_of_int)
  then show "bw = 0 \<longleftrightarrow> base = 0" "bw = 16 \<longleftrightarrow> base = 16" "base \<noteq> 0 \<Longrightarrow> 2 \<le> bw" "bw \<le> 36"
    using assms(1) by (auto simp: base_ok_def word_le_def word_uint_eq_iff)
qed

text \<open>The result the scanner should give for a subject sequence; \<open>v\<close> is the accumulated magnitude, which
  matters only while it fits 64 bits.\<close>

definition scan_result_of :: "u64 \<Rightarrow> bool \<times> u8 \<times> nat \<times> bytes \<Rightarrow> u64 \<Rightarrow> (scan_result \<times> int option, unit) outcome" where
  "scan_result_of limit subj v = (case subj of (negative, b, off, run) \<Rightarrow>
     if run = [] then Ok (\<lparr>sr_value = 0, sr_end = 0\<rparr>, Some EINVAL_code)
     else case saturate limit negative (2 ^ 64 \<le> digits_value b run) v of
            (w, e) \<Rightarrow> Ok (\<lparr>sr_value = w, sr_end = off + length run\<rparr>, e))"

definition magnitude :: "bool \<times> u8 \<times> nat \<times> bytes \<Rightarrow> nat" where
  "magnitude subj = (case subj of (negative, b, off, run) \<Rightarrow> digits_value b run)"

definition scans_to :: "bytes \<Rightarrow> int \<Rightarrow> u64 \<Rightarrow> bool" where
  "scans_to s base limit \<longleftrightarrow> (\<exists>v. (magnitude (subject s base) < 2 ^ 64 \<longrightarrow> unat v = magnitude (subject s base)) \<and>
     scan s base limit = scan_result_of limit (subject s base) v)"

lemma takeWhile_head: "off < length s \<Longrightarrow> takeWhile P (drop off s) = [] \<longleftrightarrow> \<not> P (s ! off)"
  by (simp add: takeWhile_eq_Nil_iff hd_drop_conv_nth)

lemma scans_toI:
  assumes "subject s base = (n, b, off, takeWhile (\<lambda>c. digit_value c < b) (drop off s))"
    "scan s base limit = scan_value s b n off limit" "digit_value (s ! off) < b"
    "0 \<in> set (drop off s)" "2 \<le> b" "b \<le> 36"
  shows "scans_to s base limit"
proof -
  from assms(4) have "off < length s" by (cases "off < length s") auto
  then have ne: "takeWhile (\<lambda>c. digit_value c < b) (drop off s) \<noteq> []" using assms(3) by (simp add: takeWhile_head)
  from scan_value_eq [OF assms(4,5,6), of n limit] show ?thesis
    unfolding scans_to_def scan_result_of_def magnitude_def assms(1,2) prod.case if_not_P [OF ne] .
qed

text \<open>No prefix: decimal, or an explicit base.\<close>

lemma scan_plain:
  assumes "0 \<in> set s" "base_ok base" "\<not> ((base = 0 \<or> base = 16) \<and> s ! sign_end s = 48)"
  shows "scans_to s base limit"
proof -
  define bw :: u8 where "bw = word_of_int base"
  note bw = base_word [OF assms(2), folded bw_def]
  have F: "\<not> ((bw = 0 \<or> bw = 16) \<and> s ! sign_end s = 48)" using assms(3) bw by simp
  define b where "b = (if bw = 0 then 10 else bw)"
  have bb: "2 \<le> b" "b \<le> 36" using bw by (auto simp: b_def)
  have sb: "subject s base = (is_negative s, b, sign_end s, takeWhile (\<lambda>c. digit_value c < b) (drop (sign_end s) s))"
    unfolding subject_def hex_prefix_def b_def bw_def using assms(3) bw(1,2) [unfolded bw_def] by (auto simp: Let_def)
  note p = sign_facts [OF assms(1)] and scan = scan_prefix [OF assms(1,2), of limit, folded bw_def, unfolded if_not_P [OF F], folded b_def]
  show ?thesis
  proof (cases "b \<le> digit_value (s ! sign_end s)")
    case True
    then have "takeWhile (\<lambda>c. digit_value c < b) (drop (sign_end s) s) = []" using p(3) by (simp add: takeWhile_head)
    then show ?thesis using scan True unfolding scans_to_def scan_result_of_def magnitude_def sb
      by (auto simp: digits_value_def intro: exI [of _ 0])
  next
    case False
    then have "scan s base limit = scan_value s b (is_negative s) (sign_end s) limit" using scan by (simp only: if_False)
    from scans_toI [OF sb this] False p(4) bb show ?thesis by (simp add: not_le)
  qed
qed

text \<open>A leading zero in base 0 or 16: \<open>0x\<close> and a digit, \<open>0x\<close> alone, or just the zero.\<close>

lemma scan_zero:
  assumes "0 \<in> set s" "base_ok base" "(base = 0 \<or> base = 16) \<and> s ! sign_end s = 48" "0 < limit"
  shows "scans_to s base limit"
proof -
  define bw :: u8 where "bw = word_of_int base"
  note bw = base_word [OF assms(2), folded bw_def] and p = sign_facts [OF assms(1)]
  have T: "(bw = 0 \<or> bw = 16) \<and> s ! sign_end s = 48" using assms(3) bw by simp
  define b where "b = (if bw = 0 then 8 else bw)"
  have b: "2 \<le> b" "b \<le> 16" "b \<le> 36" "0 < b" using T by (auto simp: b_def)
  note scan = scan_prefix [OF assms(1,2), of limit, folded bw_def, unfolded if_P [OF T], folded b_def]
  have c: "drop (sign_end s) s = 48 # drop (sign_end s + 1) s" using T p(3) by (metis Cons_nth_drop_Suc Suc_eq_plus1)
  then have z1: "0 \<in> set (drop (sign_end s + 1) s)" using p(4) by simp
  then have l1: "sign_end s + 1 < length s" by (cases "sign_end s + 1 < length s") auto
  have sub: "\<not> hex_prefix s base \<Longrightarrow>
      subject s base = (is_negative s, b, sign_end s, takeWhile (\<lambda>c. digit_value c < b) (drop (sign_end s) s))"
    unfolding subject_def b_def bw_def using assms(3) bw(1,2) [unfolded bw_def] by (auto simp: Let_def)
  show ?thesis
  proof (cases "s ! (sign_end s + 1) OR 0x20 = 120")
    case x: True
    have c1: "drop (sign_end s + 1) s = s ! (sign_end s + 1) # drop (sign_end s + 1 + 1) s" using l1 by (simp add: Cons_nth_drop_Suc)
    then have z2: "0 \<in> set (drop (sign_end s + 1 + 1) s)" using z1 byte_facts(1) [OF x] by auto
    then have l2: "sign_end s + 1 + 1 < length s" by (cases "sign_end s + 1 + 1 < length s") auto
    show ?thesis
    proof (cases "16 \<le> digit_value (s ! (sign_end s + 1 + 1))")
      case bare: True
      have "takeWhile (\<lambda>c. digit_value c < b) (drop (sign_end s) s) = [48]"
        unfolding c c1 using order_trans [OF b(2) byte_facts(2) [OF x]] b(4) by (simp add: byte_facts(4) not_less)
      moreover have "digits_value b [48] = 0" by (simp add: digits_value_def byte_facts(4))
      moreover have "saturate limit neg False 0 = (0, None)" for neg
        using assms(4) [folded not_le] unfolding saturate_def by (auto simp: Let_def)
      moreover have "scan s base limit = Ok (\<lparr>sr_value = 0, sr_end = sign_end s + 1\<rparr>, None)"
        unfolding scan using x bare l1 l2 by (simp add: get_byte_Ok)
      moreover have "\<not> hex_prefix s base" using bare by (simp add: hex_prefix_def not_less)
      ultimately show ?thesis using sub unfolding scans_to_def scan_result_of_def magnitude_def
        by (intro exI [of _ 0]) simp
    next
      case hex: False
      have "hex_prefix s base" using assms(3) x hex by (simp add: hex_prefix_def not_le)
      then have sb: "subject s base =
          (is_negative s, 16, sign_end s + 1 + 1, takeWhile (\<lambda>c. digit_value c < 16) (drop (sign_end s + 1 + 1) s))"
        by (simp add: subject_def)
      have "scan s base limit = scan_value s 16 (is_negative s) (sign_end s + 1 + 1) limit"
        unfolding scan get_byte_Ok [OF l1] and_then.simps if_P [OF x] get_byte_Ok [OF l2] if_not_P [OF hex] ..
      from scans_toI [OF sb this] hex z2 show ?thesis by (simp add: not_le)
    qed
  next
    case False
    then have sb: "subject s base = (is_negative s, b, sign_end s, takeWhile (\<lambda>c. digit_value c < b) (drop (sign_end s) s))"
      using sub by (simp add: hex_prefix_def)
    show ?thesis using scan False l1 p(4) b T by (intro scans_toI [OF sb]) (simp_all add: get_byte_Ok byte_facts(4))
  qed
qed

lemma scan_eq:
  assumes "0 \<in> set s" "base_ok base" "0 < limit"
  shows "scans_to s base limit"
  using scan_plain [OF assms(1,2)] scan_zero [OF assms(1,2) _ assms(3)] by blast

text \<open>The integer the text denotes, and where the conversion ends.\<close>

definition denoted :: "bytes \<Rightarrow> int \<Rightarrow> int" where
  "denoted s base = (case subject s base of (negative, b, off, run) \<Rightarrow>
     if negative then - int (digits_value b run) else int (digits_value b run))"

definition converts :: "bytes \<Rightarrow> int \<Rightarrow> bool" where
  "converts s base \<longleftrightarrow> (case subject s base of (negative, b, off, run) \<Rightarrow> run \<noteq> [])"

definition conversion_end :: "bytes \<Rightarrow> int \<Rightarrow> nat" where
  "conversion_end s base = (case subject s base of (negative, b, off, run) \<Rightarrow> off + length run)"

lemma scan_bad_base: "\<not> base_ok base \<Longrightarrow> scan s base limit = Ok (\<lparr>sr_value = 0, sr_end = 0\<rparr>, Some EINVAL_code)"
  unfolding scan_def base_ok_def by auto

lemma strtol_cases:
  assumes "0 \<in> set s" "base_ok base"
  shows "strtol s endptr base =
     (if converts s base then
        Ok (max (- (2 ^ 63)) (min (2 ^ 63 - 1) (denoted s base)), map_option (\<lambda>_. conversion_end s base) endptr,
            if denoted s base < - (2 ^ 63) \<or> 2 ^ 63 \<le> denoted s base then Some ERANGE_code else None)
      else Ok (0, map_option (\<lambda>_. 0) endptr, Some EINVAL_code))"
proof -
  obtain neg b off run where sb: "subject s base = (neg, b, off, run)" by (cases "subject s base")
  have "0 < (word_of_int (- (2 ^ 63)) :: u64)" by (simp add: word_gt_0)
  from scan_eq [OF assms this] obtain v where v: "digits_value b run < 2 ^ 64 \<Longrightarrow> unat v = digits_value b run"
    "scan s base (word_of_int (- (2 ^ 63))) = scan_result_of (word_of_int (- (2 ^ 63))) (neg, b, off, run) v"
    unfolding scans_to_def magnitude_def sb by auto
  from saturate_signed [OF v(1), of neg] obtain w where
    w: "saturate (word_of_int (- (2 ^ 63))) neg (2 ^ 64 \<le> digits_value b run) v =
      (w, if denoted s base < - (2 ^ 63) \<or> 2 ^ 63 \<le> denoted s base then Some ERANGE_code else None)"
    "sint w = max (- (2 ^ 63)) (min (2 ^ 63 - 1) (denoted s base))" unfolding denoted_def sb prod.case by blast
  show ?thesis
    unfolding strtol_def as_signed_def scan_with_endptr_def v(2) scan_result_of_def prod.case w(1) converts_def sb conversion_end_def w(2) [symmetric]
    by (cases "run = []") simp_all
qed

lemma strtoul_cases:
  assumes "0 \<in> set s" "base_ok base"
  shows "strtoul s endptr base =
     (if converts s base then
        Ok (if 2 ^ 64 \<le> \<bar>denoted s base\<bar> then - 1 else word_of_int (denoted s base), map_option (\<lambda>_. conversion_end s base) endptr,
            if 2 ^ 64 \<le> \<bar>denoted s base\<bar> then Some ERANGE_code else None)
      else Ok (0, map_option (\<lambda>_. 0) endptr, Some EINVAL_code))"
proof -
  obtain neg b off run where sb: "subject s base = (neg, b, off, run)" by (cases "subject s base")
  have "0 < (- 1 :: u64)" by (simp add: word_gt_0)
  from scan_eq [OF assms this] obtain v where v: "digits_value b run < 2 ^ 64 \<Longrightarrow> unat v = digits_value b run"
    "scan s base (- 1) = scan_result_of (- 1) (neg, b, off, run) v"
    unfolding scans_to_def magnitude_def sb by auto
  have d: "2 ^ 64 \<le> \<bar>denoted s base\<bar> \<longleftrightarrow> 2 ^ 64 \<le> digits_value b run" unfolding denoted_def sb by simp
  have w: "saturate (- 1) neg (2 ^ 64 \<le> digits_value b run) v =
      (if 2 ^ 64 \<le> digits_value b run then (- 1, Some ERANGE_code) else (word_of_int (denoted s base), None))"
    unfolding denoted_def sb prod.case by (rule saturate_unsigned) (rule v(1))
  show ?thesis
    unfolding strtoul_def scan_with_endptr_def v(2) scan_result_of_def prod.case w converts_def sb conversion_end_def d
    by (cases "run = []"; cases "2 ^ 64 \<le> digits_value b run") simp_all
qed

lemma decimal_loop_eq:
  fixes v :: "'w::len word"
  assumes "0 \<in> set (drop cursor input)"
  shows "decimal_loop input cursor v =
    Ok (foldl (\<lambda>a c. a * 10 - ucast (c - 48)) v (takeWhile is_decimal (drop cursor input)))"
  using assms
proof (induction input cursor v rule: decimal_loop.induct)
  case (1 input cursor v)
  then have c: "cursor < length input" by (cases "cursor < length input") auto
  then have d: "drop cursor input = input ! cursor # drop (cursor + 1) input" by (simp add: Cons_nth_drop_Suc)
  have "\<not> is_decimal 0" by (simp add: is_decimal_def)
  then have "is_decimal (input ! cursor) \<Longrightarrow> 0 \<in> set (drop (cursor + 1) input)" using 1(2) d by auto
  with 1(1) c show ?case unfolding d by (subst decimal_loop.simps) (simp add: Let_def)
qed

lemma foldl_decimal:
  "\<forall>c\<in>set run. is_decimal c \<Longrightarrow>
   foldl (\<lambda>a c. a * 10 - ucast (c - 48)) (- word_of_nat m :: 'w::len word) run =
     - word_of_nat (foldl (\<lambda>a c. a * unat (10 :: u8) + unat (digit_value c)) m run)"
proof (induction run arbitrary: m)
  case (Cons c run)
  have "(ucast (c - 48) :: 'w word) = word_of_nat (unat (digit_value c))" using digit_value_decimal(2) [of c] Cons.prems by simp
  then have e: "- word_of_nat m * 10 - ucast (c - 48) = (- word_of_nat (m * unat (10 :: u8) + unat (digit_value c)) :: 'w word)" by simp
  show ?case unfolding foldl.simps e by (rule Cons.IH) (use Cons.prems in simp)
qed simp

lemma denoted_decimal:
  "denoted s 10 = (if is_negative s then - int (digits_value 10 (takeWhile is_decimal (drop (sign_end s) s)))
     else int (digits_value 10 (takeWhile is_decimal (drop (sign_end s) s))))"
proof -
  have "(\<lambda>c. digit_value c < 10) = is_decimal" by (rule ext) (simp add: digit_value_decimal(1))
  then show ?thesis unfolding denoted_def subject_def hex_prefix_def by (simp add: Let_def)
qed

lemma decimal_result:
  assumes "0 \<in> set s"
  shows "and_then (skip_spaces s 0) (\<lambda>cursor. and_then (scan_sign s cursor) (\<lambda>(negative, cursor).
      and_then (decimal_loop s cursor (0 :: 'w::len word)) (\<lambda>value. Ok (sint (if negative then value else - value))))) =
      Ok (sint (word_of_int (denoted s 10) :: 'w word))"
proof -
  note p = sign_facts [OF assms]
  define run where "run = takeWhile is_decimal (drop (sign_end s) s)"
  have "\<forall>c\<in>set run. is_decimal c" unfolding run_def by (auto dest: set_takeWhileD)
  from foldl_decimal [OF this, of 0] have "decimal_loop s (sign_end s) (0 :: 'w word) = Ok (- word_of_nat (digits_value 10 run))"
    unfolding decimal_loop_eq [OF p(4)] run_def [symmetric] digits_value_def by simp
  then show ?thesis unfolding p(1) and_then.simps p(2) prod.case denoted_decimal run_def [symmetric] by simp
qed

lemma sint_word_i: "sint (word_of_int n :: 32 word) = i32_of n" "sint (word_of_int n :: 64 word) = i64_of n"
  by (simp_all add: int_word_sint i32_of_def i64_of_def)

subsection \<open>Properties\<close>

text \<open>C29. \<open>strtol\<close>, \<open>strtoll\<close> and \<open>strtoimax\<close> on a NUL-terminated string with a valid base read only the string,
  and return the denoted integer clamped to the 64-bit signed range, with \<open>ERANGE\<close> exactly when it had to be clamped
  and the end pointer right after the longest digit run (a bare \<open>0x\<close> counts as the digit zero). Without digits, or with
  an invalid base, they return 0, set \<open>EINVAL\<close> and leave the end pointer at the start.\<close>

theorem strtol_clamps:
  assumes "f \<in> {strtol, strtoll, strtoimax}"
  shows "(0 \<in> set s \<and> base_ok base \<longrightarrow> f s endptr base =
     (if converts s base then
        Ok (max (- (2 ^ 63)) (min (2 ^ 63 - 1) (denoted s base)), map_option (\<lambda>_. conversion_end s base) endptr,
            if denoted s base < - (2 ^ 63) \<or> 2 ^ 63 \<le> denoted s base then Some ERANGE_code else None)
      else Ok (0, map_option (\<lambda>_. 0) endptr, Some EINVAL_code))) \<and>
   (\<not> base_ok base \<longrightarrow> f s endptr base = Ok (0, map_option (\<lambda>_. 0) endptr, Some EINVAL_code))"
proof -
  have "f s endptr base = strtol s endptr base" using assms by (auto simp: strtol_def strtoll_def strtoimax_def)
  then show ?thesis using strtol_cases [of s base endptr]
    by (simp add: strtol_def as_signed_def scan_with_endptr_def scan_bad_base)
qed

text \<open>C30. \<open>strtoul\<close>, \<open>strtoull\<close> and \<open>strtoumax\<close>: the denoted integer modulo \<open>2^64\<close>, or the maximum with \<open>ERANGE\<close>
  exactly when its magnitude does not fit 64 bits, whatever the sign; the same end pointer and \<open>EINVAL\<close> rules.\<close>

theorem strtoul_wraps:
  assumes "f \<in> {strtoul, strtoull, strtoumax}"
  shows "(0 \<in> set s \<and> base_ok base \<longrightarrow> f s endptr base =
     (if converts s base then
        Ok (if 2 ^ 64 \<le> \<bar>denoted s base\<bar> then - 1 else word_of_int (denoted s base), map_option (\<lambda>_. conversion_end s base) endptr,
            if 2 ^ 64 \<le> \<bar>denoted s base\<bar> then Some ERANGE_code else None)
      else Ok (0, map_option (\<lambda>_. 0) endptr, Some EINVAL_code))) \<and>
   (\<not> base_ok base \<longrightarrow> f s endptr base = Ok (0, map_option (\<lambda>_. 0) endptr, Some EINVAL_code))"
proof -
  have "f s endptr base = strtoul s endptr base" using assms by (auto simp: strtoul_def strtoull_def strtoumax_def)
  then show ?thesis using strtoul_cases [of s base endptr]
    by (simp add: strtoul_def scan_with_endptr_def scan_bad_base)
qed

text \<open>C31. \<open>atoi\<close>, \<open>atol\<close> and \<open>atoll\<close> on any NUL-terminated string return the denoted decimal integer wrapped to
  their width; so they agree with \<open>strtol\<close> in base ten whenever that integer is in range.\<close>

theorem atoi_wraps:
  assumes "0 \<in> set s"
  shows "atoi s = Ok (i32_of (denoted s 10)) \<and> atol s = Ok (i64_of (denoted s 10)) \<and> atoll s = atol s \<and>
    (- (2 ^ 63) \<le> denoted s 10 \<and> denoted s 10 < 2 ^ 63 \<longrightarrow>
       strtol s None 10 = Ok (denoted s 10, None, if converts s 10 then None else Some EINVAL_code) \<and>
       atol s = Ok (denoted s 10))"
proof -
  have a: "atoi s = Ok (i32_of (denoted s 10))" "atol s = Ok (i64_of (denoted s 10))" "atoll s = atol s"
    unfolding atoi_def atol_def atoll_def decimal_i32_def decimal_long_def decimal_long_long_def decimal_result [OF assms] sint_word_i
    by simp_all
  have "denoted s 10 = 0" if "\<not> converts s 10"
    using that unfolding converts_def denoted_def by (auto simp: digits_value_def split: prod.splits)
  then have "strtol s None 10 = Ok (denoted s 10, None, if converts s 10 then None else Some EINVAL_code)"
    if "- (2 ^ 63) \<le> denoted s 10" "denoted s 10 < 2 ^ 63"
    using strtol_cases [OF assms, of 10 None] that by (cases "converts s 10") (auto simp: base_ok_def)
  with a i64_of_id show ?thesis by auto
qed

text \<open>Sample inputs: \<open> -0x1fz\<close>, and \<open>-2147483649\<close>.\<close>

definition hex_text :: bytes where "hex_text = [32, 45, 48, 120, 49, 102, 122, 0]"
definition low_text :: bytes where "low_text = [45, 50, 49, 52, 55, 52, 56, 51, 54, 52, 57, 0]"

lemma sample_texts:
  "0 \<in> set hex_text" "converts hex_text 0" "denoted hex_text 0 = - 31" "conversion_end hex_text 0 = 6"
  by code_simp+

lemma sample_decimal: "0 \<in> set low_text" "denoted low_text 10 = - 2147483649"
  by (simp_all add: low_text_def denoted_decimal sign_end_def is_negative_def space_end_def ascii_space_def
      is_decimal_def digits_value_def digit_value_def)

theorem strtol_clamps_witness: "strtol hex_text (Some 0) 0 = Ok (- 31, Some 6, None)"
  using strtol_clamps [of strtol hex_text 0 "Some 0"] by (simp add: sample_texts base_ok_def)

theorem strtoul_wraps_witness: "strtoumax hex_text (Some 0) 0 = Ok (word_of_int (- 31), Some 6, None)"
  using strtoul_wraps [of strtoumax hex_text 0 "Some 0"] by (simp add: sample_texts base_ok_def)

theorem atoi_wraps_witness: "atoi low_text = Ok 2147483647 \<and> atol low_text = Ok (- 2147483649)"
  using atoi_wraps [OF sample_decimal(1)] unfolding sample_decimal(2) by (simp add: i32_of_def i64_of_def)

end
