(* ===== verification/Hsearch.thy ===== *)
theory Hsearch
  imports Prelude
begin

text \<open>
  \<open>libc/src/c_abi/x86_64/search_hash_table.rs\<close>: \<open>hcreate\<close>, \<open>hsearch\<close> and
  \<open>hdestroy\<close> with their reentrant siblings, in the allocator-free configuration, where the table
  record and the entry array are private mappings.

  Pointers are natural numbers with 0 for null. \<open>mem p\<close> is the list of bytes readable at the
  caller's key pointer \<open>p\<close>. The mapping primitives are parameters: \<open>env n\<close> is the answer
  of the kernel to the \<open>n\<close>-th request, an address and the \<open>errno\<close> of a failure. A result of
  type \<open>'a run\<close> is \<open>None\<close> when the code does not return.
\<close>

type_synonym 'a run = "('a, unit) outcome option"

primrec run_bind :: "'a run \<Rightarrow> ('a \<Rightarrow> 'b run) \<Rightarrow> 'b run" where
  "run_bind None f = None"
| "run_bind (Some r) f = (case r of Ok a \<Rightarrow> f a | Err e \<Rightarrow> Some (Err e) | Panic \<Rightarrow> Some Panic)"

definition MINIMUM_SIZE :: u64 where "MINIMUM_SIZE = 8"
definition MAXIMUM_SIZE :: u64 where "MAXIMUM_SIZE = 2 ^ 63"
definition PAGE_SIZE :: nat where "PAGE_SIZE = 4096"
definition PAGE_MASK :: nat where "PAGE_MASK = PAGE_SIZE - 1"
definition TABLE_MAPPING_SIZE :: nat where "TABLE_MAPPING_SIZE = PAGE_SIZE"
definition ENOMEM :: int where "ENOMEM = 12"
definition ENTRY_SIZE :: nat where "ENTRY_SIZE = 16"

record slot =
  sl_key :: nat
  sl_data :: nat

definition empty_slot :: slot where "empty_slot = \<lparr>sl_key = 0, sl_data = 0\<rparr>"

text \<open>The entry array is its address and its cells; \<open>None\<close> is the null pointer.\<close>

record table =
  tb_entries :: "(nat \<times> slot list) option"
  tb_mask :: u64
  tb_used :: u64
  tb_mapping_size :: nat

text \<open>The caller's record: the address of the table mapping and the table there.\<close>

record hsearch_data =
  hs_table :: "(nat \<times> table) option"

text \<open>What the operations see of the process: requests made, live mappings with their lengths, \<open>errno\<close>.\<close>

record kernel =
  k_calls :: nat
  k_live :: "(nat \<times> nat) list"
  k_errno :: int

subsection \<open>Mappings\<close>

definition mapping_size :: "nat \<Rightarrow> nat option" where
  "mapping_size bytes =
     Option.bind (checked_add bytes PAGE_MASK) (\<lambda>s.
       let rounded = s div PAGE_SIZE * PAGE_SIZE
       in if rounded = 0 \<or> 2 ^ 63 - 1 \<le> rounded then None else Some rounded)"

definition map_zeroed :: "(nat \<Rightarrow> nat \<times> int) \<Rightarrow> nat \<Rightarrow> kernel \<Rightarrow> nat \<times> kernel" where
  "map_zeroed env len k =
     (let (mapping, err) = env (k_calls k);
          k = k\<lparr>k_calls := k_calls k + 1\<rparr>
      in if mapping = 2 ^ 64 - 1 then (0, k\<lparr>k_errno := err\<rparr>)
         else if mapping = 0 then (0, k\<lparr>k_errno := ENOMEM\<rparr>)
         else (mapping, k\<lparr>k_live := (mapping, len) # k_live k\<rparr>))"

definition release_mapping :: "nat \<Rightarrow> nat \<Rightarrow> kernel \<Rightarrow> kernel" where
  "release_mapping address len k = k\<lparr>k_live := remove1 (address, len) (k_live k)\<rparr>"

subsection \<open>Keys\<close>

fun key_hash_from :: "bytes \<Rightarrow> u64 \<Rightarrow> (u64, unit) outcome" where
  "key_hash_from [] hash = Panic"
| "key_hash_from (byte # cursor) hash =
     (if byte = 0 then Ok hash else key_hash_from cursor (hash * 31 + ucast byte))"

definition key_hash :: "bytes \<Rightarrow> (u64, unit) outcome" where
  "key_hash key = key_hash_from key 0"

fun keys_equal :: "bytes \<Rightarrow> bytes \<Rightarrow> (bool, unit) outcome" where
  "keys_equal (left_byte # left) (right_byte # right) =
     (if left_byte \<noteq> right_byte then Ok False
      else if left_byte = 0 then Ok True
      else keys_equal left right)"
| "keys_equal _ _ = Panic"

subsection \<open>Lookup\<close>

text \<open>The probe loop: it returns the index of the entry it stops at.\<close>

partial_function (option) lookup_loop ::
    "(nat \<Rightarrow> bytes) \<Rightarrow> bytes \<Rightarrow> slot list \<Rightarrow> u64 \<Rightarrow> u64 \<Rightarrow> u64 \<Rightarrow> (nat, unit) outcome option" where
  [code]: "lookup_loop mem key entries msk index step =
     (let i = unat (index AND msk) in
      if length entries \<le> i then Some Panic
      else if sl_key (entries ! i) = 0 then Some (Ok i)
      else (case keys_equal (mem (sl_key (entries ! i))) key of
              Ok found \<Rightarrow> if found then Some (Ok i)
                          else lookup_loop mem key entries msk (index + step) (step + 1)
            | Err e \<Rightarrow> Some (Err e)
            | Panic \<Rightarrow> Some Panic))"

definition lookup :: "(nat \<Rightarrow> bytes) \<Rightarrow> bytes \<Rightarrow> u64 \<Rightarrow> table \<Rightarrow> nat run" where
  "lookup mem key hash tab =
     (case tb_entries tab of
        None \<Rightarrow> Some Panic
      | Some (address, entries) \<Rightarrow> lookup_loop mem key entries (tb_mask tab) hash 1)"

definition write_entry :: "table \<Rightarrow> nat \<Rightarrow> slot \<Rightarrow> table" where
  "write_entry tab i s =
     tab\<lparr>tb_entries := map_option (\<lambda>(address, entries). (address, entries[i := s])) (tb_entries tab)\<rparr>"

subsection \<open>Growing\<close>

partial_function (option) grow_size :: "u64 \<Rightarrow> u64 \<Rightarrow> u64 option" where
  [code]: "grow_size requested new_size =
     (if new_size < requested then grow_size requested (new_size * 2) else Some new_size)"

text \<open>\<open>allocate_entries\<close>: the address, the cells and the mapping size of a zero-filled array.\<close>

definition allocate_entries ::
    "(nat \<Rightarrow> nat \<times> int) \<Rightarrow> u64 \<Rightarrow> kernel \<Rightarrow> (nat \<times> slot list \<times> nat) option \<times> kernel" where
  "allocate_entries env count k =
     (let entry_bytes = unat count * ENTRY_SIZE in
      if 2 ^ 64 \<le> entry_bytes then (None, k\<lparr>k_errno := ENOMEM\<rparr>)
      else (case mapping_size entry_bytes of
              None \<Rightarrow> (None, k\<lparr>k_errno := ENOMEM\<rparr>)
            | Some msize \<Rightarrow>
                (let (entries, k) = map_zeroed env msize k
                 in if entries = 0 then (None, k)
                    else (Some (entries, replicate (unat count) empty_slot, msize), k))))"

text \<open>The rehash loop over the cells of the old array.\<close>

fun rehash :: "(nat \<Rightarrow> bytes) \<Rightarrow> slot list \<Rightarrow> table \<Rightarrow> table run" where
  "rehash mem [] tab = Some (Ok tab)"
| "rehash mem (old_entry # rest) tab =
     (if sl_key old_entry = 0 then rehash mem rest tab
      else
        run_bind (Some (key_hash (mem (sl_key old_entry)))) (\<lambda>hash.
        run_bind (lookup mem (mem (sl_key old_entry)) hash tab) (\<lambda>destination.
          rehash mem rest (write_entry tab destination old_entry))))"

definition resize ::
    "(nat \<Rightarrow> nat \<times> int) \<Rightarrow> (nat \<Rightarrow> bytes) \<Rightarrow> u64 \<Rightarrow> table \<Rightarrow> kernel \<Rightarrow> (bool \<times> table \<times> kernel) run" where
  "resize env mem requested tab k =
     (let old_entries = tb_entries tab;
          old_size = tb_mask tab + 1;
          old_mapping_size = tb_mapping_size tab;
          requested = min requested MAXIMUM_SIZE
      in case grow_size requested MINIMUM_SIZE of
           None \<Rightarrow> None
         | Some new_size \<Rightarrow>
             (case allocate_entries env new_size k of
                (None, k) \<Rightarrow> Some (Ok (False, tab, k))
              | (Some (address, entries, msize), k) \<Rightarrow>
                  (let tab = tab\<lparr>tb_entries := Some (address, entries), tb_mask := new_size - 1,
                                 tb_mapping_size := msize\<rparr>
                   in case old_entries of
                        None \<Rightarrow> Some (Ok (True, tab, k))
                      | Some (old_address, old_cells) \<Rightarrow>
                          if length old_cells < unat old_size then Some Panic
                          else run_bind (rehash mem (take (unat old_size) old_cells) tab) (\<lambda>tab.
                            Some (Ok (True, tab, release_mapping old_address old_mapping_size k))))))"

subsection \<open>The operations\<close>

definition zero_table :: table where
  "zero_table = \<lparr>tb_entries = None, tb_mask = 0, tb_used = 0, tb_mapping_size = 0\<rparr>"

definition create ::
    "(nat \<Rightarrow> nat \<times> int) \<Rightarrow> (nat \<Rightarrow> bytes) \<Rightarrow> u64 \<Rightarrow> hsearch_data \<Rightarrow> kernel \<Rightarrow>
     (bool \<times> hsearch_data \<times> kernel) run" where
  "create env mem requested state k =
     (let (address, k) = map_zeroed env TABLE_MAPPING_SIZE k in
      if address = 0 then Some (Ok (False, state\<lparr>hs_table := None\<rparr>, k))
      else run_bind (resize env mem requested zero_table k) (\<lambda>(ok, tab, k).
        if \<not> ok then
          Some (Ok (False, state\<lparr>hs_table := None\<rparr>, release_mapping address TABLE_MAPPING_SIZE k))
        else Some (Ok (True, state\<lparr>hs_table := Some (address, tab)\<rparr>, k))))"

definition destroy :: "hsearch_data \<Rightarrow> kernel \<Rightarrow> hsearch_data \<times> kernel" where
  "destroy state k =
     (case hs_table state of
        None \<Rightarrow> (state, k)
      | Some (address, tab) \<Rightarrow>
          (let k = (case tb_entries tab of
                      None \<Rightarrow> k
                    | Some (entries, cells) \<Rightarrow> release_mapping entries (tb_mapping_size tab) k)
           in (state\<lparr>hs_table := None\<rparr>, release_mapping address TABLE_MAPPING_SIZE k)))"

text \<open>The address of entry \<open>i\<close> of the current array.\<close>

definition entry_address :: "table \<Rightarrow> nat \<Rightarrow> nat" where
  "entry_address tab i =
     (case tb_entries tab of None \<Rightarrow> 0 | Some (address, entries) \<Rightarrow> address + ENTRY_SIZE * i)"

definition entry_key :: "table \<Rightarrow> nat \<Rightarrow> nat" where
  "entry_key tab i = (case tb_entries tab of None \<Rightarrow> 0 | Some (address, entries) \<Rightarrow> sl_key (entries ! i))"

definition clear_entry_key :: "table \<Rightarrow> nat \<Rightarrow> table" where
  "clear_entry_key tab i =
     tab\<lparr>tb_entries := map_option (\<lambda>(address, entries). (address, entries[i := (entries ! i)\<lparr>sl_key := 0\<rparr>])) (tb_entries tab)\<rparr>"

text \<open>\<open>search\<close> returns success, the pointer written to \<open>*result\<close>, the state and the kernel.
  A search without a live table dereferences a null pointer.\<close>

definition search ::
    "(nat \<Rightarrow> nat \<times> int) \<Rightarrow> (nat \<Rightarrow> bytes) \<Rightarrow> slot \<Rightarrow> int \<Rightarrow> hsearch_data \<Rightarrow> kernel \<Rightarrow>
     (bool \<times> nat \<times> hsearch_data \<times> kernel) run" where
  "search env mem item action state k =
     run_bind (Some (key_hash (mem (sl_key item)))) (\<lambda>hash.
       case hs_table state of
         None \<Rightarrow> Some Panic
       | Some (table_address, tab) \<Rightarrow>
           run_bind (lookup mem (mem (sl_key item)) hash tab) (\<lambda>entry.
             if entry_key tab entry \<noteq> 0 then Some (Ok (True, entry_address tab entry, state, k))
             else if action = 0 then Some (Ok (False, 0, state, k))
             else
               let incremented_used = tb_used tab + 1;
                   tab = (write_entry tab entry item)\<lparr>tb_used := incremented_used\<rparr>;
                   msk = tb_mask tab;
                   resize_threshold = msk - msk div 4
               in if resize_threshold < incremented_used then
                    run_bind (resize env mem (incremented_used * 2) tab k) (\<lambda>(ok, tab, k).
                      if \<not> ok then
                        Some (Ok (False, 0,
                          state\<lparr>hs_table := Some (table_address,
                            clear_entry_key (tab\<lparr>tb_used := incremented_used - 1\<rparr>) entry)\<rparr>, k))
                      else run_bind (lookup mem (mem (sl_key item)) hash tab) (\<lambda>relocated.
                        Some (Ok (True, entry_address tab relocated,
                          state\<lparr>hs_table := Some (table_address, tab)\<rparr>, k))))
                  else Some (Ok (True, entry_address tab entry, state\<lparr>hs_table := Some (table_address, tab)\<rparr>, k))))"

text \<open>The C entries. The global ones work on one record that starts without a table.\<close>

definition GLOBAL_TABLE :: hsearch_data where "GLOBAL_TABLE = \<lparr>hs_table = None\<rparr>"

definition hcreate_r where "hcreate_r env mem requested state k = create env mem requested state k"
definition hdestroy_r where "hdestroy_r state k = destroy state k"
definition hsearch_r where "hsearch_r env mem item action state k = search env mem item action state k"

definition hcreate where "hcreate env mem requested global k = create env mem requested global k"
definition hdestroy where "hdestroy global k = destroy global k"

definition hsearch ::
    "(nat \<Rightarrow> nat \<times> int) \<Rightarrow> (nat \<Rightarrow> bytes) \<Rightarrow> slot \<Rightarrow> int \<Rightarrow> hsearch_data \<Rightarrow> kernel \<Rightarrow>
     (nat \<times> hsearch_data \<times> kernel) run" where
  "hsearch env mem item action global k =
     run_bind (search env mem item action global k) (\<lambda>(ok, result, global, k). Some (Ok (result, global, k)))"

end
