(* ===== verification/HsearchTable.thy ===== *)
theory HsearchTable
  imports Hsearch "HOL-Library.Multiset"
begin

text \<open>
  The open-addressed table as a map from key strings to entries: the quadratic probe sequence
  visits every cell of a power-of-two array, so lookups end; the invariant that every stored key is
  reachable along its probe sequence; lookup, insertion and rehashing against the map.
\<close>

subsection \<open>Keys\<close>

definition is_cstr :: "bytes \<Rightarrow> bool" where "is_cstr s \<longleftrightarrow> 0 \<in> set s"

definition cstr :: "bytes \<Rightarrow> bytes" where "cstr s = takeWhile (\<lambda>b. b \<noteq> 0) s"

definition hash_of :: "bytes \<Rightarrow> u64" where "hash_of = foldl (\<lambda>h b. h * 31 + ucast b) 0"

lemma key_hash_from_eq: "is_cstr s \<Longrightarrow> key_hash_from s h = Ok (foldl (\<lambda>h b. h * 31 + ucast b) h (cstr s))"
  by (induction s h rule: key_hash_from.induct) (auto simp: is_cstr_def cstr_def)

lemma key_hash_eq: "is_cstr s \<Longrightarrow> key_hash s = Ok (hash_of (cstr s))"
  unfolding key_hash_def hash_of_def by (rule key_hash_from_eq)

lemma keys_equal_eq: "is_cstr s \<Longrightarrow> is_cstr t \<Longrightarrow> keys_equal s t = Ok (cstr s = cstr t)"
  by (induction s t rule: keys_equal.induct) (auto simp: is_cstr_def cstr_def)

subsection \<open>The probe sequence\<close>

definition tri :: "nat \<Rightarrow> nat" where "tri i = i * (i + 1) div 2"

lemma tri_Suc: "tri (Suc i) = tri i + (i + 1)"
proof -
  have "Suc i * (Suc i + 1) = i * (i + 1) + 2 * (i + 1)" by simp
  then show ?thesis unfolding tri_def by simp
qed

lemma two_tri: "2 * tri i = i * (i + 1)"
  unfolding tri_def by simp

lemma tri_mono: "i < j \<Longrightarrow> tri i \<le> tri j"
  unfolding tri_def by (intro div_le_mono mult_le_mono) auto

text \<open>The first \<open>2^k\<close> triangular numbers are distinct modulo \<open>2^k\<close>.\<close>

lemma tri_inj:
  assumes "i < j" "j < 2 ^ k"
  shows "tri i mod 2 ^ k \<noteq> tri j mod 2 ^ k"
proof
  assume "tri i mod 2 ^ k = tri j mod 2 ^ k"
  with tri_mono [OF assms(1)] have "2 ^ k dvd tri j - tri i" by (metis mod_eq_dvd_iff_nat)
  then have "2 ^ Suc k dvd 2 * tri j - 2 * tri i" by (simp flip: diff_mult_distrib2)
  moreover have "2 * tri j - 2 * tri i = (j - i) * (i + j + 1)"
  proof -
    obtain d where d: "j = i + d" using assms(1) by (metis less_imp_add_positive)
    show ?thesis unfolding two_tri d by (simp add: algebra_simps)
  qed
  ultimately have dv: "2 ^ Suc k dvd (j - i) * (i + j + 1)" by simp
  have "odd (j - i) \<or> odd (i + j + 1)" using assms(1) by auto
  then consider "coprime (2 ^ Suc k) (j - i)" | "coprime (2 ^ Suc k) (i + j + 1)"
    by (metis coprime_power_left_iff coprime_left_2_iff_odd)
  then have "2 ^ Suc k dvd i + j + 1 \<or> 2 ^ Suc k dvd j - i"
    using dv by (metis coprime_dvd_mult_right_iff coprime_dvd_mult_left_iff)
  moreover have "0 < i + j + 1" "i + j + 1 < 2 ^ Suc k" "0 < j - i" "j - i < 2 ^ Suc k" using assms by auto
  ultimately show False by (metis nat_dvd_not_less)
qed

definition probe :: "nat \<Rightarrow> u64 \<Rightarrow> nat \<Rightarrow> nat" where
  "probe k h i = (unat h + tri i) mod 2 ^ k"

lemma probe_less: "probe k h i < 2 ^ k" unfolding probe_def by simp

lemma probe_covers:
  assumes "p < 2 ^ k" obtains i where "i < 2 ^ k" "probe k h i = p"
proof -
  have inj: "inj_on (probe k h) {..<2 ^ k}"
  proof (rule linorder_inj_onI)
    fix i j :: nat assume "i < j" "i \<in> {..<2 ^ k}" "j \<in> {..<2 ^ k}"
    then have "tri i mod 2 ^ k \<noteq> tri j mod 2 ^ k" "tri i \<le> tri j" using tri_inj tri_mono by simp_all
    then have "\<not> 2 ^ k dvd (unat h + tri j) - (unat h + tri i)" by (metis add_diff_cancel_left mod_eq_dvd_iff_nat)
    with \<open>tri i \<le> tri j\<close> show "probe k h i \<noteq> probe k h j" unfolding probe_def by (metis add_le_cancel_left mod_eq_dvd_iff_nat)
  qed auto
  have "probe k h ` {..<2 ^ k} \<subseteq> {..<2 ^ k}" using probe_less by auto
  with inj have "probe k h ` {..<2 ^ k} = {..<2 ^ k}" by (intro endo_inj_surj) auto
  with assms that show thesis by (metis imageE lessThan_iff)
qed

lemma unat_probe_index:
  assumes "k \<le> 64"
  shows "unat ((h + word_of_nat (tri i)) AND (2 ^ k - 1) :: u64) = probe k h i"
proof -
  have m: "(2 ^ k - 1 :: u64) = mask k" by (simp add: mask_eq_exp_minus_1)
  have "unat ((h + word_of_nat (tri i)) AND (2 ^ k - 1) :: u64) = unat (h + word_of_nat (tri i)) mod 2 ^ k"
    unfolding m by (rule unat_and_mask_mod)
  also have "\<dots> = (unat h + tri i) mod 2 ^ 64 mod 2 ^ k"
    by (simp add: unat_word_ariths unat_of_nat take_bit_eq_mod mod_add_right_eq)
  also have "\<dots> = (unat h + tri i) mod 2 ^ k"
    using assms by (intro mod_mod_cancel le_imp_power_dvd)
  finally show ?thesis unfolding probe_def .
qed

subsection \<open>Cells\<close>

definition occupied :: "slot \<Rightarrow> bool" where "occupied s \<longleftrightarrow> sl_key s \<noteq> 0"

definition key_of :: "(nat \<Rightarrow> bytes) \<Rightarrow> slot \<Rightarrow> bytes" where "key_of mem s = cstr (mem (sl_key s))"

text \<open>The map a list of cells stands for.\<close>

definition cells_map :: "(nat \<Rightarrow> bytes) \<Rightarrow> slot list \<Rightarrow> bytes \<Rightarrow> slot option" where
  "cells_map mem cells key = find (\<lambda>s. occupied s \<and> key_of mem s = key) cells"

definition reachable :: "(nat \<Rightarrow> bytes) \<Rightarrow> nat \<Rightarrow> slot list \<Rightarrow> bytes \<Rightarrow> nat \<Rightarrow> bool" where
  "reachable mem k cells key p \<longleftrightarrow>
     (\<exists>i. probe k (hash_of key) i = p \<and> (\<forall>j<i. occupied (cells ! probe k (hash_of key) j)))"

definition cells_ok :: "(nat \<Rightarrow> bytes) \<Rightarrow> nat \<Rightarrow> slot list \<Rightarrow> bool" where
  "cells_ok mem k cells \<longleftrightarrow> length cells = 2 ^ k \<and>
     (\<forall>p<2 ^ k. occupied (cells ! p) \<longrightarrow>
        is_cstr (mem (sl_key (cells ! p))) \<and> reachable mem k cells (key_of mem (cells ! p)) p \<and>
        (\<forall>q<2 ^ k. occupied (cells ! q) \<longrightarrow> key_of mem (cells ! q) = key_of mem (cells ! p) \<longrightarrow> q = p))"

definition used_cells :: "slot list \<Rightarrow> nat" where
  "used_cells cells = length (filter occupied cells)"

lemma cells_map_Some_iff:
  assumes "cells_ok mem k cells"
  shows "cells_map mem cells key = Some s \<longleftrightarrow> (\<exists>p<2 ^ k. cells ! p = s \<and> occupied s \<and> key_of mem s = key)"
proof
  assume "cells_map mem cells key = Some s"
  then show "\<exists>p<2 ^ k. cells ! p = s \<and> occupied s \<and> key_of mem s = key"
    using assms unfolding cells_map_def cells_ok_def find_Some_iff by auto
next
  assume "\<exists>p<2 ^ k. cells ! p = s \<and> occupied s \<and> key_of mem s = key"
  then obtain p where p: "p < 2 ^ k" "cells ! p = s" "occupied s" "key_of mem s = key" by blast
  have "occupied (cells ! q) \<Longrightarrow> key_of mem (cells ! q) = key \<Longrightarrow> q < 2 ^ k \<Longrightarrow> q = p" for q
    using assms p unfolding cells_ok_def by metis
  with p assms show "cells_map mem cells key = Some s"
    unfolding cells_map_def cells_ok_def find_Some_iff by (metis less_trans nat_less_le)
qed

lemma cells_map_None_iff:
  "cells_map mem cells key = None \<longleftrightarrow> (\<forall>s\<in>set cells. occupied s \<longrightarrow> key_of mem s \<noteq> key)"
  unfolding cells_map_def find_None_iff by auto

lemma used_less_empty:
  assumes "used_cells cells < length cells" obtains p where "p < length cells" "\<not> occupied (cells ! p)"
  using assms unfolding used_cells_def by (metis filter_True in_set_conv_nth less_irrefl)

subsection \<open>Lookup\<close>

lemma lookup_loop_probes:
  assumes "k \<le> 64" "length cells = 2 ^ k" "is_cstr key"
    and "\<forall>p<2 ^ k. occupied (cells ! p) \<longrightarrow> is_cstr (mem (sl_key (cells ! p)))"
    and "i \<le> m" "\<forall>j. i \<le> j \<and> j < m \<longrightarrow> occupied (cells ! probe k h j) \<and> key_of mem (cells ! probe k h j) \<noteq> cstr key"
    and "\<not> occupied (cells ! probe k h m) \<or> key_of mem (cells ! probe k h m) = cstr key"
  shows "lookup_loop mem key cells (2 ^ k - 1) (h + word_of_nat (tri i)) (word_of_nat (i + 1)) = Some (Ok (probe k h m))"
  using assms(5,6)
proof (induction "m - i" arbitrary: i)
  case 0
  then have "i = m" by simp
  show ?case unfolding \<open>i = m\<close>
    using assms(1-4,7) probe_less [of k h m]
    by (subst lookup_loop.simps) (auto simp: unat_probe_index Let_def keys_equal_eq occupied_def key_of_def)
next
  case (Suc n)
  have i: "i < m" using Suc by simp
  then have c: "occupied (cells ! probe k h i)" "key_of mem (cells ! probe k h i) \<noteq> cstr key" using Suc.prems by auto
  have "h + word_of_nat (tri i) + word_of_nat (i + 1) = h + word_of_nat (tri (i + 1))"
    by (simp add: tri_Suc)
  moreover have "word_of_nat (i + 1) + 1 = (word_of_nat (i + 1 + 1) :: u64)" by simp
  moreover have "lookup_loop mem key cells (2 ^ k - 1) (h + word_of_nat (tri (i + 1))) (word_of_nat (i + 1 + 1)) = Some (Ok (probe k h m))"
    using Suc i by (intro Suc.hyps) auto
  ultimately show ?case using assms(1-4) c probe_less [of k h i]
    by (subst lookup_loop.simps) (simp add: unat_probe_index Let_def keys_equal_eq occupied_def key_of_def add.assoc del: of_nat_add of_nat_Suc)
qed

text \<open>Where a key is or would be stored: the entry holding it, or the first empty cell of its probe sequence.\<close>

definition home :: "(nat \<Rightarrow> bytes) \<Rightarrow> nat \<Rightarrow> slot list \<Rightarrow> bytes \<Rightarrow> nat \<Rightarrow> bool" where
  "home mem k cells key p \<longleftrightarrow> p < 2 ^ k \<and>
     (case cells_map mem cells key of
        Some s \<Rightarrow> cells ! p = s \<and> occupied s \<and> key_of mem s = key
      | None \<Rightarrow> \<not> occupied (cells ! p) \<and> reachable mem k cells key p)"

lemma lookup_home:
  assumes "cells_ok mem k cells" "k \<le> 64" "is_cstr key" "used_cells cells < 2 ^ k"
  obtains p where "lookup_loop mem key cells (2 ^ k - 1) (hash_of (cstr key)) 1 = Some (Ok p)" "home mem k cells (cstr key) p"
proof -
  let ?h = "hash_of (cstr key)"
  let ?stop = "\<lambda>i. \<not> occupied (cells ! probe k ?h i) \<or> key_of mem (cells ! probe k ?h i) = cstr key"
  have len: "length cells = 2 ^ k" using assms(1) by (simp add: cells_ok_def)
  obtain q where q: "q < 2 ^ k" "\<not> occupied (cells ! q)" using used_less_empty assms(4) len by metis
  then have "\<exists>i. ?stop i" using probe_covers [OF q(1)] by metis
  define m where "m = (LEAST i. ?stop i)"
  have m: "?stop m" using \<open>\<exists>i. ?stop i\<close> unfolding m_def by (rule LeastI_ex)
  have before: "occupied (cells ! probe k ?h j)" "key_of mem (cells ! probe k ?h j) \<noteq> cstr key" if "j < m" for j
    using that not_less_Least unfolding m_def by blast+
  have l: "lookup_loop mem key cells (2 ^ k - 1) ?h 1 = Some (Ok (probe k ?h m))"
    using lookup_loop_probes [OF assms(2) len assms(3), of mem 0 m ?h] m before assms(1)
    by (simp add: tri_def cells_ok_def)
  have "home mem k cells (cstr key) (probe k ?h m)"
  proof (cases "cells_map mem cells (cstr key)")
    case None
    then have "\<not> occupied (cells ! probe k ?h m)"
      using m probe_less [of k ?h m] len unfolding cells_map_None_iff by (metis nth_mem)
    with None show ?thesis using before unfolding home_def reachable_def by (auto simp: probe_less)
  next
    case (Some s)
    then obtain p where p: "p < 2 ^ k" "cells ! p = s" "occupied s" "key_of mem s = cstr key"
      using cells_map_Some_iff [OF assms(1)] by blast
    then have "reachable mem k cells (cstr key) p" using assms(1) unfolding cells_ok_def by metis
    then obtain i where i: "probe k ?h i = p" "\<forall>j<i. occupied (cells ! probe k ?h j)" unfolding reachable_def by blast
    then have "m \<le> i" using p unfolding m_def by (intro Least_le) simp
    then have "occupied (cells ! probe k ?h m)" using i p by (cases "m = i") auto
    then have "probe k ?h m = p" using m p assms(1) probe_less [of k ?h m] unfolding cells_ok_def by metis
    with p Some show ?thesis unfolding home_def by simp
  qed
  with l that show thesis by blast
qed

subsection \<open>Insertion\<close>

lemma used_insert: "p < length cells \<Longrightarrow> \<not> occupied (cells ! p) \<Longrightarrow> occupied s \<Longrightarrow> used_cells (cells[p := s]) = used_cells cells + 1"
proof (induction cells arbitrary: p)
  case (Cons c cells)
  then show ?case by (cases p) (auto simp: used_cells_def)
qed simp

lemma used_replicate: "used_cells (replicate n empty_slot) = 0"
  unfolding used_cells_def by (simp add: empty_slot_def occupied_def)

lemma occupied_update: "occupied s \<Longrightarrow> occupied (cells ! r) \<Longrightarrow> r < length cells \<Longrightarrow> occupied (cells[q := s] ! r)"
  by (cases "q = r") auto

lemma reachable_update:
  "reachable mem k cells key p \<Longrightarrow> length cells = 2 ^ k \<Longrightarrow> occupied s \<Longrightarrow> reachable mem k (cells[q := s]) key p"
  unfolding reachable_def by (elim exE conjE, intro exI conjI) (auto intro: occupied_update simp: probe_less)

lemma insert_home:
  assumes "cells_ok mem k cells" "home mem k cells (key_of mem s) p" "cells_map mem cells (key_of mem s) = None"
    "occupied s" "is_cstr (mem (sl_key s))"
  shows "cells_ok mem k (cells[p := s])" "cells_map mem (cells[p := s]) = (cells_map mem cells)(key_of mem s \<mapsto> s)"
proof -
  have len: "length cells = 2 ^ k" using assms(1) by (simp add: cells_ok_def)
  have p: "p < 2 ^ k" "\<not> occupied (cells ! p)" "reachable mem k cells (key_of mem s) p"
    using assms(2,3) unfolding home_def by simp_all
  have fresh: "occupied (cells ! q) \<Longrightarrow> q < 2 ^ k \<Longrightarrow> key_of mem (cells ! q) \<noteq> key_of mem s" for q
    using assms(3) len unfolding cells_map_None_iff by simp
  show ok: "cells_ok mem k (cells[p := s])"
    unfolding cells_ok_def
  proof (intro conjI allI impI)
    fix q assume q: "q < 2 ^ k" "occupied (cells[p := s] ! q)"
    show "is_cstr (mem (sl_key (cells[p := s] ! q)))"
      using q assms(1,5) p len unfolding cells_ok_def by (cases "q = p") auto
    show "reachable mem k (cells[p := s]) (key_of mem (cells[p := s] ! q)) q"
      using q assms(1,4) p len unfolding cells_ok_def by (cases "q = p") (auto intro: reachable_update)
    fix r assume r: "r < 2 ^ k" "occupied (cells[p := s] ! r)" "key_of mem (cells[p := s] ! r) = key_of mem (cells[p := s] ! q)"
    show "r = q"
    proof (cases "q = p")
      case True
      then show ?thesis using r p len fresh [of r] by (cases "r = p") auto
    next
      case False
      then show ?thesis using r q p len fresh [of q] assms(1) unfolding cells_ok_def by (cases "r = p") auto
    qed
  qed (simp add: len)
  show "cells_map mem (cells[p := s]) = (cells_map mem cells)(key_of mem s \<mapsto> s)"
  proof
    fix key
    have "cells_map mem (cells[p := s]) key = Some t \<longleftrightarrow> ((cells_map mem cells)(key_of mem s \<mapsto> s)) key = Some t" for t
    proof (cases "key = key_of mem s")
      case True
      have "(\<exists>q<2 ^ k. cells[p := s] ! q = t \<and> occupied t \<and> key_of mem t = key) \<longleftrightarrow> t = s"
        using True p(1) len assms(4) fresh by (metis nth_list_update_eq nth_list_update_neq)
      with True show ?thesis unfolding cells_map_Some_iff [OF ok] by auto
    next
      case False
      have "(\<exists>q<2 ^ k. cells[p := s] ! q = t \<and> occupied t \<and> key_of mem t = key) \<longleftrightarrow>
          (\<exists>q<2 ^ k. cells ! q = t \<and> occupied t \<and> key_of mem t = key)"
        using False p(1,2) len by (metis nth_list_update_eq nth_list_update_neq)
      with False show ?thesis using cells_map_Some_iff [OF ok, of key t] cells_map_Some_iff [OF assms(1), of key t] by simp
    qed
    then show "cells_map mem (cells[p := s]) key = ((cells_map mem cells)(key_of mem s \<mapsto> s)) key"
      by (cases "cells_map mem (cells[p := s]) key") (metis option.distinct(1) option.exhaust)+
  qed
qed

subsection \<open>Rehashing\<close>

lemma cells_map_Nil [simp]: "cells_map mem [] = Map.empty"
  by (simp add: cells_map_def fun_eq_iff)

lemma cells_map_Cons:
  "cells_map mem (s # cells) = (if occupied s then (cells_map mem cells)(key_of mem s \<mapsto> s) else cells_map mem cells)"
  by (auto simp: cells_map_def fun_eq_iff)

lemma cells_map_replicate [simp]: "cells_map mem (replicate n empty_slot) = Map.empty"
  by (induction n) (simp_all add: cells_map_Cons occupied_def empty_slot_def)

lemma cells_ok_replicate: "cells_ok mem k (replicate (2 ^ k) empty_slot)"
  by (simp add: cells_ok_def occupied_def empty_slot_def)

definition keys_differ :: "(nat \<Rightarrow> bytes) \<Rightarrow> slot list \<Rightarrow> bool" where
  "keys_differ mem = sorted_wrt (\<lambda>s t. occupied s \<longrightarrow> occupied t \<longrightarrow> key_of mem s \<noteq> key_of mem t)"

lemma cells_ok_keys_differ:
  assumes "cells_ok mem k cells" shows "keys_differ mem cells"
  unfolding keys_differ_def sorted_wrt_iff_nth_less
proof (intro allI impI notI)
  fix i j assume *: "i < j" "j < length cells" "occupied (cells ! i)" "occupied (cells ! j)"
    "key_of mem (cells ! i) = key_of mem (cells ! j)"
  then have "i < 2 ^ k" "j < 2 ^ k" using assms by (simp_all add: cells_ok_def)
  with * assms have "i = j" unfolding cells_ok_def by blast
  with * show False by simp
qed

lemma used_cells_Cons: "used_cells (s # cells) = (if occupied s then 1 else 0) + used_cells cells"
  by (simp add: used_cells_def)

lemma lookup_table:
  "tb_entries tab = Some (address, cells) \<Longrightarrow> tb_mask tab = 2 ^ k - 1 \<Longrightarrow>
   lookup mem key h tab = lookup_loop mem key cells (2 ^ k - 1) h 1"
  unfolding lookup_def by simp

lemma rehash_map:
  assumes "k \<le> 64" "\<forall>s\<in>set old. occupied s \<longrightarrow> is_cstr (mem (sl_key s))" "keys_differ mem old"
    and "tb_entries tab = Some (address, cells)" "tb_mask tab = 2 ^ k - 1" "cells_ok mem k cells"
    and "used_cells cells + used_cells old < 2 ^ k"
    and "\<forall>s\<in>set old. occupied s \<longrightarrow> cells_map mem cells (key_of mem s) = None"
  shows "\<exists>cells'. rehash mem old tab = Some (Ok (tab\<lparr>tb_entries := Some (address, cells')\<rparr>)) \<and> cells_ok mem k cells' \<and>
     used_cells cells' = used_cells cells + used_cells old \<and> cells_map mem cells' = cells_map mem cells ++ cells_map mem old"
  using assms(2-)
proof (induction old arbitrary: tab cells)
  case Nil
  then show ?case by (intro exI [of _ cells]) (simp add: used_cells_def)
next
  case (Cons s old)
  show ?case
  proof (cases "occupied s")
    case False
    then have "sl_key s = 0" by (simp add: occupied_def)
    with Cons.IH [of tab cells] Cons.prems False show ?thesis by (simp add: keys_differ_def cells_map_Cons used_cells_Cons)
  next
    case True
    have c: "is_cstr (mem (sl_key s))" "cells_map mem cells (key_of mem s) = None" "used_cells cells < 2 ^ k"
      using Cons.prems True by (auto simp: used_cells_Cons)
    from lookup_home [OF Cons.prems(5) assms(1) c(1,3)] obtain p where
      p: "lookup_loop mem (mem (sl_key s)) cells (2 ^ k - 1) (hash_of (cstr (mem (sl_key s)))) 1 = Some (Ok p)"
        "home mem k cells (key_of mem s) p" unfolding key_of_def by blast
    have pl: "p < length cells" "\<not> occupied (cells ! p)"
      using p(2) c(2) Cons.prems(5) unfolding home_def cells_ok_def by simp_all
    note i = insert_home [OF Cons.prems(5) p(2) c(2) True c(1)]
    let ?t = "write_entry tab p s"
    have t: "tb_entries ?t = Some (address, cells[p := s])" "tb_mask ?t = 2 ^ k - 1"
      using Cons.prems(3,4) by (simp_all add: write_entry_def)
    have "rehash mem (s # old) tab = rehash mem old ?t"
      using True key_hash_eq [OF c(1)] p(1) lookup_table [OF Cons.prems(3,4)] by (simp add: occupied_def)
    moreover have "used_cells (cells[p := s]) = used_cells cells + 1" using used_insert [OF pl True] .
    moreover have "\<exists>cells'. rehash mem old ?t = Some (Ok (?t\<lparr>tb_entries := Some (address, cells')\<rparr>)) \<and> cells_ok mem k cells' \<and>
      used_cells cells' = used_cells (cells[p := s]) + used_cells old \<and>
      cells_map mem cells' = cells_map mem (cells[p := s]) ++ cells_map mem old"
    proof (rule Cons.IH [OF _ _ t i(1)])
      show "\<forall>u\<in>set old. occupied u \<longrightarrow> cells_map mem (cells[p := s]) (key_of mem u) = None"
        unfolding i(2) using Cons.prems(2,7) True by (auto simp: keys_differ_def)
    qed (use Cons.prems True \<open>used_cells (cells[p := s]) = used_cells cells + 1\<close> in \<open>simp_all add: keys_differ_def used_cells_Cons\<close>)
    moreover have "cells_map mem (cells[p := s]) ++ cells_map mem old = cells_map mem cells ++ cells_map mem (s # old)"
    proof -
      have "cells_map mem old (key_of mem s) = None"
        using Cons.prems(2) True unfolding keys_differ_def cells_map_None_iff by auto
      then show ?thesis unfolding i(2) cells_map_Cons using True by (auto simp: map_add_def fun_eq_iff split: option.splits)
    qed
    ultimately show ?thesis using True by (auto simp: used_cells_Cons write_entry_def)
  qed
qed

end
