(* ===== verification/HsearchProps.thy ===== *)
theory HsearchProps
  imports HsearchTable
begin

text \<open>
  The operations of the hash table against a map from key strings to entries: the invariant of the
  caller's record and of the mappings it owns, creation, searching with growth and rollback, and
  destruction.
\<close>

subsection \<open>Sizes\<close>

lemma unat_pow2:
  assumes "k < 64" shows "unat (2 ^ k :: u64) = 2 ^ k"
proof -
  have "unat (word_of_nat (2 ^ k) :: u64) = 2 ^ k mod 2 ^ 64" by (simp add: unat_of_nat del: of_nat_power)
  moreover have "(2 :: nat) ^ k < 2 ^ 64" using assms by (rule power_strict_increasing) simp
  ultimately show ?thesis by simp
qed

lemma grow_size_pow2:
  assumes "unat r \<le> 2 ^ 63" "j \<le> 63"
  shows "\<exists>k. j \<le> k \<and> k \<le> 63 \<and> grow_size r (2 ^ j) = Some (2 ^ k) \<and> unat r \<le> 2 ^ k"
  using assms(2)
proof (induction "63 - j" arbitrary: j)
  case 0
  then have "j = 63" by simp
  moreover have "\<not> 2 ^ 63 < r" using assms(1) by (simp add: word_less_nat_alt)
  ultimately show ?case using assms(1) by (subst grow_size.simps) (auto intro!: exI [of _ 63])
next
  case (Suc n)
  show ?case
  proof (cases "(2 :: u64) ^ j < r")
    case True
    have "\<exists>k. j + 1 \<le> k \<and> k \<le> 63 \<and> grow_size r (2 ^ (j + 1)) = Some (2 ^ k) \<and> unat r \<le> 2 ^ k"
      using Suc by (intro Suc.hyps) auto
    then show ?thesis using True by (subst grow_size.simps) (auto simp: mult.commute intro: Suc_leD)
  next
    case False
    then have "unat r \<le> 2 ^ j" using Suc.prems unat_pow2 [of j] by (simp add: word_less_nat_alt)
    with False Suc.prems show ?thesis by (subst grow_size.simps) auto
  qed
qed

lemma grow_size_minimum:
  obtains k where "3 \<le> k" "k \<le> 63" "grow_size (min r MAXIMUM_SIZE) MINIMUM_SIZE = Some (2 ^ k)"
    "unat r \<le> 2 ^ 63 \<Longrightarrow> unat r \<le> 2 ^ k"
proof -
  have m: "unat (min r MAXIMUM_SIZE) \<le> 2 ^ 63" "unat r \<le> 2 ^ 63 \<Longrightarrow> min r MAXIMUM_SIZE = r"
    unfolding MAXIMUM_SIZE_def min_def by (auto simp: word_le_nat_alt)
  from grow_size_pow2 [OF m(1), of 3] obtain k where "3 \<le> k" "k \<le> 63"
    "grow_size (min r MAXIMUM_SIZE) MINIMUM_SIZE = Some (2 ^ k)" "unat (min r MAXIMUM_SIZE) \<le> 2 ^ k"
    unfolding MINIMUM_SIZE_def by auto
  with m(2) that [of k] show thesis by metis
qed

lemma allocate_cases:
  assumes "k \<le> 63"
  obtains (fail) kk' where "allocate_entries env (2 ^ k) kk = (None, kk')" "k_live kk' = k_live kk"
  | (ok) kk' address msize where "allocate_entries env (2 ^ k) kk = (Some (address, replicate (2 ^ k) empty_slot, msize), kk')"
      "k \<le> 58" "address \<noteq> 0" "k_live kk' = (address, msize) # k_live kk"
proof -
  have u: "unat (2 ^ k :: u64) = 2 ^ k" using assms by (intro unat_pow2) simp
  show thesis
  proof (cases "fst (allocate_entries env (2 ^ k) kk)")
    case None
    have "k_live (snd (allocate_entries env (2 ^ k) kk)) = k_live kk"
      using None unfolding allocate_entries_def map_zeroed_def
      by (auto simp: Let_def split: prod.splits if_splits option.splits)
    with None fail show thesis by (metis prod.collapse)
  next
    case (Some r)
    obtain msize where ms: "mapping_size (2 ^ k * ENTRY_SIZE) = Some msize" "2 ^ k * ENTRY_SIZE < 2 ^ 64"
      using Some unfolding allocate_entries_def u by (auto simp: Let_def not_le split: if_splits option.splits)
    obtain a e where a: "env (k_calls kk) = (a, e)" by (cases "env (k_calls kk)")
    have "a \<noteq> 0" "a \<noteq> 2 ^ 64 - 1" using Some ms a unfolding allocate_entries_def u map_zeroed_def
      by (auto simp: Let_def split: if_splits)
    have "k \<le> 58"
    proof (rule ccontr)
      assume "\<not> k \<le> 58"
      then have "(2 :: nat) ^ 59 * 16 \<le> 2 ^ k * 16" by (intro mult_le_mono1 power_increasing) auto
      then have "(2 ^ 59 * 16) div 4096 \<le> (2 ^ k * ENTRY_SIZE + PAGE_MASK) div 4096"
        unfolding ENTRY_SIZE_def by (intro div_le_mono) simp
      then have "2 ^ 63 \<le> (2 ^ k * ENTRY_SIZE + PAGE_MASK) div PAGE_SIZE * PAGE_SIZE"
        unfolding PAGE_SIZE_def by simp
      with ms show False unfolding mapping_size_def by (auto simp: Let_def checked_add_def split: if_splits)
    qed
    have "allocate_entries env (2 ^ k) kk = (Some (a, replicate (2 ^ k) empty_slot, msize),
        kk\<lparr>k_calls := k_calls kk + 1, k_live := (a, msize) # k_live kk\<rparr>)"
      using ms \<open>a \<noteq> 0\<close> \<open>a \<noteq> 2 ^ 64 - 1\<close> a unfolding allocate_entries_def u map_zeroed_def by (simp add: Let_def)
    from ok [OF this \<open>k \<le> 58\<close> \<open>a \<noteq> 0\<close>] show thesis by simp
  qed
qed

subsection \<open>The invariant\<close>

text \<open>A table with its array: power-of-two size, consistent cells, the count of used entries and the load
  bound that keeps an empty cell.\<close>

definition table_ok :: "(nat \<Rightarrow> bytes) \<Rightarrow> table \<Rightarrow> nat \<Rightarrow> nat \<Rightarrow> slot list \<Rightarrow> bool" where
  "table_ok mem tab k address cells \<longleftrightarrow> 3 \<le> k \<and> k \<le> 58 \<and> address \<noteq> 0 \<and>
     tb_entries tab = Some (address, cells) \<and> tb_mask tab = 2 ^ k - 1 \<and> cells_ok mem k cells \<and>
     unat (tb_used tab) = used_cells cells"

definition load_ok :: "nat \<Rightarrow> slot list \<Rightarrow> bool" where
  "load_ok k cells \<longleftrightarrow> used_cells cells \<le> 2 ^ k - 1 - (2 ^ k - 1) div 4"

lemma pow2_ge_8: "3 \<le> k \<Longrightarrow> (8 :: nat) \<le> 2 ^ k"
  using power_increasing [of 3 k "2 :: nat"] by simp

lemma load_ok_less: "3 \<le> k \<Longrightarrow> load_ok k cells \<Longrightarrow> used_cells cells + 1 < 2 ^ k"
  using pow2_ge_8 [of k] unfolding load_ok_def by linarith

lemma half_load_ok: "3 \<le> k \<Longrightarrow> 2 * used_cells cells \<le> 2 ^ k \<Longrightarrow> load_ok k cells"
  using pow2_ge_8 [of k] unfolding load_ok_def by linarith

lemma resize_fresh:
  assumes "tb_entries tab = None"
  obtains (fail) kk' where "resize env mem requested tab kk = Some (Ok (False, tab, kk'))" "k_live kk' = k_live kk"
  | (ok) kk' k address tab' msize where "resize env mem requested tab kk = Some (Ok (True, tab', kk'))"
      "3 \<le> k" "k \<le> 58" "address \<noteq> 0" "tab' = tab\<lparr>tb_entries := Some (address, replicate (2 ^ k) empty_slot), tb_mask := 2 ^ k - 1, tb_mapping_size := msize\<rparr>"
      "k_live kk' = (address, msize) # k_live kk"
proof -
  obtain k where k: "3 \<le> k" "k \<le> 63" "grow_size (min requested MAXIMUM_SIZE) MINIMUM_SIZE = Some (2 ^ k)"
    by (rule grow_size_minimum [of requested]) blast
  show thesis
  proof (cases rule: allocate_cases [OF k(2), of env kk])
    case (1 kk')
    with k show ?thesis by (intro fail [of kk']) (simp_all add: resize_def Let_def)
  next
    case (2 kk' address msize)
    with k assms show ?thesis
      by (intro ok [of _ kk' k address msize, OF _ k(1) 2(2,3) refl 2(4)]) (simp add: resize_def Let_def)
  qed
qed

lemma resize_table:
  assumes "table_ok mem tab k address cells" "used_cells cells < 2 ^ k" "requested = tb_used tab * 2"
  obtains (fail) kk' where "resize env mem requested tab kk = Some (Ok (False, tab, kk'))" "k_live kk' = k_live kk"
  | (ok) kk' kk1 k' address' cells' tab' where "resize env mem requested tab kk = Some (Ok (True, tab', kk'))"
      "table_ok mem tab' k' address' cells'" "load_ok k' cells'" "cells_map mem cells' = cells_map mem cells"
      "tb_used tab' = tb_used tab"
      "kk' = release_mapping address (tb_mapping_size tab) kk1" "k_live kk1 = (address', tb_mapping_size tab') # k_live kk"
proof -
  note t = assms(1) [unfolded table_ok_def]
  have len: "length cells = 2 ^ k" using t unfolding cells_ok_def by simp
  have ub: "used_cells cells < 2 ^ 58" using assms(2) t power_increasing [of k 58 "2 :: nat"] by simp
  have ur: "unat requested = 2 * used_cells cells"
    unfolding assms(3) using t ub by (simp add: unat_word_ariths)
  obtain k' where k': "3 \<le> k'" "k' \<le> 63" "grow_size (min requested MAXIMUM_SIZE) MINIMUM_SIZE = Some (2 ^ k')"
    "unat requested \<le> 2 ^ 63 \<Longrightarrow> unat requested \<le> 2 ^ k'"
    by (rule grow_size_minimum [of requested]) blast
  have half: "2 * used_cells cells \<le> 2 ^ k'" using k'(4) ur ub by simp
  show thesis
  proof (cases rule: allocate_cases [OF k'(2), of env kk])
    case (1 kk')
    with k' show ?thesis by (intro fail [of kk']) (simp_all add: resize_def Let_def)
  next
    case (2 kk1 address' msize)
    define tab1 where "tab1 = tab\<lparr>tb_entries := Some (address', replicate (2 ^ k') empty_slot), tb_mask := 2 ^ k' - 1, tb_mapping_size := msize\<rparr>"
    have "\<exists>cells'. rehash mem cells tab1 = Some (Ok (tab1\<lparr>tb_entries := Some (address', cells')\<rparr>)) \<and> cells_ok mem k' cells' \<and>
       used_cells cells' = used_cells (replicate (2 ^ k') empty_slot) + used_cells cells \<and>
       cells_map mem cells' = cells_map mem (replicate (2 ^ k') empty_slot) ++ cells_map mem cells"
    proof (rule rehash_map)
      show "\<forall>s\<in>set cells. occupied s \<longrightarrow> is_cstr (mem (sl_key s))"
        using t len unfolding cells_ok_def by (metis in_set_conv_nth)
      show "keys_differ mem cells" using t cells_ok_keys_differ by blast
      show "cells_ok mem k' (replicate (2 ^ k') empty_slot)" by (rule cells_ok_replicate)
      show "used_cells (replicate (2 ^ k') empty_slot) + used_cells cells < 2 ^ k'"
        using half pow2_ge_8 [OF k'(1)] unfolding used_replicate by linarith
    qed (use k' in \<open>simp_all add: tab1_def\<close>)
    then obtain cells' where c: "rehash mem cells tab1 = Some (Ok (tab1\<lparr>tb_entries := Some (address', cells')\<rparr>))"
      "cells_ok mem k' cells'" "used_cells cells' = used_cells cells" "cells_map mem cells' = cells_map mem cells"
      by (auto simp: used_replicate)
    define tab2 where "tab2 = tab1\<lparr>tb_entries := Some (address', cells')\<rparr>"
    have "unat (tb_mask tab + 1) = 2 ^ k" using t unat_pow2 [of k] by simp
    with 2 k' t c(1) len have "resize env mem requested tab kk = Some (Ok (True, tab2, release_mapping address (tb_mapping_size tab) kk1))"
      unfolding resize_def tab1_def [symmetric] tab2_def [symmetric] by (simp add: Let_def tab1_def tab2_def)
    moreover have "table_ok mem tab2 k' address' cells'"
      unfolding table_ok_def tab2_def tab1_def using k' 2 c t by simp
    moreover have "load_ok k' cells'" using half_load_ok [OF k'(1)] half c(3) by simp
    ultimately show ?thesis using c(4) 2(4) by (intro ok [of tab2 _ k' address' cells' kk1]) (simp_all add: tab2_def tab1_def)
  qed
qed

text \<open>Changing an empty cell into another empty cell.\<close>

lemma empty_update:
  assumes "\<not> occupied (cells ! p)" "\<not> occupied s" "p < length cells"
  shows "cells_map mem (cells[p := s]) = cells_map mem cells" "used_cells (cells[p := s]) = used_cells cells"
  using assms
proof (induction cells arbitrary: p)
  case (Cons c cells)
  {
    case 1
    with Cons show ?case by (cases p) (auto simp: cells_map_Cons)
  next
    case 2
    with Cons show ?case by (cases p) (auto simp: used_cells_Cons)
  }
qed simp_all

lemma cells_ok_empty_update:
  assumes "cells_ok mem k cells" "\<not> occupied (cells ! p)" "\<not> occupied s" "p < 2 ^ k"
  shows "cells_ok mem k (cells[p := s])"
proof -
  have len: "length cells = 2 ^ k" using assms(1) by (simp add: cells_ok_def)
  have o: "occupied (cells[p := s] ! q) = occupied (cells ! q)" for q
    using assms len by (cases "q = p") auto
  have n: "occupied (cells ! q) \<Longrightarrow> cells[p := s] ! q = cells ! q" for q using assms(2) by (cases "q = p") auto
  show ?thesis using assms(1) unfolding cells_ok_def reachable_def o by (simp add: n len)
qed

subsection \<open>The caller's record\<close>

definition owned :: "hsearch_data \<Rightarrow> (nat \<times> nat) list" where
  "owned st = (case hs_table st of
     None \<Rightarrow> []
   | Some (address, tab) \<Rightarrow> (address, TABLE_MAPPING_SIZE) #
       (case tb_entries tab of None \<Rightarrow> [] | Some (entries, cells) \<Rightarrow> [(entries, tb_mapping_size tab)]))"

text \<open>The live mappings that do not belong to the record.\<close>

definition foreign :: "hsearch_data \<Rightarrow> kernel \<Rightarrow> (nat \<times> nat) multiset" where
  "foreign st kk = mset (k_live kk) - mset (owned st)"

definition state_ok :: "(nat \<Rightarrow> bytes) \<Rightarrow> hsearch_data \<Rightarrow> kernel \<Rightarrow> bool" where
  "state_ok mem st kk \<longleftrightarrow> mset (owned st) \<subseteq># mset (k_live kk) \<and>
     (case hs_table st of
        None \<Rightarrow> True
      | Some (address, tab) \<Rightarrow> (\<exists>k entries cells. table_ok mem tab k entries cells \<and> load_ok k cells))"

definition state_map :: "(nat \<Rightarrow> bytes) \<Rightarrow> hsearch_data \<Rightarrow> bytes \<Rightarrow> slot option" where
  "state_map mem st = (case hs_table st of
     None \<Rightarrow> Map.empty
   | Some (address, tab) \<Rightarrow>
       (case tb_entries tab of None \<Rightarrow> Map.empty | Some (entries, cells) \<Rightarrow> cells_map mem cells))"

text \<open>The entry a returned pointer designates.\<close>

definition points_to :: "hsearch_data \<Rightarrow> nat \<Rightarrow> slot \<Rightarrow> bool" where
  "points_to st ptr s \<longleftrightarrow> (\<exists>address tab entries cells i. hs_table st = Some (address, tab) \<and>
     tb_entries tab = Some (entries, cells) \<and> i < length cells \<and> ptr = entries + ENTRY_SIZE * i \<and> cells ! i = s)"

lemma state_table:
  assumes "table_ok mem tab k entries cells"
  shows "state_map mem (st\<lparr>hs_table := Some (address, tab)\<rparr>) = cells_map mem cells"
    "owned (st\<lparr>hs_table := Some (address, tab)\<rparr>) = [(address, TABLE_MAPPING_SIZE), (entries, tb_mapping_size tab)]"
    "p < 2 ^ k \<Longrightarrow> points_to (st\<lparr>hs_table := Some (address, tab)\<rparr>) (entry_address tab p) (cells ! p)"
  using assms by (auto simp: table_ok_def state_map_def owned_def points_to_def entry_address_def cells_ok_def)

lemma table_entry_key: "table_ok mem tab k entries cells \<Longrightarrow> entry_key tab p = sl_key (cells ! p)"
  by (simp add: table_ok_def entry_key_def)

lemma lookup_table_home:
  assumes "table_ok mem tab k entries cells" "used_cells cells < 2 ^ k" "is_cstr key"
  obtains p where "lookup mem key (hash_of (cstr key)) tab = Some (Ok p)" "home mem k cells (cstr key) p"
  using assms lookup_home [of mem k cells key] lookup_table [of tab entries cells k mem key "hash_of (cstr key)"]
  unfolding table_ok_def by auto

lemma ledger_grow:
  assumes "{#t, e#} \<subseteq># mset live"
  shows "{#t, e'#} \<subseteq># mset (remove1 e (e' # live))" "mset (remove1 e (e' # live)) - {#t, e'#} = mset live - {#t, e#}"
proof -
  from assms obtain R where R: "mset live = {#t, e#} + R" by (rule subset_mset.le_iff_add [THEN iffD1, THEN exE])
  have m: "mset (remove1 e (e' # live)) = {#t, e'#} + R" using R by simp
  show "{#t, e'#} \<subseteq># mset (remove1 e (e' # live))" unfolding m by simp
  show "mset (remove1 e (e' # live)) - {#t, e'#} = mset live - {#t, e#}" unfolding m R by simp
qed

lemma write_entry_fields [simp]:
  "tb_mask (write_entry tab i s) = tb_mask tab" "tb_used (write_entry tab i s) = tb_used tab"
  "tb_mapping_size (write_entry tab i s) = tb_mapping_size tab"
  by (simp_all add: write_entry_def)

subsection \<open>Searching\<close>

text \<open>The result a search should give, over the map of the record.\<close>

definition search_result ::
    "(nat \<Rightarrow> bytes) \<Rightarrow> slot \<Rightarrow> int \<Rightarrow> hsearch_data \<Rightarrow> kernel \<Rightarrow> bool \<times> nat \<times> hsearch_data \<times> kernel \<Rightarrow> bool" where
  "search_result mem item action st kk r = (case r of (ok, ptr, st', kk') \<Rightarrow>
     case state_map mem st (key_of mem item) of
       Some s \<Rightarrow> ok \<and> points_to st' ptr s \<and> st' = st \<and> kk' = kk
     | None \<Rightarrow>
         if action = 0 then \<not> ok \<and> ptr = 0 \<and> st' = st \<and> kk' = kk
         else if ok then points_to st' ptr item \<and> state_map mem st' = (state_map mem st)(key_of mem item \<mapsto> item)
         else ptr = 0 \<and> state_map mem st' = state_map mem st)"

lemma insert_table:
  assumes "table_ok mem tab k entries cells" "load_ok k cells" "home mem k cells (key_of mem item) p"
    "cells_map mem cells (key_of mem item) = None" "occupied item" "is_cstr (mem (sl_key item))"
  defines "tab1 \<equiv> (write_entry tab p item)\<lparr>tb_used := tb_used tab + 1\<rparr>"
  shows "table_ok mem tab1 k entries (cells[p := item])" "tb_mapping_size tab1 = tb_mapping_size tab"
    "cells_map mem (cells[p := item]) = (cells_map mem cells)(key_of mem item \<mapsto> item)"
    "used_cells (cells[p := item]) = used_cells cells + 1" "used_cells (cells[p := item]) < 2 ^ k"
    "\<not> tb_mask tab - tb_mask tab div 4 < tb_used tab + 1 \<longleftrightarrow> load_ok k (cells[p := item])"
proof -
  note t = assms(1) [unfolded table_ok_def]
  have ok: "cells_ok mem k cells" and len: "length cells = 2 ^ k" using t by (simp_all add: cells_ok_def)
  have p: "p < length cells" "\<not> occupied (cells ! p)" using assms(3,4) len unfolding home_def by simp_all
  show u: "used_cells (cells[p := item]) = used_cells cells + 1" by (rule used_insert [OF p assms(5)])
  show ul: "used_cells (cells[p := item]) < 2 ^ k" using load_ok_less [OF _ assms(2)] t u by simp
  have "(2 :: nat) ^ k \<le> 2 ^ 58" using t by (intro power_increasing) auto
  with ul u have b: "used_cells cells + 1 < 2 ^ 64" by simp
  have uu: "unat (tb_used tab + 1) = used_cells cells + 1" using t b by (simp add: unat_word_ariths)
  show "table_ok mem tab1 k entries (cells[p := item])" "tb_mapping_size tab1 = tb_mapping_size tab"
    using t uu u insert_home(1) [OF ok assms(3,4,5,6)] by (simp_all add: table_ok_def tab1_def write_entry_def)
  show "cells_map mem (cells[p := item]) = (cells_map mem cells)(key_of mem item \<mapsto> item)"
    by (rule insert_home(2) [OF ok assms(3,4,5,6)])
  have "unat (tb_mask tab - tb_mask tab div 4) = 2 ^ k - 1 - (2 ^ k - 1) div 4"
  proof -
    have m: "unat (tb_mask tab) = 2 ^ k - 1" using t unat_pow2 [of k] by (simp add: unat_sub word_le_nat_alt)
    have "unat (tb_mask tab div 4) = (2 ^ k - 1) div 4" unfolding unat_div_distrib m by simp
    moreover from this have "tb_mask tab div 4 \<le> tb_mask tab" by (simp add: word_le_nat_alt m)
    ultimately show ?thesis by (simp add: unat_sub m)
  qed
  then show "\<not> tb_mask tab - tb_mask tab div 4 < tb_used tab + 1 \<longleftrightarrow> load_ok k (cells[p := item])"
    unfolding word_less_nat_alt uu load_ok_def u by linarith
qed

lemma rollback_table:
  assumes "table_ok mem tab k entries cells" "home mem k cells (key_of mem item) p" "cells_map mem cells (key_of mem item) = None"
  defines "tab2 \<equiv> clear_entry_key ((write_entry tab p item)\<lparr>tb_used := tb_used tab\<rparr>) p"
  defines "cells2 \<equiv> cells[p := item\<lparr>sl_key := 0\<rparr>]"
  shows "table_ok mem tab2 k entries cells2" "tb_mapping_size tab2 = tb_mapping_size tab"
    "cells_map mem cells2 = cells_map mem cells" "used_cells cells2 = used_cells cells"
proof -
  note t = assms(1) [unfolded table_ok_def]
  have len: "length cells = 2 ^ k" using t by (simp add: cells_ok_def)
  have p: "p < 2 ^ k" "\<not> occupied (cells ! p)" using assms(2,3) unfolding home_def by simp_all
  have n: "\<not> occupied (item\<lparr>sl_key := 0\<rparr>)" by (simp add: occupied_def)
  show m: "cells_map mem cells2 = cells_map mem cells" "used_cells cells2 = used_cells cells"
    unfolding cells2_def using empty_update [OF p(2) n] p(1) len by simp_all
  show "table_ok mem tab2 k entries cells2" "tb_mapping_size tab2 = tb_mapping_size tab"
    using t p len cells_ok_empty_update [OF _ p(2) n p(1), of mem] m(2)
    unfolding table_ok_def tab2_def cells2_def clear_entry_key_def write_entry_def by simp_all
qed

text \<open>An insertion that makes the table grow, or is undone when no memory is left.\<close>

lemma search_grow:
  assumes "table_ok mem tab k entries cells" "load_ok k cells" "home mem k cells (key_of mem item) p"
    "cells_map mem cells (key_of mem item) = None" "occupied item" "is_cstr (mem (sl_key item))"
    and led: "{#(address, TABLE_MAPPING_SIZE), (entries, tb_mapping_size tab)#} \<subseteq># mset (k_live kk)"
  defines "tab1 \<equiv> (write_entry tab p item)\<lparr>tb_used := tb_used tab + 1\<rparr>"
  obtains (fail) kk' tab2 where "resize env mem (tb_used tab1 * 2) tab1 kk = Some (Ok (False, tab1, kk'))"
      "tab2 = clear_entry_key (tab1\<lparr>tb_used := tb_used tab\<rparr>) p"
      "state_ok mem (st\<lparr>hs_table := Some (address, tab2)\<rparr>) kk'"
      "foreign (st\<lparr>hs_table := Some (address, tab2)\<rparr>) kk' = mset (k_live kk) - {#(address, TABLE_MAPPING_SIZE), (entries, tb_mapping_size tab)#}"
      "state_map mem (st\<lparr>hs_table := Some (address, tab2)\<rparr>) = cells_map mem cells"
  | (ok) kk' tab2 q where "resize env mem (tb_used tab1 * 2) tab1 kk = Some (Ok (True, tab2, kk'))"
      "lookup mem (mem (sl_key item)) (hash_of (cstr (mem (sl_key item)))) tab2 = Some (Ok q)"
      "points_to (st\<lparr>hs_table := Some (address, tab2)\<rparr>) (entry_address tab2 q) item"
      "state_ok mem (st\<lparr>hs_table := Some (address, tab2)\<rparr>) kk'"
      "foreign (st\<lparr>hs_table := Some (address, tab2)\<rparr>) kk' = mset (k_live kk) - {#(address, TABLE_MAPPING_SIZE), (entries, tb_mapping_size tab)#}"
      "state_map mem (st\<lparr>hs_table := Some (address, tab2)\<rparr>) = (cells_map mem cells)(key_of mem item \<mapsto> item)"
proof -
  note i = insert_table [OF assms(1-6), folded tab1_def]
  show thesis
  proof (cases rule: resize_table [OF i(1,5) refl, of env kk])
    case (1 kk')
    define tab2 where "tab2 = clear_entry_key (tab1\<lparr>tb_used := tb_used tab\<rparr>) p"
    have "tab1\<lparr>tb_used := tb_used tab\<rparr> = (write_entry tab p item)\<lparr>tb_used := tb_used tab\<rparr>" by (simp add: tab1_def)
    note r = rollback_table [OF assms(1,3,4), folded this, folded tab2_def]
    note s = state_table [OF r(1), where address = address and st = st]
    have "load_ok k (cells[p := item\<lparr>sl_key := 0\<rparr>])" using assms(2) r(4) by (simp add: load_ok_def)
    with 1 r s led show ?thesis
      by (intro fail [OF 1(1) tab2_def]) (auto simp: state_ok_def foreign_def)
  next
    case (2 kk' kk1 k' address' cells' tab2)
    note s = state_table [OF 2(2), where address = address and st = st]
    have k': "3 \<le> k'" using 2(2) by (simp add: table_ok_def)
    have "used_cells cells' < 2 ^ k'" using load_ok_less [OF k' 2(3)] by simp
    from lookup_table_home [OF 2(2) this assms(6)] obtain q where
      q: "lookup mem (mem (sl_key item)) (hash_of (cstr (mem (sl_key item)))) tab2 = Some (Ok q)"
        "home mem k' cells' (key_of mem item) q" unfolding key_of_def by blast
    have "cells_map mem cells' (key_of mem item) = Some item" unfolding 2(4) i(3) by simp
    then have "q < 2 ^ k'" "cells' ! q = item" using q(2) unfolding home_def by simp_all
    then have pt: "points_to (st\<lparr>hs_table := Some (address, tab2)\<rparr>) (entry_address tab2 q) item" using s(3) by metis
    have live: "k_live kk' = remove1 (entries, tb_mapping_size tab) ((address', tb_mapping_size tab2) # k_live kk)"
      using 2(6,7) i(2) by (simp add: release_mapping_def)
    note l = ledger_grow [OF led, of "(address', tb_mapping_size tab2)", folded live]
    show ?thesis
      by (rule ok [OF 2(1) q(1) pt]) (use 2 s l i(3) in \<open>auto simp: state_ok_def foreign_def\<close>)
  qed
qed

lemma search_step:
  assumes "state_ok mem st kk" "hs_table st = Some (address, tab)" "is_cstr (mem (sl_key item))" "occupied item"
  shows "\<exists>r. search env mem item action st kk = Some (Ok r) \<and> search_result mem item action st kk r \<and>
    (case r of (ok, ptr, st', kk') \<Rightarrow> state_ok mem st' kk' \<and> foreign st' kk' = foreign st kk \<and> hs_table st' \<noteq> None)"
proof -
  obtain k entries cells where tab: "table_ok mem tab k entries cells" "load_ok k cells"
    and led: "mset (owned st) \<subseteq># mset (k_live kk)" using assms(1,2) unfolding state_ok_def by auto
  let ?st = "\<lambda>tab. st\<lparr>hs_table := Some (address, tab)\<rparr>"
  have st: "?st tab = st" using assms(2) by simp
  note s0 = state_table [OF tab(1), where address = address and st = st, unfolded st]
  have k: "3 \<le> k" using tab(1) by (simp add: table_ok_def)
  note h = key_hash_eq [OF assms(3)]
  from load_ok_less [OF k tab(2)] have ul: "used_cells cells < 2 ^ k" by simp
  obtain p where p: "lookup mem (mem (sl_key item)) (hash_of (cstr (mem (sl_key item)))) tab = Some (Ok p)"
    "home mem k cells (key_of mem item) p" using lookup_table_home [OF tab(1) ul assms(3)] unfolding key_of_def by blast
  have pl: "p < 2 ^ k" using p(2) by (simp add: home_def)
  show ?thesis
  proof (cases "cells_map mem cells (key_of mem item)")
    case (Some s)
    then have "cells ! p = s" "occupied s" using p(2) unfolding home_def by simp_all
    with s0(3) [OF pl] have "points_to st (entry_address tab p) s" by simp
    with \<open>cells ! p = s\<close> \<open>occupied s\<close> s0(1) Some p h assms(1,2) table_entry_key [OF tab(1)] show ?thesis
      by (simp add: search_def search_result_def occupied_def)
  next
    case None
    then have e: "entry_key tab p = 0" using p(2) table_entry_key [OF tab(1)] unfolding home_def occupied_def by simp
    show ?thesis
    proof (cases "action = 0")
      case True
      with e None s0 p h assms(1,2) show ?thesis by (simp add: search_def search_result_def)
    next
      case enter: False
      define tab1 where "tab1 = (write_entry tab p item)\<lparr>tb_used := tb_used tab + 1\<rparr>"
      note i = insert_table [OF tab p(2) None assms(4,3), folded tab1_def]
      note s1 = state_table [OF i(1), where address = address and st = st]
      have pi: "cells[p := item] ! p = item" using pl tab(1) by (simp add: table_ok_def cells_ok_def)
      have m1: "tb_mask tab1 = tb_mask tab" "tb_used tab1 = tb_used tab + 1" by (simp_all add: tab1_def write_entry_def)
      show ?thesis
      proof (cases "load_ok k (cells[p := item])")
        case True
        have "search env mem item action st kk = Some (Ok (True, entry_address tab1 p, ?st tab1, kk))"
          using enter e p h assms(2) i(6) True unfolding search_def tab1_def [symmetric] by (simp add: tab1_def [symmetric] Let_def m1)
        moreover have "search_result mem item action st kk (True, entry_address tab1 p, ?st tab1, kk)"
          using s0 s1(1) s1(3) [OF pl] None enter pi i(3) by (simp add: search_result_def)
        moreover have "state_ok mem (?st tab1) kk \<and> foreign (?st tab1) kk = foreign st kk"
          using i(1,2) True led s0(2) s1(2) unfolding state_ok_def foreign_def by auto
        ultimately show ?thesis by auto
      next
        case grow: False
        have l2: "{#(address, TABLE_MAPPING_SIZE), (entries, tb_mapping_size tab)#} \<subseteq># mset (k_live kk)" using led s0(2) by simp
        have g: "tb_mask tab - tb_mask tab div 4 < tb_used tab + 1" using i(6) grow by blast
        have f: "foreign st kk = mset (k_live kk) - {#(address, TABLE_MAPPING_SIZE), (entries, tb_mapping_size tab)#}"
          unfolding foreign_def s0(2) by simp
        show ?thesis
        proof (cases rule: search_grow [OF tab p(2) None assms(4,3) l2, folded tab1_def, of env st])
          case (1 kk' tab2)
          have "search env mem item action st kk = Some (Ok (False, 0, ?st tab2, kk'))"
            using enter e p h assms(2) g 1(1,2) unfolding search_def tab1_def [symmetric] by (simp add: tab1_def [symmetric] Let_def m1)
          with 1(3-5) f s0(1) None enter show ?thesis by (simp add: search_result_def)
        next
          case (2 kk' tab2 q)
          have "search env mem item action st kk = Some (Ok (True, entry_address tab2 q, ?st tab2, kk'))"
            using enter e p h assms(2) g 2(1,2) unfolding search_def tab1_def [symmetric] by (simp add: tab1_def [symmetric] Let_def m1)
          with 2(3-6) f s0(1) None enter show ?thesis by (simp add: search_result_def)
        qed
      qed
    qed
  qed
qed

subsection \<open>Creating and destroying\<close>

lemma create_step:
  obtains ok st' kk' where "create env mem requested st kk = Some (Ok (ok, st', kk'))" "state_ok mem st' kk'"
    "state_map mem st' = Map.empty" "ok \<longleftrightarrow> hs_table st' \<noteq> None" "foreign st' kk' = mset (k_live kk)"
proof -
  obtain address kk1 where mz: "map_zeroed env TABLE_MAPPING_SIZE kk = (address, kk1)" by (cases "map_zeroed env TABLE_MAPPING_SIZE kk")
  show thesis
  proof (cases "address = 0")
    case True
    then have "k_live kk1 = k_live kk" using mz unfolding map_zeroed_def by (auto simp: Let_def split: prod.splits if_splits)
    with True mz show thesis
      by (intro that [of False "st\<lparr>hs_table := None\<rparr>" kk1])
        (simp_all add: create_def state_ok_def owned_def state_map_def foreign_def)
  next
    case False
    then have l1: "k_live kk1 = (address, TABLE_MAPPING_SIZE) # k_live kk"
      using mz unfolding map_zeroed_def by (auto simp: Let_def split: prod.splits if_splits)
    have z: "tb_entries zero_table = None" by (simp add: zero_table_def)
    show thesis
    proof (cases rule: resize_fresh [OF z, of env mem requested kk1])
      case (1 kk2)
      with False mz l1 show thesis
        by (intro that [of False "st\<lparr>hs_table := None\<rparr>" "release_mapping address TABLE_MAPPING_SIZE kk2"])
          (simp_all add: create_def state_ok_def owned_def state_map_def foreign_def release_mapping_def)
    next
      case (2 kk2 k entries tab msize)
      have t: "table_ok mem tab k entries (replicate (2 ^ k) empty_slot)"
        using 2 cells_ok_replicate [of mem k] by (simp add: table_ok_def used_replicate zero_table_def)
      have "load_ok k (replicate (2 ^ k) empty_slot)" by (simp add: load_ok_def used_replicate)
      moreover have "tb_mapping_size tab = msize" using 2(5) by simp
      moreover note s = state_table [OF t, where address = address and st = st]
      ultimately show thesis using False mz l1 2(1,6) t
        by (intro that [of True "st\<lparr>hs_table := Some (address, tab)\<rparr>" kk2])
          (auto simp: create_def state_ok_def foreign_def)
    qed
  qed
qed

lemma destroy_step:
  assumes "state_ok mem st kk"
  shows "hs_table (fst (destroy st kk)) = None" "mset (k_live (snd (destroy st kk))) = foreign st kk"
    "k_errno (snd (destroy st kk)) = k_errno kk"
  using assms by (auto simp: destroy_def foreign_def owned_def release_mapping_def state_ok_def Let_def
      split: option.splits prod.splits)

lemma empty_state_ok: "hs_table st = None \<Longrightarrow> state_ok mem st kk"
  by (simp add: state_ok_def owned_def)

subsection \<open>Runs\<close>

text \<open>What a caller may do with one record: create, search a live table with a valid key, destroy.\<close>

inductive hstep :: "(nat \<Rightarrow> nat \<times> int) \<Rightarrow> (nat \<Rightarrow> bytes) \<Rightarrow> hsearch_data \<times> kernel \<Rightarrow> hsearch_data \<times> kernel \<Rightarrow> bool"
  for env mem where
  hcreate: "hcreate_r env mem requested st kk = Some (Ok (ok, st', kk')) \<Longrightarrow> hstep env mem (st, kk) (st', kk')"
| hsearch: "hs_table st \<noteq> None \<Longrightarrow> is_cstr (mem (sl_key item)) \<Longrightarrow> sl_key item \<noteq> 0 \<Longrightarrow>
    hsearch_r env mem item action st kk = Some (Ok (ok, ptr, st', kk')) \<Longrightarrow> hstep env mem (st, kk) (st', kk')"
| hdestroy: "hdestroy_r st kk = (st', kk') \<Longrightarrow> hstep env mem (st, kk) (st', kk')"

inductive_cases hstepE: "hstep env mem (st, kk) (st', kk')"

definition record_ok :: "(nat \<Rightarrow> bytes) \<Rightarrow> hsearch_data \<times> kernel \<Rightarrow> bool" where
  "record_ok mem c \<longleftrightarrow> state_ok mem (fst c) (snd c)"


interpretation hs: transition_system "\<lambda>c. hs_table (fst c) = None" "hstep env mem" "record_ok mem" for env mem
proof
  fix c :: "hsearch_data \<times> kernel" assume "hs_table (fst c) = None"
  then show "record_ok mem c" unfolding record_ok_def by (rule empty_state_ok)
next
  fix c c' assume ok: "record_ok mem c" and "hstep env mem c c'"
  from this(2) show "record_ok mem c'"
  proof cases
    case (hcreate requested st kk ok st' kk')
    then show ?thesis using create_step [of env mem requested st kk] unfolding record_ok_def hcreate_r_def by auto
  next
    case (hsearch st item action kk ok ptr st' kk')
    then show ?thesis using ok search_step [of mem st kk _ _ item env action] unfolding record_ok_def hsearch_r_def occupied_def by fastforce
  next
    case (hdestroy st kk st' kk')
    then show ?thesis using ok destroy_step(1) [of mem st kk] empty_state_ok unfolding record_ok_def hdestroy_r_def by simp
  qed
qed

subsection \<open>Properties\<close>


text \<open>C2. Invariant: after any sequence of calls on the record, a live table has a power-of-two number of entries
  with \<open>mask\<close> one less, \<open>used\<close> counts the entries with a key and stays at most three quarters of the size (so an empty
  entry always remains), no two entries hold the same key string, and both mappings of the table are live.\<close>

theorem hsearch_invariant:
  assumes "(hstep env mem)\<^sup>*\<^sup>* (GLOBAL_TABLE, kk0) (st, kk)" "hs_table st = Some (address, tab)"
  shows "\<exists>k entries cells. tb_entries tab = Some (entries, cells) \<and> length cells = 2 ^ k \<and> 3 \<le> k \<and>
     tb_mask tab = 2 ^ k - 1 \<and> unat (tb_used tab) = length (filter (\<lambda>s. sl_key s \<noteq> 0) cells) \<and>
     4 * unat (tb_used tab) \<le> 3 * 2 ^ k \<and>
     (\<forall>p<2 ^ k. \<forall>q<2 ^ k. sl_key (cells ! p) \<noteq> 0 \<and> sl_key (cells ! q) \<noteq> 0 \<and>
        cstr (mem (sl_key (cells ! p))) = cstr (mem (sl_key (cells ! q))) \<longrightarrow> p = q) \<and>
     {#(address, TABLE_MAPPING_SIZE), (entries, tb_mapping_size tab)#} \<subseteq># mset (k_live kk)"
proof -
  have "record_ok mem (st, kk)" using hs.reachable_inv [OF _ assms(1)] by (simp add: GLOBAL_TABLE_def)
  then obtain k entries cells where t: "table_ok mem tab k entries cells" "load_ok k cells" "mset (owned st) \<subseteq># mset (k_live kk)"
    using assms(2) by (auto simp: record_ok_def state_ok_def)
  have "8 \<le> (2 :: nat) ^ k" using t(1) pow2_ge_8 by (simp add: table_ok_def)
  then have l: "4 * used_cells cells \<le> 3 * 2 ^ k" using t(2) unfolding load_ok_def by linarith
  have u: "used_cells cells = length (filter (\<lambda>s. sl_key s \<noteq> 0) cells)" by (simp add: used_cells_def occupied_def [abs_def])
  have d: "\<forall>p<2 ^ k. \<forall>q<2 ^ k. sl_key (cells ! p) \<noteq> 0 \<and> sl_key (cells ! q) \<noteq> 0 \<and>
        cstr (mem (sl_key (cells ! p))) = cstr (mem (sl_key (cells ! q))) \<longrightarrow> p = q"
  proof (intro allI impI, elim conjE)
    fix p q assume "p < 2 ^ k" "q < 2 ^ k" "sl_key (cells ! p) \<noteq> 0" "sl_key (cells ! q) \<noteq> 0"
      "cstr (mem (sl_key (cells ! p))) = cstr (mem (sl_key (cells ! q)))"
    with t(1) show "p = q" unfolding table_ok_def cells_ok_def occupied_def key_of_def by blast
  qed
  have o: "mset (owned st) = {#(address, TABLE_MAPPING_SIZE), (entries, tb_mapping_size tab)#}"
    using t(1) assms(2) by (simp add: owned_def table_ok_def)
  show ?thesis
    by (rule exI [of _ k], rule exI [of _ entries], rule exI [of _ cells])
      (intro conjI d t(3) [unfolded o]; use t(1) l u in \<open>simp add: table_ok_def cells_ok_def\<close>)
qed

text \<open>One search on a live table.\<close>

definition search_call ::
    "(nat \<Rightarrow> nat \<times> int) \<Rightarrow> (nat \<Rightarrow> bytes) \<Rightarrow> hsearch_data \<times> kernel \<Rightarrow> hsearch_data \<times> kernel \<Rightarrow> bool" where
  "search_call env mem c c' \<longleftrightarrow> (\<exists>item action ok ptr. hs_table (fst c) \<noteq> None \<and> is_cstr (mem (sl_key item)) \<and>
     sl_key item \<noteq> 0 \<and> hsearch_r env mem item action (fst c) (snd c) = Some (Ok (ok, ptr, fst c', snd c')))"

text \<open>C3. No mapping is lost or released twice: creating a table, running any searches on it and destroying it leaves
  exactly the live mappings there were before, and a failed creation leaves them unchanged and no table behind.\<close>

theorem hsearch_no_leak:
  assumes "hcreate_r env mem requested st0 kk0 = Some (Ok (ok, st1, kk1))"
  shows "(\<not> ok \<longrightarrow> hs_table st1 = None \<and> mset (k_live kk1) = mset (k_live kk0)) \<and>
    (\<forall>st2 kk2. (search_call env mem)\<^sup>*\<^sup>* (st1, kk1) (st2, kk2) \<longrightarrow>
       hs_table (fst (hdestroy_r st2 kk2)) = None \<and> mset (k_live (snd (hdestroy_r st2 kk2))) = mset (k_live kk0))"
proof -
  obtain ok' st' kk' where "create env mem requested st0 kk0 = Some (Ok (ok', st', kk'))" and c': "state_ok mem st' kk'"
    "state_map mem st' = Map.empty" "ok' \<longleftrightarrow> hs_table st' \<noteq> None" "foreign st' kk' = mset (k_live kk0)"
    by (rule create_step [of env mem requested st0 kk0])
  then have e: "ok' = ok" "st' = st1" "kk' = kk1" using assms unfolding hcreate_r_def by simp_all
  note c = c' [unfolded e]
  have run: "state_ok mem (fst x) (snd x) \<and> foreign (fst x) (snd x) = mset (k_live kk0)"
    if "(search_call env mem)\<^sup>*\<^sup>* (st1, kk1) x" for x
    using that
  proof (induction rule: rtranclp_induct)
    case (step x y)
    from step(2) obtain item action ok ptr where s: "hs_table (fst x) \<noteq> None" "is_cstr (mem (sl_key item))" "sl_key item \<noteq> 0"
      "search env mem item action (fst x) (snd x) = Some (Ok (ok, ptr, fst y, snd y))" unfolding search_call_def hsearch_r_def by auto
    from s(1) obtain address tab where "hs_table (fst x) = Some (address, tab)" by auto
    then show ?case using search_step [of mem "fst x" "snd x" address tab item env action] s step(3) by (simp add: occupied_def case_prod_beta)
  qed (simp add: c)
  have "\<not> ok \<longrightarrow> hs_table st1 = None \<and> mset (k_live kk1) = mset (k_live kk0)"
    using c(3,4) by (cases "hs_table st1") (simp_all add: foreign_def owned_def)
  then show ?thesis using run destroy_step unfolding hdestroy_r_def by fastforce
qed

text \<open>A concrete run: a kernel that hands out one page after the other, and one key string.\<close>

definition sample_env :: "nat \<Rightarrow> nat \<times> int" where "sample_env n = (4096 * (n + 1), 0)"
definition sample_mem :: "nat \<Rightarrow> bytes" where "sample_mem p = [65, 0]"
definition sample_kernel :: kernel where "sample_kernel = \<lparr>k_calls = 0, k_live = [], k_errno = 0\<rparr>"
definition sample_table :: hsearch_data where
  "sample_table = \<lparr>hs_table = Some (4096, \<lparr>tb_entries = Some (8192, replicate 8 empty_slot), tb_mask = 7, tb_used = 0,
     tb_mapping_size = 4096\<rparr>)\<rparr>"
definition sample_kernel_1 :: kernel where
  "sample_kernel_1 = \<lparr>k_calls = 2, k_live = [(8192, 4096), (4096, 4096)], k_errno = 0\<rparr>"

lemma sample_create: "hcreate_r sample_env sample_mem 0 GLOBAL_TABLE sample_kernel = Some (Ok (True, sample_table, sample_kernel_1))"
proof -
  have "grow_size 0 8 = Some 8" by (subst grow_size.simps) simp
  then show ?thesis
    by (simp add: hcreate_r_def create_def map_zeroed_def sample_env_def sample_kernel_def resize_def MINIMUM_SIZE_def
        MAXIMUM_SIZE_def zero_table_def allocate_entries_def ENTRY_SIZE_def mapping_size_def checked_add_def PAGE_MASK_def
        PAGE_SIZE_def TABLE_MAPPING_SIZE_def sample_table_def sample_kernel_1_def GLOBAL_TABLE_def Let_def)
qed

lemma sample_run: "(hstep sample_env sample_mem)\<^sup>*\<^sup>* (GLOBAL_TABLE, sample_kernel) (sample_table, sample_kernel_1)"
  using sample_create by (blast intro: hstep.hcreate)

lemma sample_key: "is_cstr (sample_mem 5)" "cstr (sample_mem 5) = [65]" "state_map sample_mem sample_table = Map.empty"
  by (simp_all add: is_cstr_def cstr_def sample_mem_def state_map_def sample_table_def)


theorem hsearch_invariant_witness:
  "\<exists>k. length (replicate 8 empty_slot) = 2 ^ k \<and> (7 :: u64) = 2 ^ k - 1 \<and> 3 \<le> k"
  using hsearch_invariant [OF sample_run] by (auto simp: sample_table_def)

theorem hsearch_no_leak_witness:
  "hs_table (fst (hdestroy_r sample_table sample_kernel_1)) = None \<and> mset (k_live (snd (hdestroy_r sample_table sample_kernel_1))) = {#}"
  using hsearch_no_leak [OF sample_create] by (simp add: sample_kernel_def)

end
