(* ===== verification/Pattern.thy ===== *)
theory Pattern
  imports Prelude
begin

text \<open>
  \<open>crabc-core/src/pattern.rs\<close> on its x86-64 target: tokenising a filename pattern, bracket
  expressions, the component matcher that backtracks to the most recent star, and \<open>fnmatch\<close>.
  Indices are guarded by the same comparisons as in the source.
\<close>

definition FNM_PATHNAME :: u32 where "FNM_PATHNAME = 0x1"
definition FNM_NOESCAPE :: u32 where "FNM_NOESCAPE = 0x2"
definition FNM_PERIOD :: u32 where "FNM_PERIOD = 0x4"
definition FNM_LEADING_DIR :: u32 where "FNM_LEADING_DIR = 0x8"
definition FNM_CASEFOLD :: u32 where "FNM_CASEFOLD = 0x10"

datatype token =
    End
  | Star nat
  | Question nat
  | Bracket nat
  | Literal u8 nat

definition is_ascii_uppercase :: "u8 \<Rightarrow> bool" where
  "is_ascii_uppercase byte \<longleftrightarrow> 65 \<le> byte \<and> byte \<le> 90"

definition is_ascii_lowercase :: "u8 \<Rightarrow> bool" where
  "is_ascii_lowercase byte \<longleftrightarrow> 97 \<le> byte \<and> byte \<le> 122"

definition to_ascii_lowercase :: "u8 \<Rightarrow> u8" where
  "to_ascii_lowercase byte = (if is_ascii_uppercase byte then byte + 32 else byte)"

definition to_ascii_uppercase :: "u8 \<Rightarrow> u8" where
  "to_ascii_uppercase byte = (if is_ascii_lowercase byte then byte - 32 else byte)"

definition ascii_casefold :: "u8 \<Rightarrow> u8" where
  "ascii_casefold byte = (if is_ascii_uppercase byte then byte + (97 - 65) else to_ascii_lowercase byte)"

definition casefold_enabled :: "u32 \<Rightarrow> bool" where
  "casefold_enabled flags \<longleftrightarrow> flags AND FNM_CASEFOLD \<noteq> 0"

definition bytes_equal :: "u8 \<Rightarrow> u8 \<Rightarrow> u32 \<Rightarrow> bool" where
  "bytes_equal pattern candidate flags \<longleftrightarrow>
     pattern = candidate \<or> (casefold_enabled flags \<and> ascii_casefold pattern = ascii_casefold candidate)"

subsection \<open>Tokens\<close>

text \<open>The inner loop of \<open>bracket_end\<close>: past the closing delimiter of a nested element.\<close>

function nested_end :: "bytes \<Rightarrow> u8 \<Rightarrow> nat \<Rightarrow> nat option" where
  "nested_end pattern delimiter cursor =
     (if cursor + 1 < length pattern then
        if pattern ! cursor = delimiter \<and> pattern ! (cursor + 1) = 93 then Some (cursor + 2)
        else nested_end pattern delimiter (cursor + 1)
      else None)"
  by pat_completeness auto
termination
  by (relation "measure (\<lambda>(pattern, delimiter, cursor). length pattern - cursor)") auto

declare nested_end.simps [simp del]

definition opens_element :: "bytes \<Rightarrow> nat \<Rightarrow> nat \<Rightarrow> bool" where
  "opens_element pattern cursor limit \<longleftrightarrow>
     pattern ! cursor = 91 \<and> cursor + 1 < limit \<and>
     (pattern ! (cursor + 1) = 58 \<or> pattern ! (cursor + 1) = 46 \<or> pattern ! (cursor + 1) = 61)"

lemma nested_end_less: "nested_end pattern delimiter cursor = Some next \<Longrightarrow> cursor < next \<and> next \<le> length pattern"
proof (induction pattern delimiter cursor rule: nested_end.induct)
  case (1 pattern delimiter cursor)
  show ?case
  proof (cases "cursor + 1 < length pattern \<and> \<not> (pattern ! cursor = delimiter \<and> pattern ! (cursor + 1) = 93)")
    case True
    with "1.prems" have "nested_end pattern delimiter (cursor + 1) = Some next"
      by (subst (asm) nested_end.simps) (simp split: if_splits)
    with True "1.IH" show ?thesis by fastforce
  next
    case False
    with "1.prems" show ?thesis by (subst (asm) nested_end.simps) (auto split: if_splits)
  qed
qed

function bracket_end_loop :: "bytes \<Rightarrow> nat \<Rightarrow> nat option" where
  "bracket_end_loop pattern cursor =
     (if cursor < length pattern then
        if pattern ! cursor = 93 then Some (cursor + 1)
        else if opens_element pattern cursor (length pattern) then
          (case nested_end pattern (pattern ! (cursor + 1)) (cursor + 2) of
             None \<Rightarrow> None
           | Some next \<Rightarrow> bracket_end_loop pattern next)
        else bracket_end_loop pattern (cursor + 1)
      else None)"
  by pat_completeness auto
termination
  by (relation "measure (\<lambda>(pattern, cursor). length pattern - cursor)") (auto dest!: nested_end_less)

declare bracket_end_loop.simps [simp del]

definition bracket_end :: "bytes \<Rightarrow> nat \<Rightarrow> nat option" where
  "bracket_end pattern start =
     (let cursor = start + 1;
          cursor = (if cursor < length pattern \<and> (pattern ! cursor = 94 \<or> pattern ! cursor = 33)
                    then cursor + 1 else cursor);
          cursor = (if cursor < length pattern \<and> pattern ! cursor = 93 then cursor + 1 else cursor)
      in bracket_end_loop pattern cursor)"

definition next_token :: "bytes \<Rightarrow> nat \<Rightarrow> u32 \<Rightarrow> token" where
  "next_token pattern index flags =
     (if length pattern \<le> index then End
      else
        let byte = pattern ! index in
        if byte = 92 \<and> flags AND FNM_NOESCAPE = 0 \<and> index + 1 < length pattern
        then Literal (pattern ! (index + 1)) (index + 2)
        else (case (if byte = 91 then bracket_end pattern index else None) of
                Some next \<Rightarrow> Bracket next
              | None \<Rightarrow>
                  if byte = 42 then Star (index + 1)
                  else if byte = 63 then Question (index + 1)
                  else Literal byte (index + 1)))"

fun next_index :: "token \<Rightarrow> nat" where
  "next_index End = 0"
| "next_index (Star next) = next"
| "next_index (Question next) = next"
| "next_index (Bracket next) = next"
| "next_index (Literal byte next) = next"

lemma bracket_end_loop_less: "bracket_end_loop pattern cursor = Some next \<Longrightarrow> cursor < next \<and> next \<le> length pattern"
proof (induction pattern cursor rule: bracket_end_loop.induct)
  case (1 pattern cursor)
  from "1.prems" have "bracket_end_loop pattern cursor = Some next" .
  then show ?case
    by (subst (asm) bracket_end_loop.simps)
      (use "1.IH" in \<open>fastforce split: if_splits option.splits dest: nested_end_less\<close>)
qed

lemma next_token_less:
  "index < length pattern \<Longrightarrow> index < next_index (next_token pattern index flags) \<and>
     next_index (next_token pattern index flags) \<le> length pattern"
  by (auto simp: next_token_def bracket_end_def Let_def split: option.splits if_splits dest!: bracket_end_loop_less)

subsection \<open>Matching one byte\<close>

definition class_matches :: "bytes \<Rightarrow> u8 \<Rightarrow> u8 \<Rightarrow> bool" where
  "class_matches cls candidate folded =
     (let equal = (\<lambda>byte. candidate = byte \<or> folded = byte);
          in_range = (\<lambda>low high. (low \<le> candidate \<and> candidate \<le> high) \<or> (low \<le> folded \<and> folded \<le> high))
      in if cls = [97, 108, 110, 117, 109] then in_range 48 57 \<or> in_range 65 90 \<or> in_range 97 122
         else if cls = [97, 108, 112, 104, 97] then in_range 65 90 \<or> in_range 97 122
         else if cls = [98, 108, 97, 110, 107] then equal 32 \<or> equal 9
         else if cls = [99, 110, 116, 114, 108] then candidate < 0x20 \<or> candidate = 0x7f
         else if cls = [100, 105, 103, 105, 116] then in_range 48 57
         else if cls = [103, 114, 97, 112, 104] then 0x21 \<le> candidate \<and> candidate \<le> 0x7e
         else if cls = [108, 111, 119, 101, 114] then in_range 97 122
         else if cls = [112, 114, 105, 110, 116] then 0x20 \<le> candidate \<and> candidate \<le> 0x7e
         else if cls = [112, 117, 110, 99, 116] then
           (0x21 \<le> candidate \<and> candidate \<le> 0x2f) \<or> (0x3a \<le> candidate \<and> candidate \<le> 0x40) \<or>
           (0x5b \<le> candidate \<and> candidate \<le> 0x60) \<or> (0x7b \<le> candidate \<and> candidate \<le> 0x7e)
         else if cls = [115, 112, 97, 99, 101] then
           equal 32 \<or> equal 9 \<or> equal 10 \<or> equal 13 \<or> equal 0x0c \<or> equal 0x0b
         else if cls = [117, 112, 112, 101, 114] then in_range 65 90
         else if cls = [120, 100, 105, 103, 105, 116] then in_range 48 57 \<or> in_range 65 70 \<or> in_range 97 102
         else False)"

text \<open>The search for the close of a nested element inside \<open>pattern[..limit]\<close>.\<close>

function close_index :: "bytes \<Rightarrow> nat \<Rightarrow> u8 \<Rightarrow> nat \<Rightarrow> nat" where
  "close_index pattern limit delimiter close =
     (if close + 1 < limit \<and> \<not> (pattern ! close = delimiter \<and> pattern ! (close + 1) = 93)
      then close_index pattern limit delimiter (close + 1) else close)"
  by pat_completeness auto
termination
  by (relation "measure (\<lambda>(pattern, limit, delimiter, close). limit - close)") auto

declare close_index.simps [simp del]

lemma close_index_ge: "close \<le> close_index pattern limit delimiter close"
proof (induction pattern limit delimiter close rule: close_index.induct)
  case (1 pattern limit delimiter close)
  then show ?case by (subst close_index.simps) auto
qed

definition closed_element :: "bytes \<Rightarrow> nat \<Rightarrow> nat \<Rightarrow> nat option" where
  "closed_element pattern limit cursor =
     (if opens_element pattern cursor limit then
        let close = close_index pattern limit (pattern ! (cursor + 1)) (cursor + 2) in
        if close + 1 < limit then Some close else None
      else None)"

lemma closed_element_ge: "closed_element pattern limit cursor = Some close \<Longrightarrow> cursor < close \<and> close + 1 < limit"
  using close_index_ge [of "cursor + 2" pattern limit "pattern ! (cursor + 1)"]
  by (auto simp: closed_element_def Let_def split: if_splits)

text \<open>The member loop of \<open>bracket_matches\<close>.\<close>

function bracket_loop :: "bytes \<Rightarrow> nat \<Rightarrow> u8 \<Rightarrow> u8 \<Rightarrow> u32 \<Rightarrow> bool \<Rightarrow> nat \<Rightarrow> bool" where
  "bracket_loop pattern limit candidate folded flags inverted cursor =
     (if cursor < limit then
        if pattern ! cursor = 45 \<and> cursor + 1 < limit \<and> pattern ! (cursor + 1) \<noteq> 93 then
          let low = pattern ! (cursor - 1); high = pattern ! (cursor + 1);
              in_range = ((low \<le> candidate \<and> candidate \<le> high) \<or> (low \<le> folded \<and> folded \<le> high))
          in if low \<le> high \<and> in_range then \<not> inverted
             else bracket_loop pattern limit candidate folded flags inverted (cursor + 2)
        else
          (case closed_element pattern limit cursor of Some close \<Rightarrow>
            let cls = take (close - (cursor + 2)) (drop (cursor + 2) pattern);
                matched = (if pattern ! (cursor + 1) = 58 then class_matches cls candidate folded
                           else length cls = 1 \<and> bytes_equal (cls ! 0) candidate flags)
            in if matched then \<not> inverted
               else bracket_loop pattern limit candidate folded flags inverted (close + 2)
          | None \<Rightarrow>
            if bytes_equal (pattern ! cursor) candidate flags then \<not> inverted
            else bracket_loop pattern limit candidate folded flags inverted (cursor + 1))
      else inverted)"
  by pat_completeness auto
termination
  by (relation "measure (\<lambda>(pattern, limit, candidate, folded, flags, inverted, cursor). limit - cursor)")
    (auto dest: closed_element_ge)

declare bracket_loop.simps [simp del]

definition bracket_matches :: "bytes \<Rightarrow> nat \<Rightarrow> nat \<Rightarrow> u8 \<Rightarrow> u8 \<Rightarrow> u32 \<Rightarrow> bool" where
  "bracket_matches pattern start next candidate folded flags =
     (let cursor = start + 1;
          limit = next - 1;
          inverted = (cursor < limit \<and> (pattern ! cursor = 94 \<or> pattern ! cursor = 33));
          cursor = (if inverted then cursor + 1 else cursor)
      in if cursor < limit \<and> pattern ! cursor = 93 then
           if candidate = 93 then \<not> inverted
           else bracket_loop pattern limit candidate folded flags inverted (cursor + 1)
         else if cursor < limit \<and> pattern ! cursor = 45 then
           if candidate = 45 then \<not> inverted
           else bracket_loop pattern limit candidate folded flags inverted (cursor + 1)
         else bracket_loop pattern limit candidate folded flags inverted cursor)"

fun token_matches :: "bytes \<Rightarrow> token \<Rightarrow> nat \<Rightarrow> u8 \<Rightarrow> u32 \<Rightarrow> bool" where
  "token_matches pattern (Question _) token_start candidate flags = True"
| "token_matches pattern (Bracket next) token_start candidate flags =
     (let folded = (if casefold_enabled flags then
                      let upper = to_ascii_uppercase candidate
                      in if upper = candidate then to_ascii_lowercase candidate else upper
                    else candidate)
      in bracket_matches pattern token_start next candidate folded flags)"
| "token_matches pattern (Literal byte _) token_start candidate flags = bytes_equal byte candidate flags"
| "token_matches pattern End token_start candidate flags = False"
| "token_matches pattern (Star _) token_start candidate flags = False"

subsection \<open>Matching a component\<close>

text \<open>The four mutable variables of \<open>component_matches\<close> and what one turn of its loop does.\<close>

record matcher =
  pattern_index :: nat
  candidate_index :: nat
  star_pattern :: "nat option"
  star_candidate :: nat

datatype turn = Return bool | Continue matcher

definition backtrack :: "bytes \<Rightarrow> u32 \<Rightarrow> matcher \<Rightarrow> turn" where
  "backtrack candidate flags m =
     (case star_pattern m of
        Some next_pattern \<Rightarrow>
          if star_candidate m < length candidate \<and>
             (flags AND FNM_PATHNAME = 0 \<or> candidate ! star_candidate m \<noteq> 47)
          then Continue (m\<lparr>star_candidate := star_candidate m + 1, candidate_index := star_candidate m + 1,
                           pattern_index := next_pattern\<rparr>)
          else Return False
      | None \<Rightarrow> Return False)"

definition component_turn :: "bytes \<Rightarrow> bytes \<Rightarrow> u32 \<Rightarrow> matcher \<Rightarrow> turn" where
  "component_turn pattern candidate flags m =
     (if length pattern \<le> pattern_index m then
        if length candidate \<le> candidate_index m then Return True else backtrack candidate flags m
      else
        let token = next_token pattern (pattern_index m) flags in
        (case token of
           End \<Rightarrow> if length candidate \<le> candidate_index m then Return True else backtrack candidate flags m
         | Star next \<Rightarrow>
             Continue (m\<lparr>star_pattern := Some next, star_candidate := candidate_index m, pattern_index := next\<rparr>)
         | _ \<Rightarrow>
             if candidate_index m < length candidate \<and>
                (flags AND FNM_PATHNAME = 0 \<or> candidate ! candidate_index m \<noteq> 47) \<and>
                token_matches pattern token (pattern_index m) (candidate ! candidate_index m) flags
             then Continue (m\<lparr>pattern_index := next_index token, candidate_index := candidate_index m + 1\<rparr>)
             else backtrack candidate flags m))"

definition star_rank :: "bytes \<Rightarrow> matcher \<Rightarrow> nat" where
  "star_rank pattern m =
     (case star_pattern m of
        None \<Rightarrow> length pattern + 1
      | Some s \<Rightarrow> if s \<le> pattern_index m then length pattern - s else length pattern + 2)"

definition matcher_order :: "((bytes \<times> bytes \<times> u32 \<times> matcher) \<times> (bytes \<times> bytes \<times> u32 \<times> matcher)) set" where
  "matcher_order = measures [\<lambda>(pattern, candidate, flags, m). star_rank pattern m,
     \<lambda>(pattern, candidate, flags, m). length candidate - star_candidate m,
     \<lambda>(pattern, candidate, flags, m). length pattern - pattern_index m]"

lemma backtrack_decreases:
  "backtrack candidate flags m = Continue m' \<Longrightarrow> ((pattern, candidate, flags, m'), (pattern, candidate, flags, m)) \<in> matcher_order"
  by (auto simp: backtrack_def matcher_order_def star_rank_def split: option.splits if_splits)

lemma component_turn_decreases:
  assumes "component_turn pattern candidate flags m = Continue m'"
  shows "((pattern, candidate, flags, m'), (pattern, candidate, flags, m)) \<in> matcher_order"
proof (cases "backtrack candidate flags m = Continue m'")
  case True
  then show ?thesis by (rule backtrack_decreases)
next
  case False
  define i where "i = pattern_index m"
  from False assms have i: "i < length pattern"
    by (auto simp: component_turn_def i_def split: if_splits)
  from next_token_less [OF this, of flags] have n: "i < next_index (next_token pattern i flags)"
    "next_index (next_token pattern i flags) \<le> length pattern" by blast+
  show ?thesis
  proof (cases "next_token pattern i flags")
    case (Star after)
    with assms i have "m' = m\<lparr>star_pattern := Some after, star_candidate := candidate_index m, pattern_index := after\<rparr>"
      by (simp add: component_turn_def i_def)
    with Star n i show ?thesis
      by (auto simp: matcher_order_def star_rank_def i_def split: option.splits)
  qed (use assms i n False in \<open>auto simp: component_turn_def matcher_order_def star_rank_def i_def
          split: if_splits option.splits\<close>)
qed

function component_loop :: "bytes \<Rightarrow> bytes \<Rightarrow> u32 \<Rightarrow> matcher \<Rightarrow> bool" where
  "component_loop pattern candidate flags m =
     (case component_turn pattern candidate flags m of
        Return result \<Rightarrow> result
      | Continue m' \<Rightarrow> component_loop pattern candidate flags m')"
  by pat_completeness auto
termination
proof (relation matcher_order)
  show "wf matcher_order" by (simp add: matcher_order_def)
qed (rule component_turn_decreases)

declare component_loop.simps [simp del]

definition component_matches :: "bytes \<Rightarrow> bytes \<Rightarrow> u32 \<Rightarrow> bool" where
  "component_matches pattern candidate flags =
     (if flags AND FNM_PERIOD \<noteq> 0 \<and> take 1 candidate = [46] \<and> take 1 pattern \<noteq> [46] then False
      else component_loop pattern candidate flags
        \<lparr>pattern_index = 0, candidate_index = 0, star_pattern = None, star_candidate = 0\<rparr>)"

subsection \<open>Matching a path\<close>

fun is_slash :: "token \<Rightarrow> bool" where
  "is_slash (Literal byte next) \<longleftrightarrow> byte = 47"
| "is_slash _ \<longleftrightarrow> False"

function pattern_component_end :: "bytes \<Rightarrow> nat \<Rightarrow> u32 \<Rightarrow> nat \<times> nat \<times> bool" where
  "pattern_component_end pattern cursor flags =
     (let token = next_token pattern cursor flags in
      if token = End then (length pattern, length pattern, False)
      else if is_slash token then (cursor, next_index token, True)
      else pattern_component_end pattern (next_index token) flags)"
  by pat_completeness auto
termination
proof (relation "measure (\<lambda>(pattern, cursor, flags). length pattern - cursor)", goal_cases)
  case (2 pattern cursor flags token)
  then have "cursor < length pattern" by (auto simp: next_token_def split: if_splits)
  with 2 next_token_less [of cursor pattern flags] show ?case by auto
qed simp

declare pattern_component_end.simps [simp del]

text \<open>\<open>iter().position(..).map_or(..)\<close>: the next slash at or after an index, or the length.\<close>

definition slash_end :: "bytes \<Rightarrow> nat \<Rightarrow> nat" where
  "slash_end candidate start = start + length (takeWhile (\<lambda>byte. byte \<noteq> 47) (drop start candidate))"

function fnmatch_path :: "bytes \<Rightarrow> bytes \<Rightarrow> u32 \<Rightarrow> nat \<Rightarrow> nat \<Rightarrow> bool" where
  "fnmatch_path pattern candidate flags pattern_start candidate_start =
     (let (pattern_stop, pattern_next, pattern_has_slash) = pattern_component_end pattern pattern_start flags;
          candidate_stop = slash_end candidate candidate_start;
          candidate_has_slash = candidate_stop < length candidate
      in if pattern_has_slash \<noteq> candidate_has_slash \<and> candidate_has_slash \<and> flags AND FNM_LEADING_DIR = 0
         then False
         else if \<not> component_matches (take (pattern_stop - pattern_start) (drop pattern_start pattern))
                     (take (candidate_stop - candidate_start) (drop candidate_start candidate))
                     (flags AND NOT FNM_LEADING_DIR)
         then False
         else if \<not> pattern_has_slash then True
         else if \<not> candidate_has_slash then False
         else fnmatch_path pattern candidate flags pattern_next (candidate_stop + 1))"
  by pat_completeness auto
termination
  by (relation "measure (\<lambda>(pattern, candidate, flags, pattern_start, candidate_start). length candidate - candidate_start)")
    (auto simp: slash_end_def)

declare fnmatch_path.simps [simp del]

definition fnmatch :: "bytes \<Rightarrow> bytes \<Rightarrow> u32 \<Rightarrow> bool" where
  "fnmatch pattern candidate flags =
     (if flags AND FNM_PATHNAME \<noteq> 0 then fnmatch_path pattern candidate flags 0 0
      else if flags AND FNM_LEADING_DIR \<noteq> 0 \<and>
              list_ex (\<lambda>index. candidate ! index = 47 \<and> component_matches pattern (take index candidate) flags)
                [0..<length candidate]
      then True
      else component_matches pattern candidate flags)"

end
