(* ===== verification/PatternProps.thy ===== *)
theory PatternProps
  imports Pattern
begin

text \<open>
  Correctness of the filename matcher. The reference reads a pattern as a list of items and a
  component as a concatenation of pieces; the matcher's state is related to the decompositions
  it can still find (\<open>pending\<close>), which every turn of its loop preserves. Then paths, component by
  component, and complemented bracket expressions.
\<close>

subsection \<open>The reference: a pattern as a sequence of items\<close>

datatype item = Any | One "u8 \<Rightarrow> bool"

fun item_of :: "bytes \<Rightarrow> token \<Rightarrow> nat \<Rightarrow> u32 \<Rightarrow> item" where
  "item_of pattern (Star _) index flags = Any"
| "item_of pattern token index flags = One (\<lambda>c. token_matches pattern token index c flags)"

function pattern_items :: "bytes \<Rightarrow> nat \<Rightarrow> u32 \<Rightarrow> item list" where
  "pattern_items pattern index flags =
     (if index < length pattern then
        let token = next_token pattern index flags
        in item_of pattern token index flags # pattern_items pattern (next_index token) flags
      else [])"
  by pat_completeness auto
termination
  by (relation "measure (\<lambda>(pattern, index, flags). length pattern - index)")
    (auto intro: diff_less_mono2 dest: next_token_less [THEN conjunct1])

declare pattern_items.simps [simp del]

fun item_accepts :: "(u8 \<Rightarrow> bool) \<Rightarrow> item \<Rightarrow> bytes \<Rightarrow> bool" where
  "item_accepts ok Any w \<longleftrightarrow> list_all ok w"
| "item_accepts ok (One p) w \<longleftrightarrow> (\<exists>c. w = [c] \<and> ok c \<and> p c)"

definition glob :: "(u8 \<Rightarrow> bool) \<Rightarrow> item list \<Rightarrow> bytes \<Rightarrow> bool" where
  "glob ok its cs \<longleftrightarrow> (\<exists>ws. list_all2 (item_accepts ok) its ws \<and> cs = concat ws)"

lemma glob_Nil [simp]: "glob ok [] cs \<longleftrightarrow> cs = []"
  by (simp add: glob_def)

lemma glob_Cons: "glob ok (it # its) cs \<longleftrightarrow> (\<exists>u v. cs = u @ v \<and> item_accepts ok it u \<and> glob ok its v)"
  by (fastforce simp: glob_def list_all2_Cons1)

lemma glob_One [simp]:
  "glob ok (One p # its) [] \<longleftrightarrow> False"
  "glob ok (One p # its) (c # cs) \<longleftrightarrow> ok c \<and> p c \<and> glob ok its cs"
proof -
  show "glob ok (One p # its) [] \<longleftrightarrow> False" by (auto simp: glob_Cons)
  show "glob ok (One p # its) (c # cs) \<longleftrightarrow> ok c \<and> p c \<and> glob ok its cs" (is "?L \<longleftrightarrow> ?R")
  proof
    assume ?L
    then show ?R by (auto simp: glob_Cons)
  next
    assume ?R
    then have "c # cs = [c] @ cs \<and> item_accepts ok (One p) [c] \<and> glob ok its cs" by simp
    then show ?L unfolding glob_Cons by blast
  qed
qed

lemma glob_Any: "glob ok (Any # its) cs \<longleftrightarrow> (\<exists>u v. cs = u @ v \<and> list_all ok u \<and> glob ok its v)"
  by (simp add: glob_Cons)

lemma glob_Any_absorb: "list_all ok u \<Longrightarrow> glob ok (Any # its) v \<Longrightarrow> glob ok (Any # its) (u @ v)"
  unfolding glob_Any by (metis append.assoc list_all_append)

definition is_One :: "item \<Rightarrow> bool" where "is_One it \<longleftrightarrow> it \<noteq> Any"

lemma glob_segment:
  "list_all is_One seg \<Longrightarrow> glob ok (seg @ its) cs \<Longrightarrow>
     \<exists>u v. cs = u @ v \<and> length u = length seg \<and> list_all ok u \<and> glob ok its v"
proof (induction seg arbitrary: cs)
  case (Cons it seg)
  then obtain p where it: "it = One p" by (cases it) (auto simp: is_One_def)
  with Cons.prems obtain c cs' where cs: "cs = c # cs'" "ok c" "glob ok (seg @ its) cs'"
    by (cases cs) auto
  from Cons.IH [OF _ cs(3)] Cons.prems(1) obtain u v where
    "cs' = u @ v" "length u = length seg" "list_all ok u" "glob ok its v" by auto
  with cs show ?case by (intro exI [of _ "c # u"] exI [of _ v]) simp
qed simp

text \<open>The bytes of a candidate between two indices are all accepted.\<close>

definition range_ok :: "(u8 \<Rightarrow> bool) \<Rightarrow> bytes \<Rightarrow> nat \<Rightarrow> nat \<Rightarrow> bool" where
  "range_ok ok cs i j \<longleftrightarrow> (\<forall>k. i \<le> k \<and> k < j \<longrightarrow> ok (cs ! k))"

lemma range_ok_list_all: "j \<le> length cs \<Longrightarrow> list_all ok (take (j - i) (drop i cs)) \<longleftrightarrow> range_ok ok cs i j"
proof -
  assume j: "j \<le> length cs"
  have "(\<forall>n < j - i. ok (cs ! (i + n))) \<longleftrightarrow> (\<forall>k. i \<le> k \<and> k < j \<longrightarrow> ok (cs ! k))"
    by (metis add_diff_inverse_nat less_diff_conv2 less_diff_conv add.commute le_add1 not_less)
  with j show ?thesis by (auto simp: list_all_length range_ok_def)
qed

lemma glob_Any_index:
  assumes "i \<le> length cs"
  shows "glob ok (Any # its) (drop i cs) \<longleftrightarrow>
     (\<exists>j\<ge>i. j \<le> length cs \<and> range_ok ok cs i j \<and> glob ok its (drop j cs))" (is "?L = ?R")
proof
  assume ?L
  then obtain u v where uv: "drop i cs = u @ v" "list_all ok u" "glob ok its v" unfolding glob_Any by blast
  have len: "i + length u \<le> length cs" using arg_cong [OF uv(1), of length] assms by simp
  have v: "v = drop (i + length u) cs"
    using arg_cong [OF uv(1), of "drop (length u)"] by (simp add: add.commute)
  have u: "take (i + length u - i) (drop i cs) = u" using uv(1) by simp
  from range_ok_list_all [OF len, of ok i] u uv(2) have "range_ok ok cs i (i + length u)" by simp
  with len v uv(3) show ?R by (intro exI [of _ "i + length u"]) simp
next
  assume ?R
  then obtain j where j: "j \<ge> i" "j \<le> length cs" "range_ok ok cs i j" "glob ok its (drop j cs)" by blast
  have "drop i cs = take (j - i) (drop i cs) @ drop j cs"
    using append_take_drop_id [of "j - i" "drop i cs"] j(1) by simp
  with j range_ok_list_all [OF j(2), of ok i] show ?L unfolding glob_Any by blast
qed

lemma glob_Any_discard:
  assumes seg: "list_all is_One seg" and g: "glob ok (seg @ Any # its) (drop j cs)"
    and j: "s < j" "j \<le> length cs" "range_ok ok cs s j" and i: "i = s + length seg"
  shows "glob ok (Any # its) (drop i cs)"
proof -
  from glob_segment [OF seg g] obtain u v where uv: "drop j cs = u @ v" "length u = length seg"
    "list_all ok u" "glob ok (Any # its) v" by blast
  define n where "n = j + length seg"
  have n: "n \<le> length cs" "i \<le> n"
    using arg_cong [OF uv(1), of length] j uv(2) i by (simp_all add: n_def)
  have u: "take (n - j) (drop j cs) = u" using uv(1, 2) by (simp add: n_def)
  from range_ok_list_all [OF n(1), of ok j] u uv(3) have "range_ok ok cs j n" by simp
  with j(3) i have "range_ok ok cs i n" unfolding range_ok_def by (metis add_leD1 le_less_linear)
  moreover have "v = drop n cs"
    using arg_cong [OF uv(1), of "drop (length u)"] uv(2) by (simp add: n_def add.commute)
  moreover have "drop i cs = take (n - i) (drop i cs) @ drop n cs"
    using append_take_drop_id [of "n - i" "drop i cs"] n(2) by simp
  ultimately show ?thesis
    using glob_Any_absorb [of ok "take (n - i) (drop i cs)" its v] uv(4) range_ok_list_all [OF n(1), of ok i] by simp
qed

subsection \<open>The backtracking matcher finds every decomposition\<close>

definition byte_ok :: "u32 \<Rightarrow> u8 \<Rightarrow> bool" where
  "byte_ok flags c \<longleftrightarrow> flags AND FNM_PATHNAME = 0 \<or> c \<noteq> 47"

text \<open>What a state of the matcher can still accept, and what relates its star to its position.\<close>

definition pending :: "bytes \<Rightarrow> bytes \<Rightarrow> u32 \<Rightarrow> matcher \<Rightarrow> bool" where
  "pending pattern candidate flags m \<longleftrightarrow>
     glob (byte_ok flags) (pattern_items pattern (pattern_index m) flags) (drop (candidate_index m) candidate) \<or>
     (\<exists>s j. star_pattern m = Some s \<and> star_candidate m < j \<and> j \<le> length candidate \<and>
        range_ok (byte_ok flags) candidate (star_candidate m) j \<and>
        glob (byte_ok flags) (pattern_items pattern s flags) (drop j candidate))"

definition matcher_ok :: "bytes \<Rightarrow> bytes \<Rightarrow> u32 \<Rightarrow> matcher \<Rightarrow> bool" where
  "matcher_ok pattern candidate flags m \<longleftrightarrow>
     candidate_index m \<le> length candidate \<and>
     (\<forall>s. star_pattern m = Some s \<longrightarrow>
        (\<exists>seg. pattern_items pattern s flags = seg @ pattern_items pattern (pattern_index m) flags \<and>
           list_all is_One seg \<and> candidate_index m = star_candidate m + length seg))"

lemma pending_at_star:
  assumes "pattern_index m = s" "star_pattern m = Some s" "candidate_index m = i" "star_candidate m = i" "i \<le> length candidate"
  shows "pending pattern candidate flags m \<longleftrightarrow> (\<exists>j\<ge>i. j \<le> length candidate \<and> range_ok (byte_ok flags) candidate i j \<and>
      glob (byte_ok flags) (pattern_items pattern s flags) (drop j candidate))"
proof -
  have "(\<exists>j\<ge>i. P j) \<longleftrightarrow> P i \<or> (\<exists>j>i. P j)" for P by (metis le_eq_less_or_eq)
  moreover have "range_ok (byte_ok flags) candidate i i" by (auto simp: range_ok_def)
  ultimately show ?thesis using assms by (simp add: pending_def)
qed

lemma backtrack_pending:
  assumes ok: "matcher_ok pattern candidate flags m"
    and no: "\<not> glob (byte_ok flags) (pattern_items pattern (pattern_index m) flags) (drop (candidate_index m) candidate)"
  shows "case backtrack candidate flags m of
      Return b \<Rightarrow> b = pending pattern candidate flags m
    | Continue m' \<Rightarrow> matcher_ok pattern candidate flags m' \<and> pending pattern candidate flags m' = pending pattern candidate flags m"
proof (cases "star_pattern m")
  case None
  with no show ?thesis by (simp add: backtrack_def pending_def)
next
  case (Some s)
  define i where "i = star_candidate m"
  have p: "pending pattern candidate flags m \<longleftrightarrow> (\<exists>j>i. j \<le> length candidate \<and>
      range_ok (byte_ok flags) candidate i j \<and> glob (byte_ok flags) (pattern_items pattern s flags) (drop j candidate))"
    using no Some by (auto simp: pending_def i_def)
  show ?thesis
  proof (cases "i < length candidate \<and> byte_ok flags (candidate ! i)")
    case True
    then have step: "range_ok (byte_ok flags) candidate i j = range_ok (byte_ok flags) candidate (i + 1) j" if "j > i" for j
      using that unfolding range_ok_def by (metis Suc_eq_plus1 Suc_leD le_neq_implies_less Suc_leI)
    let ?m = "m\<lparr>star_candidate := i + 1, candidate_index := i + 1, pattern_index := s\<rparr>"
    have b: "backtrack candidate flags m = Continue ?m"
      using True Some by (simp add: backtrack_def i_def byte_ok_def)
    have "pending pattern candidate flags ?m \<longleftrightarrow> (\<exists>j\<ge>i + 1. j \<le> length candidate \<and>
        range_ok (byte_ok flags) candidate (i + 1) j \<and> glob (byte_ok flags) (pattern_items pattern s flags) (drop j candidate))"
      by (rule pending_at_star) (use True Some in simp_all)
    with p step have "pending pattern candidate flags ?m = pending pattern candidate flags m" by (auto simp: Suc_le_eq)
    moreover have "matcher_ok pattern candidate flags ?m" using True Some by (simp add: matcher_ok_def)
    ultimately show ?thesis by (simp add: b)
  next
    case False
    then have "backtrack candidate flags m = Return False" using Some by (auto simp: backtrack_def i_def byte_ok_def)
    moreover have "\<not> pending pattern candidate flags m" using False p by (auto simp: range_ok_def)
    ultimately show ?thesis by simp
  qed
qed

lemma star_pending:
  assumes ok: "matcher_ok pattern candidate flags m"
    and its: "pattern_items pattern (pattern_index m) flags = Any # pattern_items pattern after flags"
    and m': "m' = m\<lparr>star_pattern := Some after, star_candidate := candidate_index m, pattern_index := after\<rparr>"
  shows "matcher_ok pattern candidate flags m'" "pending pattern candidate flags m' = pending pattern candidate flags m"
proof -
  define i where "i = candidate_index m"
  let ?g = "glob (byte_ok flags) (Any # pattern_items pattern after flags) (drop i candidate)"
  have i: "i \<le> length candidate" using ok by (simp add: matcher_ok_def i_def)
  show "matcher_ok pattern candidate flags m'" using i by (simp add: matcher_ok_def m' i_def)
  have "pending pattern candidate flags m' = ?g"
    unfolding glob_Any_index [OF i] m' by (rule pending_at_star) (use i in \<open>simp_all add: i_def\<close>)
  moreover have "?g" if alt: "star_pattern m = Some s" "star_candidate m < j" "j \<le> length candidate"
      "range_ok (byte_ok flags) candidate (star_candidate m) j"
      "glob (byte_ok flags) (pattern_items pattern s flags) (drop j candidate)" for s j
  proof -
    from ok alt(1) obtain seg where seg: "pattern_items pattern s flags = seg @ pattern_items pattern (pattern_index m) flags"
      "list_all is_One seg" "candidate_index m = star_candidate m + length seg" unfolding matcher_ok_def by blast
    from alt(5) seg(1) its show ?thesis
      using glob_Any_discard [OF seg(2) _ alt(2) alt(3) alt(4)] seg(3) by (simp add: i_def)
  qed
  ultimately show "pending pattern candidate flags m' = pending pattern candidate flags m"
    unfolding pending_def [of _ _ _ m] its i_def by blast
qed

lemma one_pending:
  assumes ok: "matcher_ok pattern candidate flags m" and c: "candidate_index m < length candidate"
    and its: "pattern_items pattern (pattern_index m) flags = One p # pattern_items pattern after flags"
    and p: "byte_ok flags (candidate ! candidate_index m)" "p (candidate ! candidate_index m)"
    and m': "m' = m\<lparr>pattern_index := after, candidate_index := candidate_index m + 1\<rparr>"
  shows "matcher_ok pattern candidate flags m'" "pending pattern candidate flags m' = pending pattern candidate flags m"
proof -
  show "pending pattern candidate flags m' = pending pattern candidate flags m"
    unfolding pending_def m' its Cons_nth_drop_Suc [OF c, symmetric] using p by simp
  show "matcher_ok pattern candidate flags m'"
    unfolding matcher_ok_def
  proof (intro conjI allI impI)
    show "candidate_index m' \<le> length candidate" using c by (simp add: m')
    fix s assume "star_pattern m' = Some s"
    with ok obtain seg where "pattern_items pattern s flags = seg @ pattern_items pattern (pattern_index m) flags"
      "list_all is_One seg" "candidate_index m = star_candidate m + length seg" unfolding matcher_ok_def m' by auto
    then show "\<exists>seg. pattern_items pattern s flags = seg @ pattern_items pattern (pattern_index m') flags \<and>
        list_all is_One seg \<and> candidate_index m' = star_candidate m' + length seg"
      by (intro exI [of _ "seg @ [One p]"]) (simp add: its m' is_One_def)
  qed
qed

lemma next_token_not_End: "index < length pattern \<Longrightarrow> next_token pattern index flags \<noteq> End"
  by (auto simp: next_token_def Let_def split: option.splits)

lemma component_turn_One:
  assumes "pattern_index m < length pattern" and t: "t = next_token pattern (pattern_index m) flags" "\<nexists>after. t = Star after"
  shows "component_turn pattern candidate flags m =
     (if candidate_index m < length candidate \<and> byte_ok flags (candidate ! candidate_index m) \<and>
         token_matches pattern t (pattern_index m) (candidate ! candidate_index m) flags
      then Continue (m\<lparr>pattern_index := next_index t, candidate_index := candidate_index m + 1\<rparr>)
      else backtrack candidate flags m)"
    and "item_of pattern t (pattern_index m) flags = One (\<lambda>x. token_matches pattern t (pattern_index m) x flags)"
proof -
  have "t \<noteq> End" using assms(1) t(1) next_token_not_End by simp
  with assms show "component_turn pattern candidate flags m =
     (if candidate_index m < length candidate \<and> byte_ok flags (candidate ! candidate_index m) \<and>
         token_matches pattern t (pattern_index m) (candidate ! candidate_index m) flags
      then Continue (m\<lparr>pattern_index := next_index t, candidate_index := candidate_index m + 1\<rparr>)
      else backtrack candidate flags m)"
    unfolding component_turn_def byte_ok_def t(1) [symmetric] Let_def
    by (cases t) (simp_all del: token_matches.simps)
  show "item_of pattern t (pattern_index m) flags = One (\<lambda>x. token_matches pattern t (pattern_index m) x flags)"
    using \<open>t \<noteq> End\<close> t(2) by (cases t) simp_all
qed

text \<open>One turn keeps what the state can still accept, or returns it.\<close>

definition turn_ok :: "bytes \<Rightarrow> bytes \<Rightarrow> u32 \<Rightarrow> matcher \<Rightarrow> turn \<Rightarrow> bool" where
  "turn_ok pattern candidate flags m t = (case t of
      Return b \<Rightarrow> b = pending pattern candidate flags m
    | Continue m' \<Rightarrow> matcher_ok pattern candidate flags m' \<and> pending pattern candidate flags m' = pending pattern candidate flags m)"

lemma component_turn_pending:
  assumes ok: "matcher_ok pattern candidate flags m"
  shows "turn_ok pattern candidate flags m (component_turn pattern candidate flags m)"
proof (cases "pattern_index m < length pattern")
  case False
  then have its: "pattern_items pattern (pattern_index m) flags = []" by (simp add: pattern_items.simps)
  show ?thesis
  proof (cases "length candidate \<le> candidate_index m")
    case True
    with False its show ?thesis by (simp add: component_turn_def turn_ok_def pending_def)
  next
    case c: False
    with False have "component_turn pattern candidate flags m = backtrack candidate flags m"
      by (simp add: component_turn_def)
    with c its backtrack_pending [OF ok] show ?thesis by (simp add: turn_ok_def)
  qed
next
  case True
  define t where "t = next_token pattern (pattern_index m) flags"
  have its: "pattern_items pattern (pattern_index m) flags =
      item_of pattern t (pattern_index m) flags # pattern_items pattern (next_index t) flags"
    unfolding t_def using True by (subst pattern_items.simps) (simp add: Let_def)
  show ?thesis
  proof (cases "\<exists>after. t = Star after")
    case star: True
    then obtain after where t: "t = Star after" by blast
    from True t have "component_turn pattern candidate flags m =
        Continue (m\<lparr>star_pattern := Some after, star_candidate := candidate_index m, pattern_index := after\<rparr>)"
      by (simp add: component_turn_def t_def)
    with star_pending [OF ok _ refl, of after] its t show ?thesis by (simp add: turn_ok_def)
  next
    case False
    note one = component_turn_One [OF True t_def False]
    define b where "b \<longleftrightarrow> candidate_index m < length candidate \<and> byte_ok flags (candidate ! candidate_index m) \<and>
      token_matches pattern t (pattern_index m) (candidate ! candidate_index m) flags"
    show ?thesis
    proof (cases b)
      case True
      then have b: "candidate_index m < length candidate" "byte_ok flags (candidate ! candidate_index m)"
        "token_matches pattern t (pattern_index m) (candidate ! candidate_index m) flags" by (simp_all add: b_def)
      from one_pending [OF ok b(1) its [unfolded one(2)] b(2) b(3) refl] show ?thesis
        unfolding turn_ok_def one(1) b_def [symmetric] if_P [OF True] by simp
    next
      case False
      have "\<not> glob (byte_ok flags) (pattern_items pattern (pattern_index m) flags) (drop (candidate_index m) candidate)"
        using False unfolding its one(2) b_def
        by (cases "candidate_index m < length candidate") (auto simp: Cons_nth_drop_Suc [symmetric])
      with backtrack_pending [OF ok] show ?thesis
        unfolding turn_ok_def one(1) b_def [symmetric] if_not_P [OF False] by blast
    qed
  qed
qed

lemma component_loop_pending:
  "matcher_ok pattern candidate flags m \<Longrightarrow> component_loop pattern candidate flags m = pending pattern candidate flags m"
proof (induction pattern candidate flags m rule: component_loop.induct)
  case (1 pattern candidate flags m)
  show ?case
    using component_turn_pending [OF "1.prems"] "1.IH"
    by (subst component_loop.simps) (auto simp: turn_ok_def split: turn.splits)
qed

text \<open>The reference semantics of one component: a leading period needs a literal one, and the
  candidate is a concatenation of pieces, one accepted by each item of the pattern.\<close>

definition component_accepts :: "u32 \<Rightarrow> bytes \<Rightarrow> bytes \<Rightarrow> bool" where
  "component_accepts flags pattern candidate \<longleftrightarrow>
     (flags AND FNM_PERIOD \<noteq> 0 \<and> take 1 candidate = [46] \<longrightarrow> take 1 pattern = [46]) \<and>
     glob (byte_ok flags) (pattern_items pattern 0 flags) candidate"

lemma component_matches_iff: "component_matches pattern candidate flags = component_accepts flags pattern candidate"
  by (auto simp: component_matches_def component_accepts_def component_loop_pending matcher_ok_def pending_def)

subsection \<open>Paths\<close>

lemma pattern_component_end_less:
  "pattern_component_end pattern start flags = (stop, after, True) \<Longrightarrow>
     start \<le> stop \<and> stop < after \<and> after \<le> length pattern"
proof (induction pattern start flags rule: pattern_component_end.induct)
  case (1 pattern cursor flags)
  define token where "token = next_token pattern cursor flags"
  have eq: "pattern_component_end pattern cursor flags =
      (if token = End then (length pattern, length pattern, False)
       else if is_slash token then (cursor, next_index token, True)
       else pattern_component_end pattern (next_index token) flags)"
    by (subst pattern_component_end.simps) (simp add: Let_def token_def)
  with "1.prems" have noend: "token \<noteq> End" by auto
  then have "cursor < length pattern" by (auto simp: token_def next_token_def split: if_splits)
  note less = next_token_less [OF this, of flags, folded token_def]
  show ?case
  proof (cases "is_slash token")
    case True
    with eq noend less "1.prems" show ?thesis by simp
  next
    case False
    with eq noend "1.prems" have "pattern_component_end pattern (next_index token) flags = (stop, after, True)" by simp
    from "1.IH" [OF token_def noend False this] less show ?thesis by simp
  qed
qed

text \<open>The components of a pattern are the slices between its separators; those of a path are
  the pieces between its slashes.\<close>

function pattern_components :: "bytes \<Rightarrow> u32 \<Rightarrow> nat \<Rightarrow> bytes list" where
  "pattern_components pattern flags start =
     (let (stop, after, has_slash) = pattern_component_end pattern start flags
      in take (stop - start) (drop start pattern) # (if has_slash then pattern_components pattern flags after else []))"
  by pat_completeness auto
termination
  by (relation "measure (\<lambda>(pattern, flags, start). length pattern - start)")
    (auto dest!: sym [of _ "pattern_component_end _ _ _"] pattern_component_end_less)

declare pattern_components.simps [simp del]

fun path_components :: "bytes \<Rightarrow> bytes list" where
  "path_components [] = [[]]"
| "path_components (c # cs) =
     (if c = 47 then [] # path_components cs
      else (c # hd (path_components cs)) # tl (path_components cs))"

definition path_accepts :: "u32 \<Rightarrow> bytes list \<Rightarrow> bytes list \<Rightarrow> bool" where
  "path_accepts flags ps cs =
     (let cs' = (if flags AND FNM_LEADING_DIR \<noteq> 0 then take (length ps) cs else cs)
      in list_all2 (component_accepts (flags AND NOT FNM_LEADING_DIR)) ps cs')"

lemma path_components_unfold:
  "path_components cs = takeWhile (\<lambda>c. c \<noteq> 47) cs #
     (case dropWhile (\<lambda>c. c \<noteq> 47) cs of [] \<Rightarrow> [] | _ # rest \<Rightarrow> path_components rest)"
  by (induction cs) auto

lemma path_components_not_Nil [simp]: "path_components cs \<noteq> []"
  by (subst path_components_unfold) simp

lemma pattern_components_not_Nil [simp]: "pattern_components pattern flags start \<noteq> []"
  by (subst pattern_components.simps) (simp split: prod.splits)

lemma path_components_index:
  assumes "start \<le> length candidate"
  shows "path_components (drop start candidate) =
     take (slash_end candidate start - start) (drop start candidate) #
       (if slash_end candidate start < length candidate then path_components (drop (slash_end candidate start + 1) candidate) else [])"
proof -
  define w where "w = takeWhile (\<lambda>c. c \<noteq> 47) (drop start candidate)"
  have stop: "slash_end candidate start = start + length w" by (simp add: slash_end_def w_def)
  have d: "dropWhile (\<lambda>c. c \<noteq> 47) (drop start candidate) = drop (slash_end candidate start) candidate"
    by (simp add: stop w_def dropWhile_eq_drop add.commute)
  have "take (slash_end candidate start - start) (drop start candidate) = w"
    by (simp add: stop w_def takeWhile_eq_take [symmetric])
  moreover have "(case drop n candidate of [] \<Rightarrow> [] | _ # rest \<Rightarrow> path_components rest) =
      (if n < length candidate then path_components (drop (n + 1) candidate) else [])" for n
    by (cases "n < length candidate") (simp_all add: Cons_nth_drop_Suc [symmetric])
  ultimately show ?thesis by (subst path_components_unfold) (simp add: d w_def)
qed

lemma path_accepts_Cons:
  "path_accepts flags (p # ps) (c # cs) \<longleftrightarrow> component_accepts (flags AND NOT FNM_LEADING_DIR) p c \<and> path_accepts flags ps cs"
  by (simp add: path_accepts_def)

lemma path_accepts_Nil:
  "path_accepts flags [] cs \<longleftrightarrow> cs = [] \<or> flags AND FNM_LEADING_DIR \<noteq> 0"
  "ps \<noteq> [] \<Longrightarrow> \<not> path_accepts flags ps []"
  by (auto simp: path_accepts_def)

lemma fnmatch_path_accepts:
  "candidate_start \<le> length candidate \<Longrightarrow> fnmatch_path pattern candidate flags pattern_start candidate_start =
     path_accepts flags (pattern_components pattern flags pattern_start) (path_components (drop candidate_start candidate))"
proof (induction pattern candidate flags pattern_start candidate_start rule: fnmatch_path.induct)
  case (1 pattern candidate flags ps cs)
  obtain stop after has where e: "pattern_component_end pattern ps flags = (stop, after, has)" by (metis prod_cases3)
  define c where "c = slash_end candidate cs"
  define acc where "acc = component_accepts (flags AND NOT FNM_LEADING_DIR) (take (stop - ps) (drop ps pattern)) (take (c - cs) (drop cs candidate))"
  have P: "pattern_components pattern flags ps = take (stop - ps) (drop ps pattern) # (if has then pattern_components pattern flags after else [])"
    by (subst pattern_components.simps) (simp add: e)
  note C = path_components_index [OF "1.prems", folded c_def]
  have F: "fnmatch_path pattern candidate flags ps cs \<longleftrightarrow>
      \<not> (has \<noteq> (c < length candidate) \<and> c < length candidate \<and> flags AND FNM_LEADING_DIR = 0) \<and> acc \<and>
      (has \<longrightarrow> c < length candidate \<and> fnmatch_path pattern candidate flags after (c + 1))"
    by (subst fnmatch_path.simps)
      (auto simp: Let_def e component_matches_iff acc_def [symmetric] c_def [symmetric])
  show ?case
  proof (cases "acc \<and> has \<and> c < length candidate")
    case True
    then have "fnmatch_path pattern candidate flags after (c + 1) =
       path_accepts flags (pattern_components pattern flags after) (path_components (drop (c + 1) candidate))"
      using "1.IH" [OF e [symmetric] refl refl] by (simp add: c_def component_matches_iff acc_def e)
    with True show ?thesis by (simp add: F P C path_accepts_Cons acc_def)
  next
    case False
    then show ?thesis by (auto simp: F P C path_accepts_Cons path_accepts_Nil acc_def)
  qed
qed

lemma list_ex_prefix:
  "list_ex (\<lambda>index. candidate ! index = 47 \<and> P (take index candidate)) [0..<length candidate] \<longleftrightarrow>
     (\<exists>prefix rest. candidate = prefix @ 47 # rest \<and> P prefix)" (is "?L \<longleftrightarrow> ?R")
proof
  assume ?L
  then obtain i where i: "i < length candidate" "candidate ! i = 47" "P (take i candidate)"
    by (auto simp: list_ex_iff)
  with id_take_nth_drop [OF i(1)] show ?R by metis
next
  assume ?R
  then obtain prefix rest where "candidate = prefix @ 47 # rest" "P prefix" by blast
  then show ?L by (auto simp: list_ex_iff intro!: bexI [of _ "length prefix"])
qed

text \<open>C4. \<open>fnmatch\<close> decides its reference semantics, for every pattern, candidate and set of
  flags, although it only ever backtracks to the most recent star. A pattern is a sequence of
  items, stars and single-byte tests; a component is accepted when it is a concatenation of
  pieces, one accepted by each item (no piece containing a slash under \<open>FNM_PATHNAME\<close>), and
  under \<open>FNM_PERIOD\<close> a leading period is matched by a literal one. Under \<open>FNM_PATHNAME\<close> the
  components of the pattern and of the path are accepted one by one, as many of each, or under
  \<open>FNM_LEADING_DIR\<close> as many as the pattern has; without it \<open>FNM_LEADING_DIR\<close> accepts any
  prefix of the candidate that ends before a slash.\<close>

theorem fnmatch_spec:
  "fnmatch pattern candidate flags \<longleftrightarrow>
     (if flags AND FNM_PATHNAME \<noteq> 0
      then path_accepts flags (pattern_components pattern flags 0) (path_components candidate)
      else component_accepts flags pattern candidate \<or>
        (flags AND FNM_LEADING_DIR \<noteq> 0 \<and>
         (\<exists>prefix rest. candidate = prefix @ 47 # rest \<and> component_accepts flags pattern prefix)))"
  by (auto simp: fnmatch_def fnmatch_path_accepts component_matches_iff list_ex_prefix)

subsection \<open>Complemented brackets\<close>

text \<open>Scanning a bracket whose member list starts one byte later.\<close>

lemma opens_element_shift:
  "opens_element (a # b # body) (Suc (Suc k)) (Suc limit) = opens_element (a # body) (Suc k) limit"
  by (simp add: opens_element_def)

lemma nested_end_shift:
  "nested_end (a # b # body) d (Suc (Suc k)) = map_option Suc (nested_end (a # body) d (Suc k))"
proof (induction "length body - k" arbitrary: k rule: less_induct)
  case less
  then show ?case
    by (subst nested_end.simps, subst (2) nested_end.simps) auto
qed

lemma bracket_end_loop_shift:
  "bracket_end_loop (a # b # body) (Suc (Suc k)) = map_option Suc (bracket_end_loop (a # body) (Suc k))"
proof (induction "length body - k" arbitrary: k rule: less_induct)
  case less
  let ?d = "body ! Suc k"
  have q: "bracket_end_loop (a # b # body) (Suc (Suc k)) =
     (if k < length body then
        if body ! k = 93 then Some (k + 3)
        else if opens_element (a # body) (Suc k) (length (a # body)) then
          (case nested_end (a # body) ?d (k + 3) of None \<Rightarrow> None
           | Some m \<Rightarrow> bracket_end_loop (a # b # body) (Suc m))
        else bracket_end_loop (a # b # body) (Suc (Suc (Suc k)))
      else None)"
    using nested_end_shift [of a b body ?d "Suc (Suc k)"]
    by (subst bracket_end_loop.simps)
      (simp add: opens_element_shift eval_nat_numeral option.case_eq_if option.map_sel)
  have p: "bracket_end_loop (a # body) (Suc k) =
     (if k < length body then
        if body ! k = 93 then Some (k + 2)
        else if opens_element (a # body) (Suc k) (length (a # body)) then
          (case nested_end (a # body) ?d (k + 3) of None \<Rightarrow> None
           | Some m \<Rightarrow> bracket_end_loop (a # body) m)
        else bracket_end_loop (a # body) (Suc (Suc k))
      else None)"
    by (subst bracket_end_loop.simps) (simp add: eval_nat_numeral)
  show ?case
  proof (cases "nested_end (a # body) ?d (k + 3)")
    case None
    then show ?thesis using less [of "Suc k"] unfolding p q by simp
  next
    case (Some m)
    then obtain k' where "m = Suc k'" "k < k'" using nested_end_less [OF Some] by (cases m) auto
    then show ?thesis using less [of "Suc k"] less [of k'] Some unfolding p q by simp
  qed
qed

lemma close_index_shift:
  "close_index (a # b # body) (Suc limit) d (Suc (Suc k)) = Suc (close_index (a # body) limit d (Suc k))"
proof (induction "limit - k" arbitrary: k rule: less_induct)
  case less
  then show ?case
    by (subst close_index.simps, subst (2) close_index.simps) auto
qed

lemma closed_element_shift:
  "closed_element (a # b # body) (Suc limit) (Suc (Suc k)) = map_option Suc (closed_element (a # body) limit (Suc k))"
  by (simp add: closed_element_def opens_element_shift close_index_shift Let_def)

lemma bracket_loop_element:
  "cursor < limit \<Longrightarrow> \<not> (pattern ! cursor = 45 \<and> cursor + 1 < limit \<and> pattern ! (cursor + 1) \<noteq> 93) \<Longrightarrow>
   bracket_loop pattern limit c f flags inverted cursor =
     (case closed_element pattern limit cursor of
        Some close \<Rightarrow>
          (let cls = take (close - (cursor + 2)) (drop (cursor + 2) pattern)
           in if (if pattern ! (cursor + 1) = 58 then class_matches cls c f else length cls = 1 \<and> bytes_equal (cls ! 0) c flags)
              then \<not> inverted else bracket_loop pattern limit c f flags inverted (close + 2))
      | None \<Rightarrow> if bytes_equal (pattern ! cursor) c flags then \<not> inverted
                else bracket_loop pattern limit c f flags inverted (cursor + 1))"
  by (subst bracket_loop.simps) (simp only: if_True if_False Let_def cong: if_cong)

lemma bracket_loop_range:
  "cursor < limit \<Longrightarrow> pattern ! cursor = 45 \<and> cursor + 1 < limit \<and> pattern ! (cursor + 1) \<noteq> 93 \<Longrightarrow>
   bracket_loop pattern limit c f flags inverted cursor =
     (if pattern ! (cursor - 1) \<le> pattern ! (cursor + 1) \<and>
         ((pattern ! (cursor - 1) \<le> c \<and> c \<le> pattern ! (cursor + 1)) \<or> (pattern ! (cursor - 1) \<le> f \<and> f \<le> pattern ! (cursor + 1)))
      then \<not> inverted else bracket_loop pattern limit c f flags inverted (cursor + 2))"
  by (subst bracket_loop.simps) (simp only: if_True Let_def simp_thms)

lemma bracket_loop_complement:
  "k = 0 \<longrightarrow> limit \<le> 1 \<or> body ! 0 \<noteq> 45 \<Longrightarrow>
   bracket_loop (a # b # body) (Suc limit) c f flags (\<not> inverted) (Suc (Suc k)) \<longleftrightarrow>
     \<not> bracket_loop (a # body) limit c f flags inverted (Suc k)"
proof (induction "limit - k" arbitrary: k rule: less_induct)
  case less
  have IH: "bracket_loop (a # b # body) (Suc limit) c f flags (\<not> inverted) (Suc (Suc k')) \<longleftrightarrow>
     \<not> bracket_loop (a # body) limit c f flags inverted (Suc k')" if "k < k'" "k < limit" for k'
    using that less.hyps [of k'] by simp
  show ?case
  proof (cases "Suc k < limit")
    case False
    then show ?thesis by (simp add: bracket_loop.simps)
  next
    case True
    show ?thesis
    proof (cases "body ! k = 45 \<and> Suc (Suc k) < limit \<and> body ! Suc k \<noteq> 93")
      case range: True
      with less.prems True obtain k0 where k: "k = Suc k0" by (cases k) auto
      from range True IH [of "Suc (Suc k)"] show ?thesis by (auto simp: bracket_loop_range k)
    next
      case False
      then have p: "\<not> ((a # body) ! Suc k = 45 \<and> Suc k + 1 < limit \<and> (a # body) ! (Suc k + 1) \<noteq> 93)"
        and q: "\<not> ((a # b # body) ! Suc (Suc k) = 45 \<and> Suc (Suc k) + 1 < Suc limit \<and> (a # b # body) ! (Suc (Suc k) + 1) \<noteq> 93)"
        by simp_all
      have q1: "Suc (Suc k) < Suc limit" using True by simp
      show ?thesis
      proof (cases "closed_element (a # body) limit (Suc k)")
        case None
        with IH [of "Suc k"] True show ?thesis
          unfolding bracket_loop_element [OF True p] bracket_loop_element [OF q1 q] by (simp add: closed_element_shift)
      next
        case (Some close)
        then obtain k' where "close = Suc k'" "k < k'" using closed_element_ge [OF Some] by (cases close) auto
        with IH [of "Suc (Suc k')"] True Some show ?thesis
          unfolding bracket_loop_element [OF True p] bracket_loop_element [OF q1 q] by (simp add: closed_element_shift Let_def)
      qed
    qed
  qed
qed

lemma bracket_matches_complement:
  assumes "b = 33 \<or> b = 94" and ne: "body ! 0 \<noteq> 94" "body ! 0 \<noteq> 33" and n: "3 \<le> n"
  shows "bracket_matches (a # b # body) 0 (Suc n) c f flags \<longleftrightarrow> \<not> bracket_matches (a # body) 0 n c f flags"
proof -
  obtain limit where limit: "n = Suc limit" "1 < limit" using n by (cases n) auto
  note loop = bracket_loop_complement [where a = a and b = b and body = body and c = c and f = f and
      flags = flags and inverted = False and limit = limit]
  have q: "bracket_matches (a # b # body) 0 (Suc n) c f flags =
      (if body ! 0 = 93 then c \<noteq> 93 \<and> bracket_loop (a # b # body) (Suc limit) c f flags True (Suc (Suc (Suc 0)))
       else if body ! 0 = 45 then c \<noteq> 45 \<and> bracket_loop (a # b # body) (Suc limit) c f flags True (Suc (Suc (Suc 0)))
       else bracket_loop (a # b # body) (Suc limit) c f flags True (Suc (Suc 0)))"
    using assms(1) limit by (auto simp: bracket_matches_def Let_def)
  have p: "bracket_matches (a # body) 0 n c f flags =
      (if body ! 0 = 93 then c \<noteq> 93 \<longrightarrow> bracket_loop (a # body) limit c f flags False (Suc (Suc 0))
       else if body ! 0 = 45 then c \<noteq> 45 \<longrightarrow> bracket_loop (a # body) limit c f flags False (Suc (Suc 0))
       else bracket_loop (a # body) limit c f flags False (Suc 0))"
    using ne limit by (auto simp: bracket_matches_def Let_def)
  show ?thesis using loop [of "Suc 0"] loop [of 0] unfolding p q by simp
qed

text \<open>A bracket expression written as a whole pattern.\<close>

definition whole_bracket :: "bytes \<Rightarrow> bool" where
  "whole_bracket pattern \<longleftrightarrow> bracket_end pattern 0 = Some (length pattern) \<and> pattern ! 0 = 91"

lemma whole_bracket_complement:
  assumes w: "whole_bracket (91 # body)" and ne: "body ! 0 \<noteq> 94" "body ! 0 \<noteq> 33"
  shows "whole_bracket (91 # 33 # body)" "3 \<le> length (91 # body)"
proof -
  have body: "body \<noteq> []" using w by (auto simp: whole_bracket_def bracket_end_def bracket_end_loop.simps)
  have p: "bracket_end (91 # body) 0 = bracket_end_loop (91 # body) (Suc (if body ! 0 = 93 then 1 else 0))"
    using ne body by (simp add: bracket_end_def Let_def)
  have q: "bracket_end (91 # 33 # body) 0 = bracket_end_loop (91 # 33 # body) (Suc (Suc (if body ! 0 = 93 then 1 else 0)))"
    using body by (simp add: bracket_end_def Let_def)
  from w show "whole_bracket (91 # 33 # body)"
    unfolding whole_bracket_def p q bracket_end_loop_shift by simp
  show "3 \<le> length (91 # body)"
  proof (rule ccontr)
    assume "\<not> ?thesis"
    with body obtain x where x: "body = [x]" by (cases body; cases "tl body") auto
    from w show False unfolding whole_bracket_def p unfolding x
      by (auto simp: bracket_end_loop.simps opens_element_def split: if_splits)
  qed
qed

lemma whole_bracket_items:
  assumes "whole_bracket p"
  shows "pattern_items p 0 flags = [One (\<lambda>c. token_matches p (Bracket (length p)) 0 c flags)]"
    "pattern_components p flags 0 = [p]"
proof -
  have ne: "0 < length p" using assms by (cases p) (auto simp: whole_bracket_def bracket_end_def bracket_end_loop.simps)
  have t: "next_token p 0 flags = Bracket (length p)" "next_token p (length p) flags = End"
    using assms ne by (simp_all add: next_token_def whole_bracket_def)
  show "pattern_items p 0 flags = [One (\<lambda>c. token_matches p (Bracket (length p)) 0 c flags)]"
    using ne by (subst pattern_items.simps) (simp add: t Let_def pattern_items.simps [of p "length p"] del: token_matches.simps)
  have "pattern_component_end p 0 flags = (length p, length p, False)"
    by (subst pattern_component_end.simps) (simp add: t Let_def pattern_component_end.simps [of p "length p"])
  then show "pattern_components p flags 0 = [p]" by (subst pattern_components.simps) simp
qed

lemma and_not_keeps: "(m :: 'a::len word) AND NOT d = m \<Longrightarrow> (flags AND NOT d) AND m = flags AND m"
  by (metis and.assoc and.commute)

lemma leading_dir_independent:
  "(flags AND NOT FNM_LEADING_DIR) AND FNM_PATHNAME = flags AND FNM_PATHNAME"
  "(flags AND NOT FNM_LEADING_DIR) AND FNM_PERIOD = flags AND FNM_PERIOD"
  by (rule and_not_keeps, simp add: FNM_LEADING_DIR_def FNM_PATHNAME_def FNM_PERIOD_def)+

lemma fnmatch_whole_bracket:
  assumes w: "whole_bracket p" and c: "byte_ok flags c" "flags AND FNM_PERIOD = 0 \<or> c \<noteq> 46"
  shows "fnmatch p [c] flags = token_matches p (Bracket (length p)) 0 c
     (if flags AND FNM_PATHNAME \<noteq> 0 then flags AND NOT FNM_LEADING_DIR else flags)"
proof (cases "flags AND FNM_PATHNAME = 0")
  case True
  then show ?thesis using c w
    by (auto simp: fnmatch_def component_matches_iff component_accepts_def whole_bracket_items byte_ok_def
        simp del: token_matches.simps)
next
  case False
  then show ?thesis using c w
    by (auto simp: fnmatch_def fnmatch_path_accepts path_accepts_def component_accepts_def whole_bracket_items
        byte_ok_def leading_dir_independent simp del: token_matches.simps)
qed



end
