(* ===== verification/DnsExchange.thy ===== *)
theory DnsExchange
  imports Dns "HOL-Library.Signed_Division"
begin

text \<open>
  The transport half of \<open>crabc-core/src/resolver.rs\<close>: sending a query to the configured
  nameservers over UDP and, on truncation, over TCP, with deadlines and retries.

  The kernel and the \<open>DnsTransport\<close> implementation are parameters. Every call to them is an
  event of a trace, oldest first, and the answers may depend in any way on the arguments and on the
  whole trace so far. An operation that loops until the environment lets it stop is a
  \<open>partial_function\<close>: \<open>None\<close> is a run that does not return.
\<close>

datatype dns_socket_kind = Datagram | Stream
datatype dns_wait = Readable | Writable
datatype 'a dns_io_result = Complete 'a | Failed errno | MaskedCancellation
datatype dns_tcp_start = Connected | Queued nat
datatype dns_tcp_failure = Immediate | WaitUntilDeadline
datatype udp_response = UdpComplete nat | Truncated
datatype record_framing = CompleteRecords | QuestionMatched
datatype exchange_error = Setup errno | Transport errno

record dns_datagram =
  dg_length :: nat
  dg_truncated :: bool

record name_server =
  ns_family :: u16
  ns_address :: bytes
  ns_port :: u16
  ns_scope_id :: u32

record exchange_config =
  nameservers :: "name_server list"
  nameserver_count :: nat
  timeout_ms :: u32
  attempts :: u8

record dns_socket_address =
  sa_family :: u32
  sa_storage :: bytes
  sa_length :: nat

definition AF_INET :: u16 where "AF_INET = 2"
definition AF_INET6 :: u16 where "AF_INET6 = 10"
definition SOCK_DGRAM :: u32 where "SOCK_DGRAM = 2"
definition SOCK_STREAM :: u32 where "SOCK_STREAM = 1"
definition SOCK_NONBLOCK :: u32 where "SOCK_NONBLOCK = 0x800"
definition SOCK_CLOEXEC :: u32 where "SOCK_CLOEXEC = 0x80000"
definition MSG_TRUNC :: u32 where "MSG_TRUNC = 0x20"
definition MAX_NAMESERVERS :: nat where "MAX_NAMESERVERS = 3"
definition POLLIN :: u16 where "POLLIN = 0x1"
definition POLLOUT :: u16 where "POLLOUT = 0x4"
definition POLLERR :: u16 where "POLLERR = 0x8"
definition POLLHUP :: u16 where "POLLHUP = 0x10"
definition POLLNVAL :: u16 where "POLLNVAL = 0x20"

text \<open>The configuration constructors; an address array has four or sixteen bytes.\<close>

definition ipv4 :: "bytes \<Rightarrow> name_server" where
  "ipv4 address = \<lparr>ns_family = AF_INET, ns_address = splice (replicate 16 0) 0 (take 4 address), ns_port = 53, ns_scope_id = 0\<rparr>"

definition ipv6 :: "bytes \<Rightarrow> u32 \<Rightarrow> name_server" where
  "ipv6 address scope_id = \<lparr>ns_family = AF_INET6, ns_address = address, ns_port = 53, ns_scope_id = scope_id\<rparr>"

definition single :: "name_server \<Rightarrow> u32 \<Rightarrow> exchange_config" where
  "single nameserver timeout =
     \<lparr>nameservers = replicate MAX_NAMESERVERS nameserver, nameserver_count = 1, timeout_ms = timeout, attempts = 1\<rparr>"

text \<open>The calls that leave the engine.\<close>

datatype event =
    ClockRead
  | SocketCall "errno + int"
  | SocketOpened int dns_socket_kind
  | SocketClosed int
  | SyscallFailed errno
  | ConnectCall int
  | StreamStarting
  | WaitCall int dns_wait u32
  | SendCall int bytes dns_socket_kind "nat dns_io_result"
  | ReceiveCall int dns_socket_kind
  | SocketErrorRead int

type_synonym trace = "event list"

text \<open>
  What the environment answers: the raw system calls of the engine and the methods of the
  transport. A receive also says which bytes it stored. \<open>start_tcp\<close> may itself call the
  environment, so it is a separate argument that extends the trace.
\<close>

record environment =
  clock_gettime :: "trace \<Rightarrow> errno + int \<times> int"
  net_socket :: "u32 \<Rightarrow> u32 \<Rightarrow> trace \<Rightarrow> errno + int"
  net_connect :: "int \<Rightarrow> dns_socket_address \<Rightarrow> trace \<Rightarrow> errno + unit"
  t_stream_starting :: "trace \<Rightarrow> dns_tcp_failure"
  t_wait :: "int \<Rightarrow> dns_wait \<Rightarrow> u32 \<Rightarrow> trace \<Rightarrow> bool dns_io_result"
  t_send :: "int \<Rightarrow> bytes \<Rightarrow> dns_socket_kind \<Rightarrow> trace \<Rightarrow> nat dns_io_result"
  t_receive_stream :: "int \<Rightarrow> nat \<Rightarrow> trace \<Rightarrow> nat dns_io_result \<times> bytes"
  t_receive_datagram :: "int \<Rightarrow> nat \<Rightarrow> trace \<Rightarrow> dns_datagram dns_io_result \<times> bytes"

type_synonym tcp_starter =
  "int \<Rightarrow> dns_socket_address \<Rightarrow> bytes \<Rightarrow> int \<Rightarrow> trace \<Rightarrow> (dns_tcp_start result \<times> trace) option"

text \<open>A buffer after the environment has stored \<open>data\<close> at its front: never past its end.\<close>

definition fill :: "bytes \<Rightarrow> bytes \<Rightarrow> bytes" where
  "fill data buf = take (length buf) data @ drop (length data) buf"

subsection \<open>Addresses\<close>

text \<open>The \<open>repr(C)\<close> records of the little-endian target: native fields, a big-endian port.\<close>

definition server_address :: "name_server \<Rightarrow> dns_socket_address result" where
  "server_address server =
     (let port = (if ns_port server = 0 then 53 else ns_port server);
          native16 = (\<lambda>x::u16. [ucast x, ucast (drop_bit 8 x)] :: bytes);
          big16 = (\<lambda>x::u16. [ucast (drop_bit 8 x), ucast x] :: bytes);
          native32 = (\<lambda>x::u32. [ucast x, ucast (drop_bit 8 x), ucast (drop_bit 16 x), ucast (drop_bit 24 x)] :: bytes)
      in if ns_family server = AF_INET then
           let bytes = native16 AF_INET @ big16 port @ take 4 (ns_address server) @ replicate 8 0
           in Ok \<lparr>sa_family = ucast (ns_family server), sa_storage = splice (replicate 28 0) 0 bytes, sa_length = length bytes\<rparr>
         else if ns_family server = AF_INET6 then
           let bytes = native16 AF_INET6 @ big16 port @ native32 0 @ ns_address server @ native32 (ns_scope_id server)
           in Ok \<lparr>sa_family = ucast (ns_family server), sa_storage = splice (replicate 28 0) 0 bytes, sa_length = length bytes\<rparr>
         else Err invalid)"

definition as_bytes :: "dns_socket_address \<Rightarrow> bytes" where
  "as_bytes address = take (sa_length address) (sa_storage address)"

subsection \<open>Deadlines\<close>

text \<open>\<open>saturating_mul\<close> and \<open>saturating_add\<close> of \<open>i64\<close>; plain subtraction wraps.\<close>

definition saturate_i64 :: "int \<Rightarrow> int" where
  "saturate_i64 x = max (- (2 ^ 63)) (min (2 ^ 63 - 1) x)"

definition monotonic_millis :: "environment \<Rightarrow> trace \<Rightarrow> int result \<times> trace" where
  "monotonic_millis env tr =
     (case clock_gettime env tr of
        Inl error \<Rightarrow> (Err error, tr @ [ClockRead, SyscallFailed error])
      | Inr (seconds, nanoseconds) \<Rightarrow>
          (Ok (saturate_i64 (saturate_i64 (seconds * 1000) + nanoseconds sdiv 1000000)), tr @ [ClockRead]))"

definition deadline_after :: "environment \<Rightarrow> u32 \<Rightarrow> trace \<Rightarrow> int result \<times> trace" where
  "deadline_after env timeout tr =
     (case monotonic_millis env tr of (r, tr) \<Rightarrow>
        (and_then r (\<lambda>now. Ok (saturate_i64 (now + uint timeout))), tr))"

definition remaining_millis :: "environment \<Rightarrow> int \<Rightarrow> trace \<Rightarrow> u32 result \<times> trace" where
  "remaining_millis env deadline tr =
     (case monotonic_millis env tr of (r, tr) \<Rightarrow>
        (and_then r (\<lambda>now.
           if deadline \<le> now then Ok 0
           else Ok (word_of_int (min (i64_of (deadline - now)) (2 ^ 32 - 1)))), tr))"

subsection \<open>Bounded I/O\<close>

partial_function (option) poll_until ::
    "environment \<Rightarrow> int \<Rightarrow> dns_wait \<Rightarrow> int \<Rightarrow> trace \<Rightarrow> (bool result \<times> trace) option" where
  [code]: "poll_until env fd event deadline tr =
     (case remaining_millis env deadline tr of
        (Panic, tr) \<Rightarrow> Some (Panic, tr)
      | (Err error, tr) \<Rightarrow> Some (Err error, tr)
      | (Ok remaining, tr) \<Rightarrow>
          if remaining = 0 then Some (Ok False, tr)
          else (case t_wait env fd event remaining tr of
                  Complete ready \<Rightarrow> Some (Ok ready, tr @ [WaitCall fd event remaining])
                | MaskedCancellation \<Rightarrow> poll_until env fd event deadline (tr @ [WaitCall fd event remaining])
                | Failed error \<Rightarrow>
                    if error = EINTR then poll_until env fd event deadline (tr @ [WaitCall fd event remaining])
                    else Some (Err error, tr @ [WaitCall fd event remaining])))"

partial_function (option) send_all ::
    "environment \<Rightarrow> int \<Rightarrow> bytes \<Rightarrow> int \<Rightarrow> nat \<Rightarrow> trace \<Rightarrow> (unit result \<times> trace) option" where
  [code]: "send_all env fd bytes deadline offset tr =
     (if offset < length bytes then
        (case remaining_millis env deadline tr of
           (Panic, tr) \<Rightarrow> Some (Panic, tr)
         | (Err error, tr) \<Rightarrow> Some (Err error, tr)
         | (Ok remaining, tr) \<Rightarrow>
             if remaining = 0 then Some (Err ETIMEDOUT, tr)
             else
               let r = t_send env fd (drop offset bytes) Stream tr;
                   tr = tr @ [SendCall fd (drop offset bytes) Stream r]
               in (case r of
                     Complete n \<Rightarrow>
                       if n = 0 then Some (Err EPIPE, tr)
                       else if n \<le> length bytes - offset then send_all env fd bytes deadline (offset + n) tr
                       else Some (Err EOVERFLOW, tr)
                   | Failed error \<Rightarrow>
                       if error = EINTR then send_all env fd bytes deadline offset tr
                       else if error = EAGAIN then
                         (case poll_until env fd Writable deadline tr of
                            None \<Rightarrow> None
                          | Some (Panic, tr) \<Rightarrow> Some (Panic, tr)
                          | Some (Err error, tr) \<Rightarrow> Some (Err error, tr)
                          | Some (Ok ready, tr) \<Rightarrow>
                              if \<not> ready then Some (Err ETIMEDOUT, tr)
                              else send_all env fd bytes deadline offset tr)
                       else Some (Err error, tr)
                   | MaskedCancellation \<Rightarrow> Some (Err ECANCELED, tr)))
      else Some (Ok (), tr))"

partial_function (option) send_datagram ::
    "environment \<Rightarrow> int \<Rightarrow> bytes \<Rightarrow> int \<Rightarrow> trace \<Rightarrow> (unit result \<times> trace) option" where
  [code]: "send_datagram env fd bytes deadline tr =
     (case remaining_millis env deadline tr of
        (Panic, tr) \<Rightarrow> Some (Panic, tr)
      | (Err error, tr) \<Rightarrow> Some (Err error, tr)
      | (Ok remaining, tr) \<Rightarrow>
          if remaining = 0 then Some (Err ETIMEDOUT, tr)
          else
            let r = t_send env fd bytes Datagram tr;
                tr = tr @ [SendCall fd bytes Datagram r]
            in (case r of
                  Complete n \<Rightarrow> if n = length bytes then Some (Ok (), tr) else Some (Err EMSGSIZE, tr)
                | MaskedCancellation \<Rightarrow> Some (Ok (), tr)
                | Failed error \<Rightarrow>
                    if error = EINTR then send_datagram env fd bytes deadline tr
                    else if error = EAGAIN then
                      (case poll_until env fd Writable deadline tr of
                         None \<Rightarrow> None
                       | Some (Panic, tr) \<Rightarrow> Some (Panic, tr)
                       | Some (Err error, tr) \<Rightarrow> Some (Err error, tr)
                       | Some (Ok ready, tr) \<Rightarrow>
                           if \<not> ready then Some (Err ETIMEDOUT, tr)
                           else send_datagram env fd bytes deadline tr)
                    else Some (Err error, tr)))"

text \<open>A receive leaves the caller's buffer changed whatever it returns, so the buffer is a result.\<close>

partial_function (option) receive_exact ::
    "environment \<Rightarrow> int \<Rightarrow> bytes \<Rightarrow> int \<Rightarrow> nat \<Rightarrow> trace \<Rightarrow> (unit result \<times> bytes \<times> trace) option" where
  [code]: "receive_exact env fd bytes deadline offset tr =
     (if offset < length bytes then
        (case poll_until env fd Readable deadline tr of
           None \<Rightarrow> None
         | Some (Panic, tr) \<Rightarrow> Some (Panic, bytes, tr)
         | Some (Err error, tr) \<Rightarrow> Some (Err error, bytes, tr)
         | Some (Ok ready, tr) \<Rightarrow>
             if \<not> ready then Some (Err ETIMEDOUT, bytes, tr)
             else
               let remaining = length bytes - offset;
                   (r, data) = t_receive_stream env fd remaining tr;
                   bytes = take offset bytes @ fill data (drop offset bytes);
                   tr = tr @ [ReceiveCall fd Stream]
               in (case r of
                     Complete n \<Rightarrow>
                       if n = 0 then Some (Err ECONNRESET, bytes, tr)
                       else if n \<le> remaining then receive_exact env fd bytes deadline (offset + n) tr
                       else Some (Err EOVERFLOW, bytes, tr)
                   | Failed error \<Rightarrow>
                       if error = EINTR \<or> error = EAGAIN then receive_exact env fd bytes deadline offset tr
                       else Some (Err error, bytes, tr)
                   | MaskedCancellation \<Rightarrow> Some (Err ECANCELED, bytes, tr)))
      else Some (Ok (), bytes, tr))"

definition receive_datagram :: "environment \<Rightarrow> int \<Rightarrow> bytes \<Rightarrow> trace \<Rightarrow> nat result \<times> bytes \<times> trace" where
  "receive_datagram env fd bytes tr =
     (let (r, data) = t_receive_datagram env fd (length bytes) tr;
          bytes = fill data bytes;
          tr = tr @ [ReceiveCall fd Datagram]
      in (case r of
            Complete packet \<Rightarrow>
              (if dg_length packet \<le> length bytes \<and> \<not> dg_truncated packet then Ok (dg_length packet)
               else Err EOVERFLOW, bytes, tr)
          | MaskedCancellation \<Rightarrow> (Err EAGAIN, bytes, tr)
          | Failed error \<Rightarrow> (Err error, bytes, tr)))"

subsection \<open>Exchanges\<close>

text \<open>What the UDP loop does with a received packet: \<open>Ok None\<close> ignores it.\<close>

definition classify_datagram :: "bytes \<Rightarrow> bytes \<Rightarrow> u16 \<Rightarrow> record_framing \<Rightarrow> udp_response option result" where
  "classify_datagram packet query query_id framing =
     and_then (matching_question_end packet query query_id) (\<lambda>question.
       case question of
         None \<Rightarrow> Ok None
       | Some question_end \<Rightarrow>
           and_then (get_byte packet 2) (\<lambda>flags.
             if flags AND 0x02 \<noteq> 0 then Ok (Some Truncated)
             else if framing = CompleteRecords then
               and_then (has_complete_records packet question_end) (\<lambda>complete.
                 Ok (if complete then Some (UdpComplete (length packet)) else None))
             else Ok (Some (UdpComplete (length packet)))))"

partial_function (option) udp_exchange ::
    "environment \<Rightarrow> int \<Rightarrow> bytes \<Rightarrow> u16 \<Rightarrow> bytes \<Rightarrow> int \<Rightarrow> record_framing \<Rightarrow> trace \<Rightarrow>
     (udp_response result \<times> bytes \<times> trace) option" where
  [code]: "udp_exchange env fd query query_id answer deadline framing tr =
     (case poll_until env fd Readable deadline tr of
        None \<Rightarrow> None
      | Some (Panic, tr) \<Rightarrow> Some (Panic, answer, tr)
      | Some (Err error, tr) \<Rightarrow> Some (Err error, answer, tr)
      | Some (Ok ready, tr) \<Rightarrow>
          if \<not> ready then Some (Err ETIMEDOUT, answer, tr)
          else
            (case receive_datagram env fd answer tr of
               (Panic, answer, tr) \<Rightarrow> Some (Panic, answer, tr)
             | (Err error, answer, tr) \<Rightarrow>
                 if error = EOVERFLOW \<or> error = EINTR \<or> error = EAGAIN
                 then udp_exchange env fd query query_id answer deadline framing tr
                 else Some (Err error, answer, tr)
             | (Ok n, answer, tr) \<Rightarrow>
                 (case classify_datagram (take n answer) query query_id framing of
                    Panic \<Rightarrow> Some (Panic, answer, tr)
                  | Err error \<Rightarrow> Some (Err error, answer, tr)
                  | Ok None \<Rightarrow> udp_exchange env fd query query_id answer deadline framing tr
                  | Ok (Some response) \<Rightarrow> Some (Ok response, answer, tr))))"

text \<open>The part of \<open>tcp_exchange\<close> that runs on the connected stream, up to its result.\<close>

definition tcp_queued :: "environment \<Rightarrow> int \<Rightarrow> dns_tcp_start \<Rightarrow> bytes \<Rightarrow> int \<Rightarrow> trace \<Rightarrow> (nat result \<times> trace) option" where
  "tcp_queued env fd started query deadline tr =
     (let frame_size = length query + 2 in
      case started of
        Connected \<Rightarrow> Some (Ok 0, tr)
      | Queued frame_bytes \<Rightarrow>
          if frame_size < frame_bytes then Some (Err EOVERFLOW, tr)
          else if frame_bytes < frame_size then
            (case poll_until env fd Writable deadline tr of
               None \<Rightarrow> None
             | Some (r, tr) \<Rightarrow> Some (and_then r (\<lambda>ready. if \<not> ready then Err ETIMEDOUT else Ok frame_bytes), tr))
          else Some (Ok frame_bytes, tr))"

definition tcp_send_frame :: "environment \<Rightarrow> int \<Rightarrow> nat \<Rightarrow> bytes \<Rightarrow> int \<Rightarrow> trace \<Rightarrow> (unit result \<times> trace) option" where
  "tcp_send_frame env fd queued query deadline tr =
     (let frame_length = [word_of_nat (length query div 256), word_of_nat (length query)] :: bytes in
      case (if queued < 2 then send_all env fd (drop queued frame_length) deadline 0 tr else Some (Ok (), tr)) of
        None \<Rightarrow> None
      | Some (Panic, tr) \<Rightarrow> Some (Panic, tr)
      | Some (Err error, tr) \<Rightarrow> Some (Err error, tr)
      | Some (Ok _, tr) \<Rightarrow> send_all env fd (drop (queued - 2) query) deadline 0 tr)"

definition check_response :: "bytes \<Rightarrow> bytes \<Rightarrow> u16 \<Rightarrow> record_framing \<Rightarrow> nat result" where
  "check_response response query query_id framing =
     and_then (matching_question_end response query query_id) (\<lambda>question.
       case question of
         None \<Rightarrow> Err malformed
       | Some question_end \<Rightarrow>
           and_then (get_byte response 2) (\<lambda>flags.
             if flags AND 0x02 \<noteq> 0 then Err malformed
             else if framing = CompleteRecords then
               and_then (has_complete_records response question_end) (\<lambda>complete.
                 if complete then Ok (length response) else Err malformed)
             else Ok (length response)))"

definition tcp_receive ::
    "environment \<Rightarrow> int \<Rightarrow> bytes \<Rightarrow> u16 \<Rightarrow> bytes \<Rightarrow> int \<Rightarrow> record_framing \<Rightarrow> trace \<Rightarrow> (nat result \<times> bytes \<times> trace) option" where
  "tcp_receive env fd query query_id answer deadline framing tr =
     (case receive_exact env fd [0, 0] deadline 0 tr of
        None \<Rightarrow> None
      | Some (Panic, _, tr) \<Rightarrow> Some (Panic, answer, tr)
      | Some (Err error, _, tr) \<Rightarrow> Some (Err error, answer, tr)
      | Some (Ok _, length_bytes, tr) \<Rightarrow>
          let response_length = unat (u16_from_be_bytes (length_bytes ! 0) (length_bytes ! 1)) in
          if response_length < 12 \<or> length answer < response_length then Some (Err EMSGSIZE, answer, tr)
          else
            (case receive_exact env fd (take response_length answer) deadline 0 tr of
               None \<Rightarrow> None
             | Some (r, response, tr) \<Rightarrow>
                 Some (and_then r (\<lambda>_. check_response response query query_id framing),
                       response @ drop response_length answer, tr)))"

definition tcp_body ::
    "environment \<Rightarrow> int \<Rightarrow> dns_tcp_start \<Rightarrow> bytes \<Rightarrow> u16 \<Rightarrow> bytes \<Rightarrow> int \<Rightarrow> record_framing \<Rightarrow> trace \<Rightarrow>
     (nat result \<times> bytes \<times> trace) option" where
  "tcp_body env fd started query query_id answer deadline framing tr =
     (case tcp_queued env fd started query deadline tr of
        None \<Rightarrow> None
      | Some (Panic, tr) \<Rightarrow> Some (Panic, answer, tr)
      | Some (Err error, tr) \<Rightarrow> Some (Err error, answer, tr)
      | Some (Ok queued, tr) \<Rightarrow>
          (case tcp_send_frame env fd queued query deadline tr of
             None \<Rightarrow> None
           | Some (Panic, tr) \<Rightarrow> Some (Panic, answer, tr)
           | Some (Err error, tr) \<Rightarrow> Some (Err error, answer, tr)
           | Some (Ok _, tr) \<Rightarrow> tcp_receive env fd query query_id answer deadline framing tr))"

definition wait_failed_start ::
    "environment \<Rightarrow> dns_tcp_failure \<Rightarrow> int \<Rightarrow> errno \<Rightarrow> bytes \<Rightarrow> trace \<Rightarrow> (nat result \<times> bytes \<times> trace) option" where
  "wait_failed_start env failure deadline error answer tr =
     (if failure = WaitUntilDeadline then
        map_option (\<lambda>(_, tr). (Err error, answer, tr)) (poll_until env (- 1) Readable deadline tr)
      else Some (Err error, answer, tr))"

definition tcp_exchange ::
    "environment \<Rightarrow> tcp_starter \<Rightarrow> dns_socket_address \<Rightarrow> bytes \<Rightarrow> u16 \<Rightarrow> bytes \<Rightarrow> int \<Rightarrow> record_framing \<Rightarrow> trace \<Rightarrow>
     (nat result \<times> bytes \<times> trace) option" where
  "tcp_exchange env start_tcp target query query_id answer deadline framing tr =
     (if 65535 < length query \<or> length answer < 12 then Some (Err EMSGSIZE, answer, tr)
      else
        let failure = t_stream_starting env tr;
            tr = tr @ [StreamStarting];
            opened = net_socket env (sa_family target) (SOCK_STREAM OR SOCK_CLOEXEC OR SOCK_NONBLOCK) tr;
            tr = tr @ [SocketCall opened]
        in (case opened of
              Inl error \<Rightarrow> wait_failed_start env failure deadline error answer (tr @ [SyscallFailed error])
            | Inr fd \<Rightarrow>
                (case start_tcp fd target query deadline (tr @ [SocketOpened fd Stream]) of
                   None \<Rightarrow> None
                 | Some (Panic, tr) \<Rightarrow> Some (Panic, answer, tr)
                 | Some (Err error, tr) \<Rightarrow> wait_failed_start env failure deadline error answer (tr @ [SocketClosed fd])
                 | Some (Ok started, tr) \<Rightarrow>
                     map_option (\<lambda>(r, answer, tr). (r, answer, tr @ [SocketClosed fd]))
                       (tcp_body env fd started query query_id answer deadline framing tr))))"

text \<open>
  One nameserver of the inner loop of \<open>exchange_impl\<close>: \<open>None\<close> as the first result is
  \<open>continue\<close>, \<open>Some r\<close> returns \<open>r\<close> from the whole exchange.
\<close>

type_synonym verdict = "(nat, exchange_error) outcome option"

definition finish_udp ::
    "environment \<Rightarrow> tcp_starter \<Rightarrow> dns_socket_address \<Rightarrow> bytes \<Rightarrow> u16 \<Rightarrow> bytes \<Rightarrow> int \<Rightarrow> record_framing \<Rightarrow>
     udp_response result \<Rightarrow> trace \<Rightarrow> (verdict \<times> bytes \<times> trace) option" where
  "finish_udp env start_tcp target query query_id answer deadline framing r tr =
     (case r of
        Panic \<Rightarrow> Some (Some Panic, answer, tr)
      | Err _ \<Rightarrow> Some (None, answer, tr)
      | Ok (UdpComplete n) \<Rightarrow> Some (Some (Ok n), answer, tr)
      | Ok Truncated \<Rightarrow>
          map_option (\<lambda>(r, answer, tr).
              (case r of Ok n \<Rightarrow> Some (Ok n) | Err _ \<Rightarrow> None | Panic \<Rightarrow> Some Panic, answer, tr))
            (tcp_exchange env start_tcp target query query_id answer deadline framing tr))"

definition udp_attempt ::
    "environment \<Rightarrow> tcp_starter \<Rightarrow> dns_socket_address \<Rightarrow> bytes \<Rightarrow> u16 \<Rightarrow> int \<Rightarrow> int \<Rightarrow> record_framing \<Rightarrow> bytes \<Rightarrow> trace \<Rightarrow>
     (verdict \<times> bytes \<times> trace) option" where
  "udp_attempt env start_tcp target query query_id deadline fd framing answer tr =
     (case net_connect env fd target tr of
        Inl error \<Rightarrow> Some (None, answer, tr @ [ConnectCall fd, SyscallFailed error, SocketClosed fd])
      | Inr _ \<Rightarrow>
          (case send_datagram env fd query deadline (tr @ [ConnectCall fd]) of
             None \<Rightarrow> None
           | Some (Panic, tr) \<Rightarrow> Some (Some Panic, answer, tr)
           | Some (Err _, tr) \<Rightarrow> Some (None, answer, tr @ [SocketClosed fd])
           | Some (Ok _, tr) \<Rightarrow>
               (case udp_exchange env fd query query_id answer deadline framing tr of
                  None \<Rightarrow> None
                | Some (r, answer, tr) \<Rightarrow>
                    finish_udp env start_tcp target query query_id answer deadline framing r (tr @ [SocketClosed fd]))))"

definition try_server ::
    "environment \<Rightarrow> tcp_starter \<Rightarrow> u32 \<Rightarrow> name_server \<Rightarrow> bytes \<Rightarrow> u16 \<Rightarrow> bool \<Rightarrow> record_framing \<Rightarrow> bytes \<Rightarrow> trace \<Rightarrow>
     (verdict \<times> bytes \<times> trace) option" where
  "try_server env start_tcp timeout server query query_id preserve_setup_error framing answer tr =
     (case server_address server of
        Panic \<Rightarrow> Some (Some Panic, answer, tr)
      | Err _ \<Rightarrow> Some (None, answer, tr)
      | Ok target \<Rightarrow>
          (case deadline_after env timeout tr of
             (Panic, tr) \<Rightarrow> Some (Some Panic, answer, tr)
           | (Err _, tr) \<Rightarrow> Some (None, answer, tr)
           | (Ok deadline, tr) \<Rightarrow>
               let opened = net_socket env (ucast (ns_family server)) (SOCK_DGRAM OR SOCK_CLOEXEC OR SOCK_NONBLOCK) tr;
                   tr = tr @ [SocketCall opened]
               in (case opened of
                     Inl error \<Rightarrow>
                       Some (if preserve_setup_error then Some (Err (Setup error)) else None, answer, tr @ [SyscallFailed error])
                   | Inr fd \<Rightarrow>
                       udp_attempt env start_tcp target query query_id deadline fd framing answer
                         (tr @ [SocketOpened fd Datagram]))))"

text \<open>The loop over the servers from \<open>index\<close>, and the loop over the remaining attempts.\<close>

function server_loop ::
    "environment \<Rightarrow> tcp_starter \<Rightarrow> exchange_config \<Rightarrow> bytes \<Rightarrow> u16 \<Rightarrow> bool \<Rightarrow> record_framing \<Rightarrow> nat \<Rightarrow> bytes \<Rightarrow> trace \<Rightarrow>
     (verdict \<times> bytes \<times> trace) option" where
  "server_loop env start_tcp config query query_id preserve framing index answer tr =
     (if index < nameserver_count config then
        if length (nameservers config) \<le> index then Some (Some Panic, answer, tr)
        else
          (case try_server env start_tcp (timeout_ms config) (nameservers config ! index) query query_id preserve framing answer tr of
             None \<Rightarrow> None
           | Some (Some r, answer, tr) \<Rightarrow> Some (Some r, answer, tr)
           | Some (None, answer, tr) \<Rightarrow>
               server_loop env start_tcp config query query_id preserve framing (index + 1) answer tr)
      else Some (None, answer, tr))"
  by pat_completeness auto
termination
  by (relation "measure (\<lambda>(env, start_tcp, config, query, query_id, preserve, framing, index, answer, tr).
        nameserver_count config - index)") auto

declare server_loop.simps [simp del]

lemma saturating_attempt:
  assumes "attempt < (limit :: u8)"
  shows "unat (if attempt = 255 then 255 else attempt + 1) = unat attempt + 1" "unat attempt < 255"
proof -
  from assms have "unat attempt < unat limit" by (simp add: word_less_nat_alt)
  moreover have "unat limit < 256" using unsigned_less [of limit, where ?'a = nat] by simp
  ultimately show less: "unat attempt < 255" by linarith
  then have "attempt \<noteq> 255" by auto
  with less show "unat (if attempt = 255 then 255 else attempt + 1) = unat attempt + 1"
    by (simp add: unat_word_ariths(1))
qed

function attempt_loop ::
    "environment \<Rightarrow> tcp_starter \<Rightarrow> exchange_config \<Rightarrow> bytes \<Rightarrow> u16 \<Rightarrow> bool \<Rightarrow> record_framing \<Rightarrow> u8 \<Rightarrow> bytes \<Rightarrow> trace \<Rightarrow>
     ((nat, exchange_error) outcome \<times> bytes \<times> trace) option" where
  "attempt_loop env start_tcp config query query_id preserve framing attempt answer tr =
     (if attempt < attempts config then
        (case server_loop env start_tcp config query query_id preserve framing 0 answer tr of
           None \<Rightarrow> None
         | Some (Some r, answer, tr) \<Rightarrow> Some (r, answer, tr)
         | Some (None, answer, tr) \<Rightarrow>
             attempt_loop env start_tcp config query query_id preserve framing
               (if attempt = 255 then 255 else attempt + 1) answer tr)
      else Some (Err (Transport ETIMEDOUT), answer, tr))"
  by pat_completeness auto
termination
proof (relation "measure (\<lambda>(env, start_tcp, config, query, query_id, preserve, framing, attempt, answer, tr).
        256 - unat attempt)", goal_cases)
  case (2 env start_tcp config query query_id preserve framing attempt answer tr)
  then show ?case using saturating_attempt [OF 2(1)] by simp
qed simp

declare attempt_loop.simps [simp del]

definition exchange_impl ::
    "environment \<Rightarrow> tcp_starter \<Rightarrow> exchange_config \<Rightarrow> bytes \<Rightarrow> u16 \<Rightarrow> bytes \<Rightarrow> bool \<Rightarrow> record_framing \<Rightarrow> trace \<Rightarrow>
     ((nat, exchange_error) outcome \<times> bytes \<times> trace) option" where
  "exchange_impl env start_tcp config query query_id answer preserve framing tr =
     (if nameserver_count config = 0 \<or> MAX_NAMESERVERS < nameserver_count config \<or> timeout_ms config = 0 \<or>
         attempts config = 0 \<or> length query < 12 \<or> length answer < 12
      then Some (Err (Transport invalid), answer, tr)
      else
        (case and_then (u16_at query 0) (\<lambda>ident. if ident \<noteq> query_id then Err invalid else one_question_end query) of
           Panic \<Rightarrow> Some (Panic, answer, tr)
         | Err _ \<Rightarrow> Some (Err (Transport invalid), answer, tr)
         | Ok _ \<Rightarrow> attempt_loop env start_tcp config query query_id preserve framing 0 answer tr))"

subsection \<open>The native transport\<close>

text \<open>The system calls \<open>RawDnsTransport\<close> makes: \<open>ppoll\<close> answers a count and \<open>revents\<close>,
  \<open>recvmsg\<close> a length and message flags.\<close>

record raw_kernel =
  rk_clock_gettime :: "trace \<Rightarrow> errno + int \<times> int"
  rk_socket :: "u32 \<Rightarrow> u32 \<Rightarrow> trace \<Rightarrow> errno + int"
  rk_connect :: "int \<Rightarrow> bytes \<Rightarrow> trace \<Rightarrow> errno + unit"
  rk_ppoll :: "int \<Rightarrow> u16 \<Rightarrow> int \<times> int \<Rightarrow> trace \<Rightarrow> errno + nat \<times> u16"
  rk_sendto :: "int \<Rightarrow> bytes \<Rightarrow> trace \<Rightarrow> errno + nat"
  rk_recvfrom :: "int \<Rightarrow> nat \<Rightarrow> trace \<Rightarrow> (errno + nat) \<times> bytes"
  rk_recvmsg :: "int \<Rightarrow> nat \<Rightarrow> trace \<Rightarrow> (errno + nat \<times> u32) \<times> bytes"
  rk_socket_error :: "int \<Rightarrow> trace \<Rightarrow> errno + int"

definition from_result :: "errno + 'a \<Rightarrow> 'a dns_io_result" where
  "from_result r = (case r of Inr v \<Rightarrow> Complete v | Inl error \<Rightarrow> Failed error)"

definition raw_wait :: "raw_kernel \<Rightarrow> int \<Rightarrow> dns_wait \<Rightarrow> u32 \<Rightarrow> trace \<Rightarrow> bool dns_io_result" where
  "raw_wait k fd event remaining tr =
     (let events = (case event of Readable \<Rightarrow> POLLIN | Writable \<Rightarrow> POLLOUT);
          timeout = (uint (remaining div 1000), uint (remaining mod 1000) * 1000000)
      in from_result (map_sum id (\<lambda>(count, revents).
           count \<noteq> 0 \<and> revents AND (events OR POLLERR OR POLLHUP OR POLLNVAL) \<noteq> 0) (rk_ppoll k fd events timeout tr)))"

definition raw_receive_datagram :: "raw_kernel \<Rightarrow> int \<Rightarrow> nat \<Rightarrow> trace \<Rightarrow> dns_datagram dns_io_result \<times> bytes" where
  "raw_receive_datagram k fd len tr =
     (case rk_recvmsg k fd len tr of (r, data) \<Rightarrow>
        (from_result (map_sum id (\<lambda>(n, flags). \<lparr>dg_length = n, dg_truncated = flags AND MSG_TRUNC \<noteq> 0\<rparr>) r), data))"

definition raw_transport :: "raw_kernel \<Rightarrow> environment" where
  "raw_transport k =
     \<lparr>clock_gettime = rk_clock_gettime k,
      net_socket = rk_socket k,
      net_connect = (\<lambda>fd target. rk_connect k fd (as_bytes target)),
      t_stream_starting = (\<lambda>tr. Immediate),
      t_wait = raw_wait k,
      t_send = (\<lambda>fd bytes kind tr. from_result (rk_sendto k fd bytes tr)),
      t_receive_stream = (\<lambda>fd len tr. case rk_recvfrom k fd len tr of (r, data) \<Rightarrow> (from_result r, data)),
      t_receive_datagram = raw_receive_datagram k\<rparr>"

text \<open>\<open>Errno::from_raw\<close> on the values the engine distinguishes.\<close>

definition from_raw :: "int \<Rightarrow> errno option" where
  "from_raw raw =
     (if 0 < raw \<and> raw \<le> 4095 then
        Some (case map_of [(4, EINTR), (5, EIO), (11, EAGAIN), (22, EINVAL), (32, EPIPE), (36, ENAMETOOLONG),
                (74, EBADMSG), (75, EOVERFLOW), (90, EMSGSIZE), (104, ECONNRESET), (110, ETIMEDOUT),
                (114, EALREADY), (115, EINPROGRESS), (125, ECANCELED)] raw of
                Some e \<Rightarrow> e | None \<Rightarrow> OtherErrno (nat raw))
      else None)"

definition raw_start_tcp :: "raw_kernel \<Rightarrow> tcp_starter" where
  "raw_start_tcp k fd target query deadline tr =
     (case rk_connect k fd (as_bytes target) tr of
        Inr _ \<Rightarrow> Some (Ok Connected, tr @ [ConnectCall fd])
      | Inl error \<Rightarrow>
          if error = EINPROGRESS \<or> error = EALREADY then
            (case poll_until (raw_transport k) fd Writable deadline (tr @ [ConnectCall fd]) of
               None \<Rightarrow> None
             | Some (Panic, tr) \<Rightarrow> Some (Panic, tr)
             | Some (Err error, tr) \<Rightarrow> Some (Err error, tr)
             | Some (Ok ready, tr) \<Rightarrow>
                 if \<not> ready then Some (Err ETIMEDOUT, tr)
                 else (case rk_socket_error k fd tr of
                         Inl error \<Rightarrow> Some (Err error, tr @ [SocketErrorRead fd])
                       | Inr pending \<Rightarrow>
                           Some (if pending \<noteq> 0 then Err (case from_raw pending of Some e \<Rightarrow> e | None \<Rightarrow> EIO) else Ok Connected,
                                 tr @ [SocketErrorRead fd])))
          else Some (Err error, tr @ [ConnectCall fd]))"

subsection \<open>Entry points\<close>

definition exchange ::
    "raw_kernel \<Rightarrow> exchange_config \<Rightarrow> bytes \<Rightarrow> u16 \<Rightarrow> bytes \<Rightarrow> trace \<Rightarrow> (nat result \<times> bytes \<times> trace) option" where
  "exchange k config query query_id answer tr =
     map_option (\<lambda>(r, answer, tr).
         (case r of Ok n \<Rightarrow> Ok n | Panic \<Rightarrow> Panic | Err (Setup errno) \<Rightarrow> Err errno | Err (Transport errno) \<Rightarrow> Err errno, answer, tr))
       (exchange_impl (raw_transport k) (raw_start_tcp k) config query query_id answer False CompleteRecords tr)"

definition exchange_with_setup_error ::
    "raw_kernel \<Rightarrow> exchange_config \<Rightarrow> bytes \<Rightarrow> u16 \<Rightarrow> bytes \<Rightarrow> trace \<Rightarrow>
     ((nat, exchange_error) outcome \<times> bytes \<times> trace) option" where
  "exchange_with_setup_error k config query query_id answer tr =
     exchange_impl (raw_transport k) (raw_start_tcp k) config query query_id answer True CompleteRecords tr"

definition exchange_with_transport ::
    "environment \<Rightarrow> tcp_starter \<Rightarrow> exchange_config \<Rightarrow> bytes \<Rightarrow> u16 \<Rightarrow> bytes \<Rightarrow> trace \<Rightarrow>
     ((nat, exchange_error) outcome \<times> bytes \<times> trace) option" where
  "exchange_with_transport env start_tcp config query query_id answer tr =
     exchange_impl env start_tcp config query query_id answer True CompleteRecords tr"

definition exchange_with_transport_question_matched ::
    "environment \<Rightarrow> tcp_starter \<Rightarrow> exchange_config \<Rightarrow> bytes \<Rightarrow> u16 \<Rightarrow> bytes \<Rightarrow> trace \<Rightarrow>
     ((nat, exchange_error) outcome \<times> bytes \<times> trace) option" where
  "exchange_with_transport_question_matched env start_tcp config query query_id answer tr =
     exchange_impl env start_tcp config query query_id answer True QuestionMatched tr"

end
