(* ===== verification/DnsTrace.thy ===== *)
theory DnsTrace
  imports DnsExchange DnsProps
begin

text \<open>
  The operations of the DNS exchange over traces: the descriptor discipline as an automaton,
  what each bounded I/O operation adds to a trace, which replies are accepted, and that every
  operation returns once its deadline has passed.
\<close>

subsection \<open>The descriptor discipline\<close>

text \<open>
  The contract the \<open>DnsTransport\<close> trait documents, as an automaton over events: calls are
  serial, a descriptor is reported right after it is acquired, is used only while it is live and
  is closed before the next one is acquired. A datagram sent carries the whole query.
\<close>

datatype phase = Idle | Acquired int | Live int

fun advance :: "bytes \<Rightarrow> phase \<Rightarrow> event \<Rightarrow> phase option" where
  "advance query ph ClockRead = (case ph of Acquired _ \<Rightarrow> None | _ \<Rightarrow> Some ph)"
| "advance query ph (SyscallFailed _) = (case ph of Acquired _ \<Rightarrow> None | _ \<Rightarrow> Some ph)"
| "advance query ph (SocketCall r) =
     (if ph = Idle then Some (case r of Inl _ \<Rightarrow> Idle | Inr fd \<Rightarrow> Acquired fd) else None)"
| "advance query ph (SocketOpened fd _) = (if ph = Acquired fd then Some (Live fd) else None)"
| "advance query ph (SocketClosed fd) = (if ph = Live fd then Some Idle else None)"
| "advance query ph (ConnectCall fd) = (if ph = Live fd then Some ph else None)"
| "advance query ph StreamStarting = (if ph = Idle then Some ph else None)"
| "advance query ph (WaitCall fd _ _) = (if ph = Live fd \<or> (ph = Idle \<and> fd = - 1) then Some ph else None)"
| "advance query ph (SendCall fd bytes kind _) =
     (if ph = Live fd \<and> (kind = Datagram \<longrightarrow> bytes = query) then Some ph else None)"
| "advance query ph (ReceiveCall fd _) = (if ph = Live fd then Some ph else None)"
| "advance query ph (SocketErrorRead fd) = (if ph = Live fd then Some ph else None)"

fun run_events :: "bytes \<Rightarrow> phase \<Rightarrow> trace \<Rightarrow> phase option" where
  "run_events query ph [] = Some ph"
| "run_events query ph (ev # evs) = Option.bind (advance query ph ev) (\<lambda>ph. run_events query ph evs)"

definition moves :: "bytes \<Rightarrow> phase \<Rightarrow> phase \<Rightarrow> trace \<Rightarrow> trace \<Rightarrow> bool" where
  "moves query ph ph' tr tr' \<longleftrightarrow> (\<exists>new. tr' = tr @ new \<and> run_events query ph new = Some ph')"

lemma run_events_append [simp]:
  "run_events query ph (xs @ ys) = Option.bind (run_events query ph xs) (\<lambda>ph. run_events query ph ys)"
  by (induction xs arbitrary: ph) auto

lemma moves_refl [simp, intro]: "moves query ph ph tr tr"
  by (simp add: moves_def)

lemma moves_trans: "moves query ph ph1 tr tr1 \<Longrightarrow> moves query ph1 ph2 tr1 tr2 \<Longrightarrow> moves query ph ph2 tr tr2"
  by (fastforce simp: moves_def)

lemma moves_snoc: "moves query ph ph1 tr tr1 \<Longrightarrow> run_events query ph1 evs = Some ph2 \<Longrightarrow> moves query ph ph2 tr (tr1 @ evs)"
  by (fastforce simp: moves_def)

lemma moves_first: "run_events query ph evs = Some ph1 \<Longrightarrow> moves query ph1 ph2 (tr @ evs) tr2 \<Longrightarrow> moves query ph ph2 tr tr2"
  by (fastforce simp: moves_def)

lemma moves_length: "moves query ph ph' tr tr' \<Longrightarrow> length tr \<le> length tr'"
  by (auto simp: moves_def)

text \<open>The bytes a stream has accepted.\<close>

fun accepted :: "event \<Rightarrow> bytes" where
  "accepted (SendCall fd bytes Stream (Complete n)) = take n bytes"
| "accepted _ = []"

definition sent :: "trace \<Rightarrow> bytes" where
  "sent tr = concat (map accepted tr)"

lemma sent_simps [simp]: "sent (xs @ ys) = sent xs @ sent ys" "sent [] = []" "sent (e # evs) = accepted e @ sent evs"
  by (simp_all add: sent_def)

text \<open>Where an operation on \<open>fd\<close> may run.\<close>

definition usable :: "phase \<Rightarrow> int \<Rightarrow> bool" where
  "usable ph fd \<longleftrightarrow> ph = Live fd \<or> (ph = Idle \<and> fd = - 1)"

lemma usable_Live [simp]: "usable (Live fd) fd" "usable Idle (- 1)"
  by (simp_all add: usable_def)

lemma usable_clock: "usable ph fd \<Longrightarrow> advance query ph ClockRead = Some ph" "usable ph fd \<Longrightarrow> advance query ph (SyscallFailed e) = Some ph"
  "usable ph fd \<Longrightarrow> advance query ph (WaitCall fd ev n) = Some ph"
  by (auto simp: usable_def)

lemma monotonic_millis_moves:
  assumes "advance query ph ClockRead = Some ph" "monotonic_millis env tr = (r, tr')"
  shows "moves query ph ph tr tr'" "r \<noteq> Panic" "length tr < length tr'" "sent tr' = sent tr"
proof -
  have "advance query ph (SyscallFailed e) = Some ph" for e using assms(1) by simp
  then show "moves query ph ph tr tr'" "r \<noteq> Panic" "length tr < length tr'" "sent tr' = sent tr"
    using assms by (auto simp: monotonic_millis_def moves_def split: sum.splits prod.splits)
qed

lemma remaining_millis_moves:
  assumes "advance query ph ClockRead = Some ph" "remaining_millis env deadline tr = (r, tr')"
  shows "moves query ph ph tr tr'" "r \<noteq> Panic" "length tr < length tr'" "sent tr' = sent tr"
  using assms monotonic_millis_moves [OF assms(1), of env tr]
  by (auto simp: remaining_millis_def and_then_Panic_conv split: prod.splits if_splits)

lemma deadline_after_moves:
  assumes "advance query ph ClockRead = Some ph" "deadline_after env timeout tr = (r, tr')"
  shows "moves query ph ph tr tr'" "r \<noteq> Panic"
  using assms monotonic_millis_moves [OF assms(1), of env tr]
  by (auto simp: deadline_after_def and_then_Panic_conv split: prod.splits)

lemmas poll_until_induct = poll_until.raw_induct [rotated, consumes 1, case_names step]

lemma poll_until_moves_all:
  "poll_until env fd event deadline tr = Some y \<Longrightarrow>
     \<forall>ph. usable ph fd \<longrightarrow> moves query ph ph tr (snd y) \<and> fst y \<noteq> Panic \<and> length tr < length (snd y) \<and> sent (snd y) = sent tr"
proof (induction env fd event deadline tr y rule: poll_until_induct)
  case (step rec env fd event deadline tr y)
  obtain q tr1 where rem: "remaining_millis env deadline tr = (q, tr1)" by fastforce
  show ?case
  proof (intro allI impI)
    fix ph assume u: "usable ph fd"
    note rm = remaining_millis_moves [OF usable_clock(1) [OF u] rem]
    have w: "moves query ph ph tr (tr1 @ [WaitCall fd event n])" for n
      by (rule moves_snoc [OF rm(1)]) (simp only: run_events.simps usable_clock(3) [OF u] bind.simps)
    have again: "moves query ph ph tr (snd y) \<and> fst y \<noteq> Panic \<and> length tr < length (snd y) \<and> sent (snd y) = sent tr"
      if "rec env fd event deadline (tr1 @ [WaitCall fd event n]) = Some y" for n
      using step(1) [OF that] u rm moves_trans [OF w [of n]] by fastforce
    from step(2) rm again w show "moves query ph ph tr (snd y) \<and> fst y \<noteq> Panic \<and> length tr < length (snd y) \<and> sent (snd y) = sent tr"
      unfolding rem prod.case by (auto split: outcome.splits if_splits dns_io_result.splits)
  qed
qed

lemma poll_until_moves:
  assumes "poll_until env fd event deadline tr = Some (r, tr')" "usable ph fd"
  shows "moves query ph ph tr tr'" "r \<noteq> Panic" "length tr < length tr'" "sent tr' = sent tr"
  using poll_until_moves_all [OF assms(1)] assms(2) by auto

lemmas send_all_induct = send_all.raw_induct [rotated, consumes 1, case_names step]

text \<open>What a finished run of a stream send means.\<close>

definition sent_all :: "bytes \<Rightarrow> int \<Rightarrow> bytes \<Rightarrow> trace \<Rightarrow> unit result \<times> trace \<Rightarrow> bool" where
  "sent_all query fd rest tr y \<longleftrightarrow>
     moves query (Live fd) (Live fd) tr (snd y) \<and> fst y \<noteq> Panic \<and> length tr \<le> length (snd y) \<and>
     (fst y = Ok () \<longrightarrow> sent (snd y) = sent tr @ rest)"

lemma sent_all_first:
  "moves query (Live fd) (Live fd) tr tr1 \<Longrightarrow> sent tr1 = sent tr @ part \<Longrightarrow> sent_all query fd rest tr1 y \<Longrightarrow>
     sent_all query fd (part @ rest) tr y"
  by (auto simp: sent_all_def dest: moves_trans moves_length)

lemma sent_all_first_same:
  "moves query (Live fd) (Live fd) tr tr1 \<Longrightarrow> sent tr1 = sent tr \<Longrightarrow> sent_all query fd rest tr1 y \<Longrightarrow>
     sent_all query fd rest tr y"
  using sent_all_first [of query fd tr tr1 "[]"] by simp

lemma sent_all_stop: "moves query (Live fd) (Live fd) tr tr1 \<Longrightarrow> sent_all query fd rest tr (Err e, tr1)"
  by (auto simp: sent_all_def dest: moves_length)

lemma send_all_sends:
  "send_all env fd bytes deadline offset tr = Some y \<Longrightarrow> sent_all query fd (drop offset bytes) tr y"
proof (induction env fd bytes deadline offset tr y rule: send_all_induct)
  case (step rec env fd bytes deadline offset tr y)
  show ?case
  proof (cases "offset < length bytes")
    case False
    with step(2) show ?thesis by (auto simp: sent_all_def)
  next
    case True
    obtain q tr1 where rem: "remaining_millis env deadline tr = (q, tr1)" by fastforce
    note rm = remaining_millis_moves [OF _ rem, of query "Live fd", simplified]
    define r where "r = t_send env fd (drop offset bytes) Stream tr1"
    define tr2 where "tr2 = tr1 @ [SendCall fd (drop offset bytes) Stream r]"
    have m2: "moves query (Live fd) (Live fd) tr tr2"
      unfolding tr2_def by (rule moves_snoc [OF rm(1)]) simp
    have acc: "sent tr2 = sent tr @ (case r of Complete n \<Rightarrow> take n (drop offset bytes) | _ \<Rightarrow> [])"
      using rm(4) by (cases r) (simp_all add: tr2_def)
    have grow: "sent_all query fd (drop offset bytes) tr y"
      if "rec env fd bytes deadline (offset + n) tr2 = Some y" "r = Complete n" for n
      using sent_all_first [OF m2 acc step(1) [OF that(1)]] that(2) by (simp add: add.commute flip: drop_drop)
    have same: "sent_all query fd (drop offset bytes) tr y"
      if "rec env fd bytes deadline offset tr3 = Some y" "moves query (Live fd) (Live fd) tr2 tr3" "sent tr3 = sent tr2" "r = Failed e" for tr3 e
      using sent_all_first_same [OF moves_trans [OF m2 that(2)] _ step(1) [OF that(1)]] that(3,4) acc by simp
    have wait: "moves query (Live fd) (Live fd) tr2 tr3 \<and> p \<noteq> Panic \<and> sent tr3 = sent tr2"
      if "poll_until env fd Writable deadline tr2 = Some (p, tr3)" for p tr3
      using poll_until_moves [OF that usable_Live(1)] by blast
    note stop = sent_all_stop [OF rm(1)] sent_all_stop [OF m2] sent_all_stop [OF moves_trans [OF m2]]
    show ?thesis
      using step(2) True rm(2) stop grow same wait unfolding rem prod.case if_P [OF True] Let_def r_def [symmetric] tr2_def [symmetric]
      by (fastforce split: outcome.splits if_splits dns_io_result.splits option.splits)
  qed
qed

lemmas send_datagram_induct = send_datagram.raw_induct [rotated, consumes 1, case_names step]

definition io_done :: "bytes \<Rightarrow> int \<Rightarrow> trace \<Rightarrow> 'a result \<Rightarrow> trace \<Rightarrow> bool" where
  "io_done query fd tr r tr' \<longleftrightarrow> moves query (Live fd) (Live fd) tr tr' \<and> r \<noteq> Panic \<and> length tr \<le> length tr'"

lemma io_done_first:
  "moves query (Live fd) (Live fd) tr tr1 \<Longrightarrow> io_done query fd tr1 r tr2 \<Longrightarrow> io_done query fd tr r tr2"
  by (auto simp: io_done_def dest: moves_trans moves_length)

lemma io_done_stop: "moves query (Live fd) (Live fd) tr tr1 \<Longrightarrow> r \<noteq> Panic \<Longrightarrow> io_done query fd tr r tr1"
  by (auto simp: io_done_def dest: moves_length)

lemma send_datagram_done_all:
  "send_datagram env fd bytes deadline tr = Some y \<Longrightarrow> io_done bytes fd tr (fst y) (snd y)"
proof (induction env fd bytes deadline tr y rule: send_datagram_induct)
  case (step rec env fd bytes deadline tr y)
  obtain q tr1 where rem: "remaining_millis env deadline tr = (q, tr1)" by fastforce
  note rm = remaining_millis_moves [OF _ rem, of bytes "Live fd", simplified]
  define r where "r = t_send env fd bytes Datagram tr1"
  define tr2 where "tr2 = tr1 @ [SendCall fd bytes Datagram r]"
  have m2: "moves bytes (Live fd) (Live fd) tr tr2"
    unfolding tr2_def by (rule moves_snoc [OF rm(1)]) simp
  have wait: "moves bytes (Live fd) (Live fd) tr tr3 \<and> p \<noteq> Panic"
    if "poll_until env fd Writable deadline tr2 = Some (p, tr3)" for p tr3
    using poll_until_moves(1) [OF that usable_Live(1), of bytes] poll_until_moves(2) [OF that usable_Live(1)] moves_trans [OF m2] by blast
  have same: "io_done bytes fd tr (fst y) (snd y)"
    if "rec env fd bytes deadline tr3 = Some y" "moves bytes (Live fd) (Live fd) tr tr3" for tr3
    using io_done_first [OF that(2) step(1) [OF that(1)]] .
  show ?case
    using step(2) rm(1,2) m2 same wait unfolding rem prod.case Let_def r_def [symmetric] tr2_def [symmetric]
    by (fastforce split: outcome.splits if_splits dns_io_result.splits option.splits intro: io_done_stop)
qed

lemmas receive_exact_induct = receive_exact.raw_induct [rotated, consumes 1, case_names step]

lemma length_fill [simp]: "length (fill data buf) = length buf"
  by (simp add: fill_def)

lemma receive_exact_done_all:
  "receive_exact env fd bytes deadline offset tr = Some y \<Longrightarrow>
     io_done query fd tr (fst y) (snd (snd y)) \<and> length (fst (snd y)) = length bytes"
proof (induction env fd bytes deadline offset tr y rule: receive_exact_induct)
  case (step rec env fd bytes deadline offset tr y)
  show ?case
  proof (cases "offset < length bytes")
    case False
    with step(2) show ?thesis by (auto intro: io_done_stop)
  next
    case True
    show ?thesis
    proof (cases "poll_until env fd Readable deadline tr")
      case None
      with step(2) True show ?thesis by simp
    next
      case (Some w)
      obtain p tr1 where w: "w = (p, tr1)" by fastforce
      note pm = poll_until_moves(1) [OF Some [unfolded w] usable_Live(1), of query] poll_until_moves(2) [OF Some [unfolded w] usable_Live(1)]
      obtain r data where rd: "t_receive_stream env fd (length bytes - offset) tr1 = (r, data)" by fastforce
      define bytes1 where "bytes1 = take offset bytes @ fill data (drop offset bytes)"
      define tr2 where "tr2 = tr1 @ [ReceiveCall fd Stream]"
      have m2: "moves query (Live fd) (Live fd) tr tr2"
        unfolding tr2_def by (rule moves_snoc [OF pm(1)]) simp
      have l1: "length bytes1 = length bytes" using True by (simp add: bytes1_def)
      have again: "io_done query fd tr (fst y) (snd (snd y)) \<and> length (fst (snd y)) = length bytes"
        if "rec env fd bytes1 deadline off tr2 = Some y" for off
        using step(1) [OF that] io_done_first [OF m2] l1 by auto
      show ?thesis
        using step(2) True pm(1,2) m2 again l1 unfolding Some w option.case prod.case Let_def rd
          tr2_def [symmetric] bytes1_def [symmetric]
        by (fastforce split: outcome.splits if_splits dns_io_result.splits intro: io_done_stop)
    qed
  qed
qed

lemma receive_datagram_done:
  assumes "receive_datagram env fd bytes tr = (r, bytes', tr')"
  shows "tr' = tr @ [ReceiveCall fd Datagram]" "r \<noteq> Panic" "length bytes' = length bytes" "\<And>n. r = Ok n \<Longrightarrow> n \<le> length bytes'"
  using assms by (auto simp: receive_datagram_def Let_def split: prod.splits dns_io_result.splits if_splits)

subsection \<open>Replies\<close>

text \<open>What an accepted reply is: it echoes the question, is not truncated and, unless only the
  question is matched, holds complete records up to its very end.\<close>

definition valid_reply :: "bytes \<Rightarrow> u16 \<Rightarrow> record_framing \<Rightarrow> bytes \<Rightarrow> bool" where
  "valid_reply query query_id framing packet \<longleftrightarrow>
     (\<exists>question_end. matching_question_end packet query query_id = Ok (Some question_end) \<and>
        packet ! 2 AND 0x02 = 0 \<and>
        (framing = CompleteRecords \<longrightarrow> has_complete_records packet question_end = Ok True))"

lemma matching_question_end_no_panic:
  assumes "slice_len_ok packet" "slice_len_ok query"
  shows "matching_question_end packet query query_id \<noteq> Panic"
proof -
  have "get_range p 12 e \<noteq> (Panic :: bytes result)" if e: "one_question_end p = Ok e" and p: "slice_len_ok p" for p e
  proof -
    from e obtain q where q: "skip_name p 12 = Ok q" "e = q + 4" "e \<le> length p"
      unfolding one_question_end_Ok_iff [OF p] by blast
    then have "12 < q" using skip_name_Ok [OF q(1) p] by simp
    with q show ?thesis by (simp add: get_range_def)
  qed
  then show ?thesis
    using one_question_end_no_panic assms
    by (auto simp: matching_question_end_def and_then_Panic_conv u16_at_def split: outcome.splits)
qed

lemma matching_question_end_Some:
  "matching_question_end packet query query_id = Ok (Some e) \<Longrightarrow> 12 \<le> length packet"
  by (auto simp: matching_question_end_def split: if_splits)

lemma skip_records_no_panic: "slice_len_ok packet \<Longrightarrow> skip_records count packet offset \<noteq> Panic"
proof (induction count arbitrary: offset)
  case (Suc count)
  then show ?case
    using skip_name_no_panic [of packet offset]
    by (auto simp: checked_add_def u16_at_def and_then_Panic_conv split: outcome.splits option.splits if_splits)
qed simp

lemma has_complete_records_no_panic:
  assumes "slice_len_ok packet" "12 \<le> length packet"
  shows "has_complete_records packet offset \<noteq> Panic"
  using skip_records_no_panic [OF assms(1)] assms(2)
  by (auto simp: has_complete_records_def and_then_Panic_conv u16_at_def split: option.splits)

lemma classify_datagram_ok:
  assumes "slice_len_ok packet" "slice_len_ok query"
  shows "classify_datagram packet query query_id framing \<noteq> Panic"
    "classify_datagram packet query query_id framing = Ok (Some (UdpComplete n)) \<Longrightarrow>
       n = length packet \<and> valid_reply query query_id framing packet"
proof -
  note np = matching_question_end_no_panic [OF assms] has_complete_records_no_panic [OF assms(1)] matching_question_end_Some
  show "classify_datagram packet query query_id framing \<noteq> Panic"
    using np by (fastforce simp: classify_datagram_def and_then_Panic_conv get_byte_def split: option.splits if_splits)
  show "n = length packet \<and> valid_reply query query_id framing packet"
    if "classify_datagram packet query query_id framing = Ok (Some (UdpComplete n))"
    using that np
    by (auto simp: classify_datagram_def valid_reply_def and_then_Ok_conv split: option.splits if_splits)
qed

lemma check_response_ok:
  assumes "slice_len_ok response" "slice_len_ok query"
  shows "check_response response query query_id framing \<noteq> Panic"
    "check_response response query query_id framing = Ok n \<Longrightarrow>
       n = length response \<and> valid_reply query query_id framing response"
proof -
  note np = matching_question_end_no_panic [OF assms] has_complete_records_no_panic [OF assms(1)] matching_question_end_Some
  show "check_response response query query_id framing \<noteq> Panic"
    using np by (fastforce simp: check_response_def and_then_Panic_conv get_byte_def split: option.splits if_splits)
  show "n = length response \<and> valid_reply query query_id framing response"
    if "check_response response query query_id framing = Ok n"
    using that np
    by (auto simp: check_response_def valid_reply_def and_then_Ok_conv split: option.splits if_splits)
qed

lemmas udp_exchange_induct = udp_exchange.raw_induct [rotated, consumes 1, case_names step]

text \<open>A finished exchange on a live descriptor: the buffer keeps its length, and an accepted reply
  is at its front.\<close>

definition reply_ok :: "bytes \<Rightarrow> u16 \<Rightarrow> record_framing \<Rightarrow> bytes \<Rightarrow> nat \<Rightarrow> bool" where
  "reply_ok query query_id framing answer n \<longleftrightarrow>
     n \<le> length answer \<and> valid_reply query query_id framing (take n answer)"

definition udp_done ::
    "bytes \<Rightarrow> u16 \<Rightarrow> record_framing \<Rightarrow> int \<Rightarrow> bytes \<Rightarrow> trace \<Rightarrow> udp_response result \<times> bytes \<times> trace \<Rightarrow> bool" where
  "udp_done query query_id framing fd answer tr = (\<lambda>(r, answer', tr').
     io_done query fd tr r tr' \<and> length answer' = length answer \<and>
     (\<forall>n. r = Ok (UdpComplete n) \<longrightarrow> reply_ok query query_id framing answer' n))"

lemma udp_done_first:
  "moves query (Live fd) (Live fd) tr tr1 \<Longrightarrow> length answer1 = length answer \<Longrightarrow>
     udp_done query query_id framing fd answer1 tr1 y \<Longrightarrow> udp_done query query_id framing fd answer tr y"
  by (auto simp: udp_done_def intro: io_done_first)

lemma udp_done_stop:
  "moves query (Live fd) (Live fd) tr tr1 \<Longrightarrow> length answer1 = length answer \<Longrightarrow> udp_done query query_id framing fd answer tr (Err e, answer1, tr1)"
  by (auto simp: udp_done_def intro: io_done_stop)

lemma udp_exchange_done_all:
  "udp_exchange env fd query query_id answer deadline framing tr = Some y \<Longrightarrow> slice_len_ok answer \<Longrightarrow> slice_len_ok query \<Longrightarrow>
     udp_done query query_id framing fd answer tr y"
proof (induction env fd query query_id answer deadline framing tr y rule: udp_exchange_induct)
  case (step rec env fd query query_id answer deadline framing tr y)
  show ?case
  proof (cases "poll_until env fd Readable deadline tr")
    case None
    with step(2) show ?thesis by simp
  next
    case (Some w)
    obtain p tr1 where w: "w = (p, tr1)" by fastforce
    note pm = poll_until_moves(1) [OF Some [unfolded w] usable_Live(1), of query] poll_until_moves(2) [OF Some [unfolded w] usable_Live(1)]
    obtain r answer1 tr2 where rd: "receive_datagram env fd answer tr1 = (r, answer1, tr2)" by (metis prod_cases3)
    note rm = receive_datagram_done [OF rd]
    have m2: "moves query (Live fd) (Live fd) tr tr2" unfolding rm(1) by (rule moves_snoc [OF pm(1)]) simp
    have len: "slice_len_ok answer1" "slice_len_ok (take n answer1)" for n
      using step(3) rm(3) by (auto simp: slice_len_ok_def)
    have again: "udp_done query query_id framing fd answer tr y"
      if "rec env fd query query_id answer1 deadline framing tr2 = Some y"
      using udp_done_first [OF m2 rm(3) step(1) [OF that len(1) step(4)]] .
    have cl: "classify_datagram (take n answer1) query query_id framing \<noteq> Panic" for n
      by (rule classify_datagram_ok(1) [OF len(2) step(4)])
    have fin: "udp_done query query_id framing fd answer tr (Ok response, answer1, tr2)"
      if "classify_datagram (take n answer1) query query_id framing = Ok (Some response)" "r = Ok n" for n response
      using classify_datagram_ok(2) [OF len(2) step(4)] that rm(3,4) m2
      by (fastforce simp: udp_done_def reply_ok_def intro: io_done_stop)
    note stop = udp_done_stop [OF pm(1) refl] udp_done_stop [OF m2 rm(3)]
    show ?thesis
      using step(2) pm(2) rm(2) again cl fin stop unfolding Some w option.case prod.case rd
      by (fastforce split: outcome.splits if_splits option.splits)
  qed
qed

lemma tcp_receive_done:
  assumes r: "tcp_receive env fd query query_id answer deadline framing tr = Some (r, answer', tr')"
    and len: "slice_len_ok answer" "slice_len_ok query"
  shows "io_done query fd tr r tr' \<and> length answer' = length answer \<and> (\<forall>n. r = Ok n \<longrightarrow> reply_ok query query_id framing answer' n)"
proof (cases "receive_exact env fd [0, 0] deadline 0 tr")
  case None
  with r show ?thesis by (simp add: tcp_receive_def)
next
  case (Some w)
  obtain r1 lb tr1 where w: "w = (r1, lb, tr1)" by (metis prod_cases3)
  note d1 = receive_exact_done_all [OF Some, of query, unfolded w, simplified]
  define n where "n = unat (u16_from_be_bytes (lb ! 0) (lb ! 1))"
  show ?thesis
  proof (cases "(\<exists>u. r1 = Ok u) \<and> \<not> (n < 12 \<or> length answer < n)")
    case False
    with r d1 show ?thesis
      unfolding tcp_receive_def Some w
      by (auto simp: n_def io_done_def split: outcome.splits if_splits)
  next
    case True
    show ?thesis
    proof (cases "receive_exact env fd (take n answer) deadline 0 tr1")
      case None
      with r True show ?thesis unfolding tcp_receive_def Some w by (auto simp: n_def)
    next
      case s2: (Some w2)
      obtain r2 response tr2 where w2: "w2 = (r2, response, tr2)" by (metis prod_cases3)
      note d2 = receive_exact_done_all [OF s2, of query, unfolded w2, simplified]
      have l: "length response = n" using d2 True by simp
      have sl: "slice_len_ok response" using len(1) l True by (simp add: slice_len_ok_def)
      have eq: "r = and_then r2 (\<lambda>_. check_response response query query_id framing)" "answer' = response @ drop n answer" "tr' = tr2"
        using r True s2 unfolding tcp_receive_def Some w w2 by (auto simp: n_def)
      note ck = check_response_ok [OF sl len(2)]
      have "r \<noteq> Panic" using eq(1) ck(1) d2 by (auto simp: and_then_Panic_conv io_done_def)
      moreover have "reply_ok query query_id framing answer' m" if "r = Ok m" for m
        using that eq ck(2) l by (auto simp: and_then_Ok_conv reply_ok_def)
      moreover have "moves query (Live fd) (Live fd) tr tr2" using d1 d2 moves_trans by (auto simp: io_done_def)
      ultimately show ?thesis using eq l True by (auto intro: io_done_stop)
    qed
  qed
qed

subsection \<open>Every operation returns once its deadline has passed\<close>

text \<open>
  The only assumption on the environment: for every deadline an \<open>i64\<close> of milliseconds can
  hold, the monotonic clock has passed it after finitely many calls, or fails.
\<close>

definition clock_passes :: "environment \<Rightarrow> bool" where
  "clock_passes env \<longleftrightarrow> (\<forall>d < 2 ^ 63. \<exists>N. \<forall>tr s ns. N \<le> length tr \<longrightarrow> clock_gettime env tr = Inr (s, ns) \<longrightarrow> 0 \<le> ns \<and> d \<le> s * 1000)"

definition expires :: "environment \<Rightarrow> int \<Rightarrow> nat \<Rightarrow> bool" where
  "expires env d N \<longleftrightarrow> (\<forall>tr n tr'. N \<le> length tr \<longrightarrow> remaining_millis env d tr = (Ok n, tr') \<longrightarrow> n = 0)"

lemma saturate_i64_ge: "d < 2 ^ 63 \<Longrightarrow> d \<le> x \<Longrightarrow> d \<le> saturate_i64 x"
  by (simp add: saturate_i64_def)

lemma saturate_i64_less: "saturate_i64 x < 2 ^ 63"
  by (simp add: saturate_i64_def)

lemma millis_sdiv: "0 \<le> (x :: int) \<Longrightarrow> 0 \<le> x sdiv 1000000"
  by (cases "x = 0") (simp_all add: signed_divide_int_def pos_imp_zdiv_nonneg_iff)

lemma clock_passes_expires:
  assumes "clock_passes env" "d < 2 ^ 63"
  shows "\<exists>N. expires env d N"
proof -
  from assms obtain N where N: "\<And>tr s ns. N \<le> length tr \<Longrightarrow> clock_gettime env tr = Inr (s, ns) \<Longrightarrow> 0 \<le> ns \<and> d \<le> s * 1000"
    unfolding clock_passes_def by blast
  have "d \<le> now" if "N \<le> length tr" "monotonic_millis env tr = (Ok now, tr')" for tr now tr'
  proof -
    from that(2) obtain s ns where c: "clock_gettime env tr = Inr (s, ns)"
      "now = saturate_i64 (saturate_i64 (s * 1000) + ns sdiv 1000000)"
      by (auto simp: monotonic_millis_def split: sum.splits)
    from N [OF that(1) c(1)] saturate_i64_ge [OF assms(2), of "s * 1000"] millis_sdiv [of ns]
    have "d \<le> saturate_i64 (s * 1000) + ns sdiv 1000000" by linarith
    then show ?thesis unfolding c(2) by (rule saturate_i64_ge [OF assms(2)])
  qed
  then have "expires env d N"
    unfolding expires_def remaining_millis_def
    by (auto simp: and_then_Ok_conv split: prod.splits if_splits)
  then show ?thesis ..
qed

lemma poll_until_returns:
  assumes "expires env d N"
  shows "\<exists>r tr'. poll_until env fd event d tr = Some (r, tr')"
proof (induction "N - length tr" arbitrary: tr rule: less_induct)
  case less
  obtain q tr1 where rem: "remaining_millis env d tr = (q, tr1)" by fastforce
  have l: "length tr < length tr1" by (rule remaining_millis_moves(3) [OF _ rem, of "[]" Idle]) simp
  have again: "\<exists>r tr'. poll_until env fd event d (tr1 @ [e]) = Some (r, tr')" if "q = Ok n" "n \<noteq> 0" for e n
  proof (rule less)
    have "length tr < N" using assms that rem unfolding expires_def by (meson not_less)
    then show "N - length (tr1 @ [e]) < N - length tr" using l by simp
  qed
  then show ?case
    by (subst poll_until.simps) (auto simp: rem split: outcome.splits dns_io_result.splits)
qed

text \<open>A loop that polls or reads the clock in every turn ends, by the number of turns left.\<close>

lemma send_all_returns:
  assumes "expires env d N"
  shows "\<exists>r tr'. send_all env fd bytes d offset tr = Some (r, tr')"
proof (induction "N - length tr" arbitrary: offset tr rule: less_induct)
  case less
  obtain q tr1 where rem: "remaining_millis env d tr = (q, tr1)" by fastforce
  have l: "length tr < length tr1" by (rule remaining_millis_moves(3) [OF _ rem, of "[]" Idle]) simp
  have again: "\<exists>r tr'. send_all env fd bytes d off tr2 = Some (r, tr')"
    if "q = Ok n" "n \<noteq> 0" "length tr1 \<le> length tr2" for n tr2 off
  proof (rule less)
    have "length tr < N" using assms that rem unfolding expires_def by (meson not_less)
    then show "N - length tr2 < N - length tr" using l that(3) by simp
  qed
  have poll: "\<exists>r tr2. poll_until env fd Writable d (tr1 @ [e]) = Some (r, tr2) \<and> length tr1 \<le> length tr2" for e
    using poll_until_returns [OF assms, of fd Writable "tr1 @ [e]"] poll_until_moves(3) [of env fd Writable d "tr1 @ [e]", OF _ usable_Live(1)]
    by fastforce
  show ?case
  proof (cases "offset < length bytes \<and> (\<exists>n. q = Ok n \<and> n \<noteq> 0)")
    case False
    then show ?thesis by (subst send_all.simps) (auto simp: rem split: outcome.splits)
  next
    case True
    then obtain n where n: "q = Ok n" "n \<noteq> 0" by blast
    define r where "r = t_send env fd (drop offset bytes) Stream tr1"
    define tr2 where "tr2 = tr1 @ [SendCall fd (drop offset bytes) Stream r]"
    obtain p tr3 where p: "poll_until env fd Writable d tr2 = Some (p, tr3)" "length tr1 \<le> length tr3"
      using poll unfolding tr2_def by blast
    have l2: "length tr1 \<le> length tr2" by (simp add: tr2_def)
    show ?thesis
      using True n again [OF n l2] again [OF n p(2)]
      unfolding send_all.simps [of env fd bytes d offset tr] rem prod.case n(1) outcome.case Let_def r_def [symmetric] tr2_def [symmetric]
      by (auto simp: p(1) split: outcome.splits dns_io_result.splits)
  qed
qed

lemma send_datagram_returns:
  assumes "expires env d N"
  shows "\<exists>r tr'. send_datagram env fd bytes d tr = Some (r, tr')"
proof (induction "N - length tr" arbitrary: tr rule: less_induct)
  case less
  obtain q tr1 where rem: "remaining_millis env d tr = (q, tr1)" by fastforce
  have l: "length tr < length tr1" by (rule remaining_millis_moves(3) [OF _ rem, of "[]" Idle]) simp
  have again: "\<exists>r tr'. send_datagram env fd bytes d tr2 = Some (r, tr')"
    if "q = Ok n" "n \<noteq> 0" "length tr1 \<le> length tr2" for n tr2
  proof (rule less)
    have "length tr < N" using assms that rem unfolding expires_def by (meson not_less)
    then show "N - length tr2 < N - length tr" using l that(3) by simp
  qed
  have poll: "\<exists>r tr2. poll_until env fd Writable d (tr1 @ [e]) = Some (r, tr2) \<and> length tr1 \<le> length tr2" for e
    using poll_until_returns [OF assms, of fd Writable "tr1 @ [e]"] poll_until_moves(3) [of env fd Writable d "tr1 @ [e]", OF _ usable_Live(1)]
    by fastforce
  show ?case
  proof (cases "\<exists>n. q = Ok n \<and> n \<noteq> 0")
    case False
    then show ?thesis by (subst send_datagram.simps) (auto simp: rem split: outcome.splits)
  next
    case True
    then obtain n where n: "q = Ok n" "n \<noteq> 0" by blast
    define r where "r = t_send env fd bytes Datagram tr1"
    define tr2 where "tr2 = tr1 @ [SendCall fd bytes Datagram r]"
    obtain p tr3 where p: "poll_until env fd Writable d tr2 = Some (p, tr3)" "length tr1 \<le> length tr3"
      using poll unfolding tr2_def by blast
    have l2: "length tr1 \<le> length tr2" by (simp add: tr2_def)
    show ?thesis
      using n again [OF n l2] again [OF n p(2)]
      unfolding send_datagram.simps [of env fd bytes d tr] rem prod.case n(1) outcome.case Let_def r_def [symmetric] tr2_def [symmetric]
      by (auto simp: p(1) split: outcome.splits dns_io_result.splits)
  qed
qed

text \<open>Past the deadline a poll does not report readiness.\<close>

lemma poll_until_expired:
  assumes "expires env d N" "poll_until env fd event d tr = Some (Ok True, tr')"
  shows "length tr < N" "length tr < length tr'"
proof -
  show "length tr < length tr'" by (rule poll_until_moves(3) [OF assms(2) usable_Live(1)])
  show "length tr < N"
  proof (rule ccontr)
    assume "\<not> length tr < N"
    with assms(1) have "remaining_millis env d tr = (Ok n, tr1) \<Longrightarrow> n = 0" for n tr1 unfolding expires_def by (meson not_less)
    with assms(2) show False by (subst (asm) poll_until.simps) (auto split: prod.splits outcome.splits if_splits)
  qed
qed

lemma receive_exact_returns:
  assumes "expires env d N"
  shows "\<exists>r bytes' tr'. receive_exact env fd bytes d offset tr = Some (r, bytes', tr')"
proof (induction "N - length tr" arbitrary: bytes offset tr rule: less_induct)
  case less
  obtain p tr1 where p: "poll_until env fd Readable d tr = Some (p, tr1)" using poll_until_returns [OF assms] by blast
  show ?case
  proof (cases "offset < length bytes \<and> p = Ok True")
    case False
    then show ?thesis by (subst receive_exact.simps) (auto simp: p split: outcome.splits)
  next
    case True
    note ex = poll_until_expired [OF assms, of fd Readable tr tr1]
    have again: "\<exists>r bytes' tr'. receive_exact env fd b d off (tr1 @ [e]) = Some (r, bytes', tr')" for b off e
      by (rule less) (use ex p True in auto)
    obtain r data where "t_receive_stream env fd (length bytes - offset) tr1 = (r, data)" by fastforce
    with True again p show ?thesis
      unfolding receive_exact.simps [of env fd bytes d offset tr]
      by (auto simp: Let_def split: dns_io_result.splits)
  qed
qed

lemma udp_exchange_returns:
  assumes "expires env d N"
  shows "\<exists>r answer' tr'. udp_exchange env fd query query_id answer d framing tr = Some (r, answer', tr')"
proof (induction "N - length tr" arbitrary: answer tr rule: less_induct)
  case less
  obtain p tr1 where p: "poll_until env fd Readable d tr = Some (p, tr1)" using poll_until_returns [OF assms] by blast
  show ?case
  proof (cases "p = Ok True")
    case False
    then show ?thesis by (subst udp_exchange.simps) (auto simp: p split: outcome.splits)
  next
    case True
    note ex = poll_until_expired [OF assms, of fd Readable tr tr1]
    obtain r answer1 tr2 where rd: "receive_datagram env fd answer tr1 = (r, answer1, tr2)" by (metis prod_cases3)
    have "\<exists>r answer' tr'. udp_exchange env fd query query_id answer1 d framing tr2 = Some (r, answer', tr')"
      by (rule less) (use ex p True receive_datagram_done(1) [OF rd] in auto)
    with True p rd show ?thesis
      unfolding udp_exchange.simps [of env fd query query_id answer d framing tr]
      by (auto split: outcome.splits option.splits)
  qed
qed

end
