(* ===== verification/DnsExchangeProps.thy ===== *)
theory DnsExchangeProps
  imports DnsTrace
begin

text \<open>
  The exchange engine: TCP framing, servers and attempts over any way to start TCP (the interface
  \<open>tcp_start\<close>, interpreted on the native transport), and its properties.
\<close>

subsection \<open>TCP\<close>

lemma tcp_queued_done:
  assumes "tcp_queued env fd started query deadline tr = Some (r, tr')"
  shows "io_done query fd tr r tr'" "sent tr' = sent tr" "\<And>n. r = Ok n \<Longrightarrow> n \<le> length query + 2"
proof -
  have p: "moves query (Live fd) (Live fd) tr tr1 \<and> q \<noteq> Panic \<and> sent tr1 = sent tr"
    if "poll_until env fd Writable deadline tr = Some (q, tr1)" for q tr1
    using poll_until_moves [OF that usable_Live(1)] by blast
  show "io_done query fd tr r tr'" "sent tr' = sent tr"
    using assms p by (auto simp: tcp_queued_def Let_def and_then_Panic_conv split: dns_tcp_start.splits if_splits option.splits intro!: io_done_stop)
  show "\<And>n. r = Ok n \<Longrightarrow> n \<le> length query + 2"
    using assms by (auto simp: tcp_queued_def Let_def and_then_Ok_conv split: dns_tcp_start.splits if_splits option.splits)
qed

definition frame :: "bytes \<Rightarrow> bytes" where
  "frame query = [word_of_nat (length query div 256), word_of_nat (length query)] @ query"

lemma tcp_send_frame_sends:
  assumes "tcp_send_frame env fd queued query deadline tr = Some y" "queued \<le> length query + 2"
  shows "sent_all query fd (drop queued (frame query)) tr y"
proof -
  define prefix :: bytes where "prefix = [word_of_nat (length query div 256), word_of_nat (length query)]"
  have fr: "drop queued (frame query) = drop queued prefix @ drop (queued - 2) query"
    unfolding frame_def prefix_def [symmetric] drop_append by (simp add: prefix_def numeral_2_eq_2)
  show ?thesis
  proof (cases "queued < 2")
    case True
    show ?thesis
    proof (cases "send_all env fd (drop queued prefix) deadline 0 tr")
      case None
      with assms True show ?thesis by (simp add: tcp_send_frame_def prefix_def)
    next
      case (Some w)
      obtain r tr1 where w: "w = (r, tr1)" by fastforce
      note s1 = send_all_sends [OF Some, of query, unfolded w]
      show ?thesis
      proof (cases "r = Ok ()")
        case r: True
        then have s2: "send_all env fd (drop (queued - 2) query) deadline 0 tr1 = Some y"
          using assms True Some w by (simp add: tcp_send_frame_def prefix_def)
        from s1 r have "moves query (Live fd) (Live fd) tr tr1" "sent tr1 = sent tr @ drop queued prefix"
          by (simp_all add: sent_all_def)
        from sent_all_first [OF this send_all_sends [OF s2, of query]] show ?thesis unfolding fr by simp
      next
        case False
        with assms True Some w s1 show ?thesis
          by (auto simp: tcp_send_frame_def prefix_def sent_all_def split: outcome.splits)
      qed
    qed
  next
    case False
    with assms have "send_all env fd (drop (queued - 2) query) deadline 0 tr = Some y" by (simp add: tcp_send_frame_def)
    from send_all_sends [OF this, of query] False show ?thesis unfolding fr by (simp add: prefix_def)
  qed
qed

lemma tcp_body_done:
  assumes b: "tcp_body env fd started query query_id answer deadline framing tr = Some (r, answer', tr')"
    and len: "slice_len_ok answer" "slice_len_ok query"
  shows "io_done query fd tr r tr' \<and> length answer' = length answer \<and> (\<forall>n. r = Ok n \<longrightarrow> reply_ok query query_id framing answer' n)"
proof (cases "tcp_queued env fd started query deadline tr")
  case None
  with b show ?thesis by (simp add: tcp_body_def)
next
  case (Some w)
  obtain q tr1 where w: "w = (q, tr1)" by fastforce
  note d1 = tcp_queued_done [OF Some [unfolded w]]
  show ?thesis
  proof (cases "\<exists>queued. q = Ok queued")
    case False
    with b d1(1) show ?thesis unfolding tcp_body_def Some w by (auto simp: io_done_def split: outcome.splits)
  next
    case True
    then obtain queued where q: "q = Ok queued" by blast
    show ?thesis
    proof (cases "tcp_send_frame env fd queued query deadline tr1")
      case None
      with b Some w q show ?thesis by (simp add: tcp_body_def)
    next
      case s2: (Some w2)
      obtain u tr2 where w2: "w2 = (u, tr2)" by fastforce
      note d2 = tcp_send_frame_sends [OF s2 [unfolded w2] d1(3) [OF q]]
      have m: "moves query (Live fd) (Live fd) tr tr2" "u \<noteq> Panic"
        using d1(1) d2 moves_trans by (auto simp: io_done_def sent_all_def)
      show ?thesis
      proof (cases "u = Ok ()")
        case True
        then have "tcp_receive env fd query query_id answer deadline framing tr2 = Some (r, answer', tr')"
          using b Some w q s2 w2 by (simp add: tcp_body_def)
        from tcp_receive_done [OF this len] io_done_first [OF m(1)] show ?thesis by blast
      next
        case False
        with b Some w q s2 w2 m show ?thesis
          by (auto simp: tcp_body_def split: outcome.splits intro: io_done_stop)
      qed
    qed
  qed
qed

lemma tcp_body_returns:
  assumes "expires env d N"
  shows "\<exists>r answer' tr'. tcp_body env fd started query query_id answer d framing tr = Some (r, answer', tr')"
proof -
  have q: "\<exists>q tr1. tcp_queued env fd started query d tr = Some (q, tr1)"
    using poll_until_returns [OF assms, of fd Writable tr]
    by (auto simp: tcp_queued_def Let_def split: dns_tcp_start.splits)
  have f: "\<exists>u tr2. tcp_send_frame env fd queued query d tr1 = Some (u, tr2)" for queued tr1
  proof -
    let ?first = "if queued < 2 then send_all env fd (drop queued [word_of_nat (length query div 256), word_of_nat (length query)]) d 0 tr1
       else Some (Ok (), tr1)"
    obtain v tr3 where v: "?first = Some (v, tr3)" using send_all_returns [OF assms] by (cases "queued < 2") (simp_all, blast)
    show ?thesis unfolding tcp_send_frame_def Let_def v using send_all_returns [OF assms] by (cases v) auto
  qed
  have r: "\<exists>r answer' tr'. tcp_receive env fd query query_id answer d framing tr2 = Some (r, answer', tr')" for tr2
  proof -
    obtain v lb tr3 where v: "receive_exact env fd [0, 0] d 0 tr2 = Some (v, lb, tr3)"
      using receive_exact_returns [OF assms] by blast
    define n where "n = unat (u16_from_be_bytes (lb ! 0) (lb ! 1))"
    obtain v' b tr4 where v': "receive_exact env fd (take n answer) d 0 tr3 = Some (v', b, tr4)"
      using receive_exact_returns [OF assms] by blast
    show ?thesis unfolding tcp_receive_def v Let_def option.case prod.case n_def [symmetric] by (cases v) (simp_all add: v')
  qed
  obtain p tr1 where p: "tcp_queued env fd started query d tr = Some (p, tr1)" using q by blast
  show ?thesis
  proof (cases p)
    case (Ok queued)
    obtain u tr2 where u: "tcp_send_frame env fd queued query d tr1 = Some (u, tr2)" using f by blast
    show ?thesis unfolding tcp_body_def p option.case prod.case Ok outcome.case u using r [of tr2] by (cases u) simp_all
  qed (simp_all add: tcp_body_def p)
qed

lemma wait_failed_start_done:
  assumes "wait_failed_start env failure deadline e answer tr = Some (r, answer', tr')"
  shows "r = Err e" "answer' = answer" "moves query Idle Idle tr tr'"
  using assms poll_until_moves(1) [OF _ usable_Live(2), of env Readable deadline tr _ _ query]
  by (auto simp: wait_failed_start_def split: if_splits)

lemma wait_failed_start_returns:
  "expires env d N \<Longrightarrow> \<exists>r answer' tr'. wait_failed_start env failure d e answer tr = Some (r, answer', tr')"
  using poll_until_returns [of env d N "- 1" Readable tr] by (auto simp: wait_failed_start_def)

subsection \<open>The engine over any way to start TCP\<close>

text \<open>
  \<open>DnsTransport::start_tcp\<close> as the engine relies on it: it works on the descriptor it is given
  and leaves it open, and it returns once the deadline has passed.
\<close>

locale tcp_start =
  fixes env :: environment
    and start_tcp :: tcp_starter
  assumes start_moves: "start_tcp fd target query deadline tr = Some (r, tr') \<Longrightarrow>
      r \<noteq> Panic \<and> moves query (Live fd) (Live fd) tr tr'"
    and start_returns: "expires env deadline N \<Longrightarrow> \<exists>r tr'. start_tcp fd target query deadline tr = Some (r, tr')"
begin

lemma tcp_exchange_done:
  assumes x: "tcp_exchange env start_tcp target query query_id answer deadline framing tr = Some (r, answer', tr')"
    and len: "slice_len_ok answer" "slice_len_ok query"
  shows "moves query Idle Idle tr tr'" "r \<noteq> Panic" "length answer' = length answer"
    "\<And>n. r = Ok n \<Longrightarrow> reply_ok query query_id framing answer' n"
proof -
  define opened where "opened = net_socket env (sa_family target) (SOCK_STREAM OR SOCK_CLOEXEC OR SOCK_NONBLOCK) (tr @ [StreamStarting])"
  define failure where "failure = t_stream_starting env tr"
  note unf = tcp_exchange_def Let_def opened_def [symmetric] failure_def [symmetric]
  have "moves query Idle Idle tr tr' \<and> r \<noteq> Panic \<and> length answer' = length answer \<and> (\<forall>n. r = Ok n \<longrightarrow> reply_ok query query_id framing answer' n)"
  proof (cases "65535 < length query \<or> length answer < 12")
    case True
    with x show ?thesis by (auto simp: unf)
  next
    case ok: False
    show ?thesis
    proof (cases opened)
      case (Inl e)
      define tr1 where "tr1 = tr @ [StreamStarting, SocketCall opened, SyscallFailed e]"
      have "wait_failed_start env failure deadline e answer tr1 = Some (r, answer', tr')"
        using x ok Inl by (simp add: unf tr1_def)
      note w = wait_failed_start_done(1,2) [OF this] wait_failed_start_done(3) [OF this, of query]
      have "moves query Idle Idle tr tr'" by (rule moves_first [OF _ w(3) [unfolded tr1_def]]) (simp add: Inl)
      with w show ?thesis by simp
    next
      case (Inr fd)
      define tr1 where "tr1 = tr @ [StreamStarting, SocketCall opened, SocketOpened fd Stream]"
      have m1: "moves query Idle (Live fd) tr tr1" unfolding tr1_def by (rule moves_snoc [OF moves_refl]) (simp add: Inr)
      obtain st tr2 where st: "start_tcp fd target query deadline tr1 = Some (st, tr2)"
      proof (cases "start_tcp fd target query deadline tr1")
        case None
        with x ok Inr show ?thesis by (simp add: unf tr1_def)
      next
        case (Some w)
        then show ?thesis using that by (cases w) simp
      qed
      note sm = start_moves [OF st]
      show ?thesis
      proof (cases st)
        case Panic
        with sm show ?thesis by simp
      next
        case (Err e)
        have "wait_failed_start env failure deadline e answer (tr2 @ [SocketClosed fd]) = Some (r, answer', tr')"
          using x ok Inr st Err by (simp add: unf tr1_def)
        note w = wait_failed_start_done(1,2) [OF this] wait_failed_start_done(3) [OF this, of query]
        have "moves query (Live fd) Idle tr2 tr'" by (rule moves_first [OF _ w(3)]) simp
        with m1 sm have "moves query Idle Idle tr tr'" by (blast intro: moves_trans)
        with w show ?thesis by simp
      next
        case (Ok started)
        obtain tr3 where b: "tcp_body env fd started query query_id answer deadline framing tr2 = Some (r, answer', tr3)" "tr' = tr3 @ [SocketClosed fd]"
          using x ok Inr st Ok by (auto simp: unf tr1_def)
        note d = tcp_body_done [OF b(1) len]
        have "moves query (Live fd) Idle tr2 tr'" unfolding b(2) using d by (intro moves_snoc [where ?ph1.0 = "Live fd"]) (simp_all add: io_done_def)
        with m1 sm have "moves query Idle Idle tr tr'" by (blast intro: moves_trans)
        with d show ?thesis by (simp add: io_done_def)
      qed
    qed
  qed
  then show "moves query Idle Idle tr tr'" "r \<noteq> Panic" "length answer' = length answer"
    "\<And>n. r = Ok n \<Longrightarrow> reply_ok query query_id framing answer' n" by blast+
qed

lemma tcp_exchange_returns:
  assumes "expires env d N"
  shows "\<exists>r answer' tr'. tcp_exchange env start_tcp target query query_id answer d framing tr = Some (r, answer', tr')"
proof (cases "65535 < length query \<or> length answer < 12")
  case True
  then show ?thesis by (simp add: tcp_exchange_def)
next
  case False
  define opened where "opened = net_socket env (sa_family target) (SOCK_STREAM OR SOCK_CLOEXEC OR SOCK_NONBLOCK) (tr @ [StreamStarting])"
  note unf = tcp_exchange_def Let_def opened_def [symmetric]
  show ?thesis
  proof (cases opened)
    case (Inl e)
    then show ?thesis unfolding unf if_not_P [OF False] by (simp add: wait_failed_start_returns [OF assms])
  next
    case (Inr fd)
    obtain st tr2 where st: "start_tcp fd target query d (tr @ [StreamStarting, SocketCall opened, SocketOpened fd Stream]) = Some (st, tr2)"
      using start_returns [OF assms] by blast
    show ?thesis
    proof (cases st)
      case (Ok started)
      obtain r a t where "tcp_body env fd started query query_id answer d framing tr2 = Some (r, a, t)"
        using tcp_body_returns [OF assms] by blast
      then show ?thesis unfolding unf if_not_P [OF False] using st Inr Ok by simp
    qed (use False Inr st wait_failed_start_returns [OF assms] in \<open>simp_all add: unf\<close>)
  qed
qed

end

subsection \<open>Servers and attempts\<close>

text \<open>A finished step of \<open>exchange_impl\<close>.\<close>

definition step_done ::
    "bytes \<Rightarrow> u16 \<Rightarrow> record_framing \<Rightarrow> bytes \<Rightarrow> trace \<Rightarrow> (nat, exchange_error) outcome option \<Rightarrow> bytes \<Rightarrow> trace \<Rightarrow> bool" where
  "step_done query query_id framing answer tr v answer' tr' \<longleftrightarrow>
     moves query Idle Idle tr tr' \<and> v \<noteq> Some Panic \<and> length answer' = length answer \<and>
     (\<forall>n. v = Some (Ok n) \<longrightarrow> reply_ok query query_id framing answer' n)"

lemma step_done_first:
  "step_done query query_id framing answer tr w answer1 tr1 \<Longrightarrow> step_done query query_id framing answer1 tr1 v answer' tr' \<Longrightarrow>
     step_done query query_id framing answer tr v answer' tr'"
  by (auto simp: step_done_def dest: moves_trans)

context tcp_start
begin

lemma finish_udp_done:
  assumes f: "finish_udp env start_tcp target query query_id answer deadline framing r tr = Some (v, answer', tr')"
    and len: "slice_len_ok answer" "slice_len_ok query"
    and r: "r \<noteq> Panic" "\<And>n. r = Ok (UdpComplete n) \<Longrightarrow> reply_ok query query_id framing answer n"
  shows "step_done query query_id framing answer tr v answer' tr'"
proof (cases "r = Ok Truncated")
  case True
  then obtain r1 where t: "tcp_exchange env start_tcp target query query_id answer deadline framing tr = Some (r1, answer', tr')"
    "v = (case r1 of Ok n \<Rightarrow> Some (Ok n) | Err _ \<Rightarrow> None | Panic \<Rightarrow> Some Panic)"
    using f by (auto simp: finish_udp_def)
  from tcp_exchange_done [OF t(1) len] show ?thesis by (auto simp: step_done_def t(2) split: outcome.splits)
next
  case False
  with f r show ?thesis by (auto simp: finish_udp_def step_done_def split: outcome.splits udp_response.splits)
qed

lemma udp_attempt_done:
  assumes a: "udp_attempt env start_tcp target query query_id deadline fd framing answer tr = Some (v, answer', tr')"
    and len: "slice_len_ok answer" "slice_len_ok query" and m0: "moves query Idle (Live fd) tr0 tr"
  shows "step_done query query_id framing answer tr0 v answer' tr'"
proof (cases "net_connect env fd target tr")
  case (Inl e)
  with a m0 show ?thesis by (auto simp: udp_attempt_def step_done_def intro: moves_snoc)
next
  case (Inr u)
  have m1: "moves query Idle (Live fd) tr0 (tr @ [ConnectCall fd])" by (rule moves_snoc [OF m0]) simp
  show ?thesis
  proof (cases "send_datagram env fd query deadline (tr @ [ConnectCall fd])")
    case None
    with a Inr show ?thesis by (simp add: udp_attempt_def)
  next
    case (Some w)
    obtain s tr1 where w: "w = (s, tr1)" by fastforce
    from send_datagram_done_all [OF Some, unfolded w] have m2: "moves query Idle (Live fd) tr0 tr1" and s: "s \<noteq> Panic"
      using moves_trans [OF m1] by (auto simp: io_done_def)
    show ?thesis
    proof (cases "s = Ok ()")
      case False
      with a Inr Some w s m2 show ?thesis
        by (auto simp: udp_attempt_def step_done_def split: outcome.splits intro: moves_snoc)
    next
      case True
      obtain r answer1 tr2 where u: "udp_exchange env fd query query_id answer deadline framing tr1 = Some (r, answer1, tr2)"
        using a Inr Some w True by (auto simp: udp_attempt_def split: option.splits)
      then have f: "finish_udp env start_tcp target query query_id answer1 deadline framing r (tr2 @ [SocketClosed fd]) = Some (v, answer', tr')"
        using a Inr Some w True by (simp add: udp_attempt_def)
      from udp_exchange_done_all [OF u len] have d: "moves query (Live fd) (Live fd) tr1 tr2" "r \<noteq> Panic"
        "length answer1 = length answer" "\<And>n. r = Ok (UdpComplete n) \<Longrightarrow> reply_ok query query_id framing answer1 n"
        by (auto simp: udp_done_def io_done_def)
      have "moves query Idle Idle tr0 (tr2 @ [SocketClosed fd])"
        by (rule moves_snoc [OF moves_trans [OF m2 d(1)]]) simp
      then have one: "step_done query query_id framing answer tr0 None answer1 (tr2 @ [SocketClosed fd])"
        using d(3) by (simp add: step_done_def)
      have "slice_len_ok answer1" using len(1) d(3) by (simp add: slice_len_ok_def)
      from step_done_first [OF one finish_udp_done [OF f this len(2) d(2) d(4)]] show ?thesis .
    qed
  qed
qed

lemma try_server_done:
  assumes t: "try_server env start_tcp timeout server query query_id preserve framing answer tr = Some (v, answer', tr')"
    and len: "slice_len_ok answer" "slice_len_ok query"
  shows "step_done query query_id framing answer tr v answer' tr'"
proof (cases "server_address server")
  case (Ok target)
  obtain q tr1 where da: "deadline_after env timeout tr = (q, tr1)" by fastforce
  note dm = deadline_after_moves(1) [OF _ da, of query Idle, simplified] deadline_after_moves(2) [OF _ da, of "[]" Idle, simplified]
  show ?thesis
  proof (cases "\<exists>deadline. q = Ok deadline")
    case False
    with t Ok da dm show ?thesis by (auto simp: try_server_def step_done_def split: outcome.splits)
  next
    case True
    then obtain deadline where q: "q = Ok deadline" by blast
    define opened where "opened = net_socket env (ucast (ns_family server)) (SOCK_DGRAM OR SOCK_CLOEXEC OR SOCK_NONBLOCK) tr1"
    show ?thesis
    proof (cases opened)
      case (Inl e)
      have "moves query Idle Idle tr (tr1 @ [SocketCall opened, SyscallFailed e])" by (rule moves_snoc [OF dm(1)]) (simp add: Inl)
      with t Ok da q Inl show ?thesis
        by (auto simp: try_server_def step_done_def Let_def opened_def [symmetric] split: if_splits)
    next
      case (Inr fd)
      have m: "moves query Idle (Live fd) tr (tr1 @ [SocketCall opened, SocketOpened fd Datagram])"
        by (rule moves_snoc [OF dm(1)]) (simp add: Inr)
      have "udp_attempt env start_tcp target query query_id deadline fd framing answer (tr1 @ [SocketCall opened, SocketOpened fd Datagram]) = Some (v, answer', tr')"
        using t Ok da q Inr by (simp add: try_server_def Let_def opened_def [symmetric])
      from udp_attempt_done [OF this len m] show ?thesis .
    qed
  qed
qed (use t in \<open>auto simp: try_server_def step_done_def server_address_def Let_def split: if_splits\<close>)

lemma server_loop_done:
  "server_loop env start_tcp config query query_id preserve framing index answer tr = Some (v, answer', tr') \<Longrightarrow>
   slice_len_ok answer \<Longrightarrow> slice_len_ok query \<Longrightarrow> nameserver_count config \<le> length (nameservers config) \<Longrightarrow>
     step_done query query_id framing answer tr v answer' tr'"
proof (induction "nameserver_count config - index" arbitrary: index answer tr rule: less_induct)
  case less
  show ?case
  proof (cases "index < nameserver_count config")
    case False
    with less.prems(1) show ?thesis by (subst (asm) server_loop.simps) (auto simp: step_done_def)
  next
    case True
    let ?t = "try_server env start_tcp (timeout_ms config) (nameservers config ! index) query query_id preserve framing answer tr"
    from less.prems(1) True less.prems(4) obtain u answer1 tr1 where t: "?t = Some (u, answer1, tr1)"
      by (subst (asm) server_loop.simps) (auto split: option.splits)
    note d = try_server_done [OF t less.prems(2,3)]
    show ?thesis
    proof (cases u)
      case None
      then have rest: "server_loop env start_tcp config query query_id preserve framing (index + 1) answer1 tr1 = Some (v, answer', tr')"
        using less.prems(1,4) True t by (subst (asm) server_loop.simps) simp
      have "slice_len_ok answer1" using d less.prems(2) by (simp add: step_done_def slice_len_ok_def)
      from step_done_first [OF d less.hyps [OF _ rest this less.prems(3,4)]] True show ?thesis by simp
    next
      case (Some r)
      with less.prems(1,4) True t d show ?thesis by (subst (asm) server_loop.simps) simp
    qed
  qed
qed

lemma attempt_loop_done:
  "attempt_loop env start_tcp config query query_id preserve framing attempt answer tr = Some (r, answer', tr') \<Longrightarrow>
   slice_len_ok answer \<Longrightarrow> slice_len_ok query \<Longrightarrow> nameserver_count config \<le> length (nameservers config) \<Longrightarrow>
     step_done query query_id framing answer tr (Some r) answer' tr'"
proof (induction "256 - unat attempt" arbitrary: attempt answer tr rule: less_induct)
  case less
  show ?case
  proof (cases "attempt < attempts config")
    case False
    with less.prems(1) show ?thesis by (subst (asm) attempt_loop.simps) (auto simp: step_done_def)
  next
    case True
    from less.prems(1) True obtain u answer1 tr1
      where t: "server_loop env start_tcp config query query_id preserve framing 0 answer tr = Some (u, answer1, tr1)"
      by (subst (asm) attempt_loop.simps) (auto split: option.splits)
    note d = server_loop_done [OF t less.prems(2-4)]
    show ?thesis
    proof (cases u)
      case None
      let ?a = "if attempt = 255 then 255 else attempt + 1"
      have rest: "attempt_loop env start_tcp config query query_id preserve framing ?a answer1 tr1 = Some (r, answer', tr')"
        using less.prems(1) True t None by (subst (asm) attempt_loop.simps) simp
      have "slice_len_ok answer1" using d less.prems(2) by (simp add: step_done_def slice_len_ok_def)
      moreover have "256 - unat ?a < 256 - unat attempt" unfolding saturating_attempt(1) [OF True] using saturating_attempt(2) [OF True] by simp
      ultimately show ?thesis using step_done_first [OF d less.hyps [OF _ rest _ less.prems(3,4)]] by blast
    next
      case (Some w)
      with less.prems(1) True t d show ?thesis by (subst (asm) attempt_loop.simps) simp
    qed
  qed
qed

lemma exchange_impl_done:
  assumes x: "exchange_impl env start_tcp config query query_id answer preserve framing tr = Some (r, answer', tr')"
    and len: "slice_len_ok answer" "slice_len_ok query" "length (nameservers config) = MAX_NAMESERVERS"
  shows "step_done query query_id framing answer tr (Some r) answer' tr'"
proof (cases "nameserver_count config = 0 \<or> MAX_NAMESERVERS < nameserver_count config \<or> timeout_ms config = 0 \<or>
         attempts config = 0 \<or> length query < 12 \<or> length answer < 12")
  case True
  with x show ?thesis by (auto simp: exchange_impl_def step_done_def)
next
  case False
  have "and_then (u16_at query 0) (\<lambda>ident. if ident \<noteq> query_id then Err invalid else one_question_end query) \<noteq> Panic"
    using False one_question_end_no_panic [OF len(2)] by (auto simp: and_then_Panic_conv u16_at_def split: if_splits)
  with x attempt_loop_done [OF _ len(1,2)] False len(3) show ?thesis
    unfolding exchange_impl_def if_not_P [OF False]
    by (auto simp: step_done_def split: outcome.splits)
qed

lemma try_server_returns:
  assumes "clock_passes env"
  shows "\<exists>v answer' tr'. try_server env start_tcp timeout server query query_id preserve framing answer tr = Some (v, answer', tr')"
proof (cases "server_address server")
  case (Ok target)
  obtain q tr1 where da: "deadline_after env timeout tr = (q, tr1)" by fastforce
  show ?thesis
  proof (cases "\<exists>deadline. q = Ok deadline")
    case False
    with Ok da show ?thesis by (auto simp: try_server_def split: outcome.splits)
  next
    case True
    then obtain d where q: "q = Ok d" by blast
    then have "d < 2 ^ 63" using da saturate_i64_less by (auto simp: deadline_after_def and_then_Ok_conv split: prod.splits)
    then obtain N where N: "expires env d N" using clock_passes_expires [OF assms] by blast
    have f: "\<exists>v answer' tr'. finish_udp env start_tcp target query query_id a d framing r t = Some (v, answer', tr')" for a r t
      using tcp_exchange_returns [OF N, of target query query_id a framing t]
      by (auto simp: finish_udp_def split: outcome.splits udp_response.splits)
    have "\<exists>v answer' tr'. udp_attempt env start_tcp target query query_id d fd framing answer t = Some (v, answer', tr')" for fd t
    proof (cases "net_connect env fd target t")
      case (Inr u)
      obtain s tr2 where s: "send_datagram env fd query d (t @ [ConnectCall fd]) = Some (s, tr2)"
        using send_datagram_returns [OF N] by blast
      obtain r a tr3 where "udp_exchange env fd query query_id answer d framing tr2 = Some (r, a, tr3)"
        using udp_exchange_returns [OF N] by blast
      with Inr s f show ?thesis by (cases s) (simp_all add: udp_attempt_def)
    qed (simp add: udp_attempt_def)
    with Ok da q show ?thesis by (auto simp: try_server_def Let_def split: sum.splits)
  qed
qed (auto simp: try_server_def)

lemma server_loop_returns:
  assumes "clock_passes env"
  shows "\<exists>v answer' tr'. server_loop env start_tcp config query query_id preserve framing index answer tr = Some (v, answer', tr')"
proof (induction "nameserver_count config - index" arbitrary: index answer tr rule: less_induct)
  case less
  let ?t = "try_server env start_tcp (timeout_ms config) (nameservers config ! index) query query_id preserve framing answer tr"
  obtain u a t where t: "?t = Some (u, a, t)" using try_server_returns [OF assms] by blast
  have "index < nameserver_count config \<Longrightarrow>
      \<exists>v answer' tr'. server_loop env start_tcp config query query_id preserve framing (index + 1) a t = Some (v, answer', tr')"
    by (rule less) simp
  with t show ?case by (subst server_loop.simps) (auto split: option.splits)
qed

lemma attempt_loop_returns:
  assumes "clock_passes env"
  shows "\<exists>r answer' tr'. attempt_loop env start_tcp config query query_id preserve framing attempt answer tr = Some (r, answer', tr')"
proof (induction "256 - unat attempt" arbitrary: attempt answer tr rule: less_induct)
  case less
  obtain u a t where t: "server_loop env start_tcp config query query_id preserve framing 0 answer tr = Some (u, a, t)"
    using server_loop_returns [OF assms] by blast
  show ?case
  proof (cases "attempt < attempts config")
    case True
    let ?a = "if attempt = 255 then 255 else attempt + 1"
    have "256 - unat ?a < 256 - unat attempt"
      unfolding saturating_attempt(1) [OF True] using saturating_attempt(2) [OF True] by simp
    from less [OF this, of a t] t True show ?thesis by (subst attempt_loop.simps) (auto split: option.splits if_splits)
  qed (subst attempt_loop.simps, simp)
qed

lemma exchange_impl_returns:
  assumes "clock_passes env"
  shows "\<exists>r answer' tr'. exchange_impl env start_tcp config query query_id answer preserve framing tr = Some (r, answer', tr')"
  using attempt_loop_returns [OF assms] unfolding exchange_impl_def by (auto split: outcome.splits)

end

subsection \<open>The native transport\<close>

lemma raw_start_tcp_moves:
  assumes "raw_start_tcp k fd target query deadline tr = Some (r, tr')"
  shows "r \<noteq> Panic \<and> moves query (Live fd) (Live fd) tr tr'"
proof -
  have c: "moves query (Live fd) (Live fd) tr (tr @ [ConnectCall fd])" by (rule moves_snoc [OF moves_refl]) simp
  have p: "q \<noteq> Panic \<and> moves query (Live fd) (Live fd) tr tr1 \<and> moves query (Live fd) (Live fd) tr (tr1 @ [SocketErrorRead fd])"
    if "poll_until (raw_transport k) fd Writable deadline (tr @ [ConnectCall fd]) = Some (q, tr1)" for q tr1
    using poll_until_moves(2) [OF that usable_Live(1)] moves_trans [OF c poll_until_moves(1) [OF that usable_Live(1)]] moves_snoc
    by fastforce
  from assms c p show ?thesis
    by (auto simp: raw_start_tcp_def split: sum.splits if_splits option.splits outcome.splits)
qed

interpretation raw: tcp_start "raw_transport k" "raw_start_tcp k" for k
proof
  show "r \<noteq> Panic \<and> moves query (Live fd) (Live fd) tr tr'"
    if "raw_start_tcp k fd target query deadline tr = Some (r, tr')" for fd target query deadline tr r tr'
    using raw_start_tcp_moves [OF that] .
  show "\<exists>r tr'. raw_start_tcp k fd target query deadline tr = Some (r, tr')"
    if N: "expires (raw_transport k) deadline N" for fd target query deadline tr N
  proof -
    obtain q t where "poll_until (raw_transport k) fd Writable deadline (tr @ [ConnectCall fd]) = Some (q, t)"
      using poll_until_returns [OF N] by blast
    then show ?thesis by (auto simp: raw_start_tcp_def split: sum.splits outcome.splits)
  qed
qed

subsection \<open>A sample run\<close>

text \<open>A kernel whose clock advances one second per call and whose network answers the sample query at once.\<close>

definition sample_kernel :: raw_kernel where
  "sample_kernel =
     \<lparr>rk_clock_gettime = (\<lambda>tr. Inr (int (length tr), 0)), rk_socket = (\<lambda>_ _ _. Inr 3),
      rk_connect = (\<lambda>_ _ _. Inr ()), rk_ppoll = (\<lambda>_ events _ _. Inr (1, events)),
      rk_sendto = (\<lambda>_ bytes _. Inr (length bytes)), rk_recvfrom = (\<lambda>_ _ _. (Inr 0, [])),
      rk_recvmsg = (\<lambda>_ _ _. (Inr (38, 0), sample_response)), rk_socket_error = (\<lambda>_ _. Inr 0)\<rparr>"

definition sample_config :: exchange_config where
  "sample_config = single (ipv4 [127, 0, 0, 1]) 60000"

lemma sample_clock_passes: "clock_passes (raw_transport sample_kernel)"
  unfolding clock_passes_def
proof (intro allI impI)
  fix d :: int assume "d < 2 ^ 63"
  show "\<exists>N. \<forall>tr s ns. N \<le> length tr \<longrightarrow> clock_gettime (raw_transport sample_kernel) tr = Inr (s, ns) \<longrightarrow> 0 \<le> ns \<and> d \<le> s * 1000"
    by (rule exI [of _ "nat d"]) (auto simp: raw_transport_def sample_kernel_def)
qed

lemma sample_question: "length (question sample_name TYPE_A) = 10" "one_question_end sample_query = Ok 22" "length sample_query = 22"
proof -
  show "length (question sample_name TYPE_A) = 10" by (simp add: length_question sample_labels)
  show l: "length sample_query = 22" by (simp add: sample_query_def)
  show "one_question_end sample_query = Ok 22"
    using one_question_end_query [OF sample_name_ok sample_query_layout] l by simp
qed

lemma sample_matching: "matching_question_end sample_response sample_query 0x1234 = Ok (Some 22)"
proof -
  have "take 10 (drop 12 sample_response) = question sample_name TYPE_A"
    by (simp add: question_def sample_labels u16_to_be_bytes_def TYPE_A_def CLASS_IN_def sample_response_def)
  moreover have "response_header_ok sample_response 0x1234"
    by (simp add: response_header_ok_def sample_response_def u16_to_be_bytes_def)
  moreover have "take 2 (drop 4 sample_response) = u16_to_be_bytes 1"
    by (simp add: sample_response_def u16_to_be_bytes_def)
  ultimately show ?thesis
    unfolding matching_question_end_eq [OF sample_len(1) sample_name_ok sample_query_layout] by (simp add: sample_question(1))
qed

lemma sample_classify: "classify_datagram sample_response sample_query 0x1234 CompleteRecords = Ok (Some (UdpComplete 38))"
  unfolding classify_datagram_def sample_matching
  by (simp add: sample_complete get_byte_Ok sample_len(2)) (simp add: sample_response_def)

lemma sample_millis:
  "length tr < 1000 \<Longrightarrow> monotonic_millis (raw_transport sample_kernel) tr = (Ok (1000 * int (length tr)), tr @ [ClockRead])"
  by (simp add: monotonic_millis_def raw_transport_def sample_kernel_def saturate_i64_def min_def max_def)

lemma sample_remaining:
  "length tr < 60 \<Longrightarrow> remaining_millis (raw_transport sample_kernel) 60000 tr =
     (Ok (word_of_int (60000 - 1000 * int (length tr))), tr @ [ClockRead])"
  using sample_millis [of tr] by (simp add: remaining_millis_def i64_of_id min_def)

lemma sample_env:
  "net_socket (raw_transport sample_kernel) a b tr = Inr 3"
  "net_connect (raw_transport sample_kernel) fd t tr = Inr ()"
  "t_wait (raw_transport sample_kernel) fd ev n tr = Complete True"
  "t_send (raw_transport sample_kernel) fd bs kd tr = Complete (length bs)"
  "t_receive_datagram (raw_transport sample_kernel) fd len tr = (Complete \<lparr>dg_length = 38, dg_truncated = False\<rparr>, sample_response)"
  by (simp_all add: raw_transport_def sample_kernel_def raw_wait_def raw_receive_datagram_def from_result_def
      POLLIN_def POLLOUT_def POLLERR_def POLLHUP_def POLLNVAL_def MSG_TRUNC_def split: dns_wait.splits)

lemma sample_exchange:
  "exchange sample_kernel sample_config sample_query 0x1234 (replicate 64 0) [] =
     Some (Ok 38, sample_response @ replicate 26 0,
       [ClockRead, SocketCall (Inr 3), SocketOpened 3 Datagram, ConnectCall 3, ClockRead,
        SendCall 3 sample_query Datagram (Complete 22), ClockRead, WaitCall 3 Readable 54000, ReceiveCall 3 Datagram, SocketClosed 3])"
proof -
  let ?e = "raw_transport sample_kernel"
  have f: "fill sample_response (replicate 64 0) = sample_response @ replicate 26 0" by (simp add: fill_def sample_len(2))
  have u: "u16_at sample_query 0 = Ok 0x1234" by (simp add: u16_at_def sample_query_def u16_from_be_bytes_def get_byte_def)
  have p: "poll_until ?e 3 Readable 60000 tr = Some (Ok True, tr @ [ClockRead, WaitCall 3 Readable 54000])" if "length tr = 6" for tr
    using that by (subst poll_until.simps) (simp add: sample_remaining sample_env)
  have s: "send_datagram ?e 3 sample_query 60000 tr = Some (Ok (), tr @ [ClockRead, SendCall 3 sample_query Datagram (Complete 22)])" if "length tr = 4" for tr
    using that by (subst send_datagram.simps) (simp add: sample_remaining sample_env sample_question(3))
  have x: "udp_exchange ?e 3 sample_query 0x1234 (replicate 64 0) 60000 CompleteRecords tr =
      Some (Ok (UdpComplete 38), sample_response @ replicate 26 0, tr @ [ClockRead, WaitCall 3 Readable 54000, ReceiveCall 3 Datagram])" if "length tr = 6" for tr
    using that by (subst udp_exchange.simps) (simp add: p receive_datagram_def sample_env f Let_def sample_len(2) sample_classify)
  show ?thesis
    unfolding exchange_def exchange_impl_def
    by (simp add: sample_config_def single_def ipv4_def splice_def MAX_NAMESERVERS_def sample_question u, subst attempt_loop.simps, subst server_loop.simps)
      (simp add: try_server_def server_address_def AF_INET_def deadline_after_def sample_millis sample_env Let_def udp_attempt_def
        saturate_i64_def s x finish_udp_def)
qed

lemma sample_lens:
  "slice_len_ok sample_query" "slice_len_ok (replicate 64 (0 :: u8))" "length (nameservers sample_config) = MAX_NAMESERVERS"
  by (simp_all add: slice_len_ok_def sample_question(3) sample_config_def single_def ipv4_def splice_def MAX_NAMESERVERS_def)

subsection \<open>Properties\<close>

text \<open>C5. Whatever the kernel, the network and the transport answer, an exchange that returns
  kept the documented descriptor discipline: every acquired descriptor was reported at once, used
  only while live and closed before the next was acquired, none is left open, and every datagram
  sent was the whole query. It did not panic and the answer buffer keeps its length. The hypothesis
  \<open>tcp_start\<close> asks of \<open>start_tcp\<close> that it works on the descriptor it is given.\<close>

theorem exchange_discipline:
  assumes start: "tcp_start env start_tcp"
    and x: "exchange_impl env start_tcp config query query_id answer preserve framing tr = Some (r, answer', tr')"
    and len: "slice_len_ok answer" "slice_len_ok query" "length (nameservers config) = MAX_NAMESERVERS"
  shows "(\<exists>new. tr' = tr @ new \<and> run_events query Idle new = Some Idle) \<and> r \<noteq> Panic \<and> length answer' = length answer"
  using tcp_start.exchange_impl_done [OF start x len] by (auto simp: step_done_def moves_def)

theorem exchange_discipline_witness:
  "\<exists>answer tr'. exchange_impl (raw_transport sample_kernel) (raw_start_tcp sample_kernel) sample_config sample_query 0x1234
      (replicate 64 0) False CompleteRecords [] = Some (Ok 38, answer, tr') \<and> run_events sample_query Idle tr' = Some Idle"
proof -
  let ?x = "exchange_impl (raw_transport sample_kernel) (raw_start_tcp sample_kernel) sample_config sample_query 0x1234
      (replicate 64 0) False CompleteRecords []"
  obtain answer tr' where x: "?x = Some (Ok 38, answer, tr')"
    using sample_exchange unfolding exchange_def by (cases ?x) (auto split: outcome.splits exchange_error.splits)
  from exchange_discipline [OF raw.tcp_start_axioms x sample_lens(2) sample_lens(1) sample_lens(3)] x
  show ?thesis by auto
qed

text \<open>C7. A length the native \<open>exchange\<close> returns fits the answer buffer, and that prefix of
  the buffer is a reply to the query: its header and exactly echoed question match, it is not
  truncated, and its records are complete up to its last byte. Replies that fail any of these are
  ignored, over UDP, or end the attempt, over TCP.\<close>

theorem exchange_valid_reply:
  assumes x: "exchange k config query query_id answer tr = Some (Ok n, answer', tr')"
    and len: "slice_len_ok answer" "slice_len_ok query" "length (nameservers config) = MAX_NAMESERVERS"
  shows "n \<le> length answer \<and> length answer' = length answer \<and> valid_reply query query_id CompleteRecords (take n answer')"
proof -
  let ?x = "exchange_impl (raw_transport k) (raw_start_tcp k) config query query_id answer False CompleteRecords tr"
  have i: "?x = Some (Ok n, answer', tr')"
    using x unfolding exchange_def by (cases ?x) (auto split: outcome.splits exchange_error.splits)
  from raw.exchange_impl_done [OF i len] show ?thesis by (auto simp: step_done_def reply_ok_def)
qed

theorem exchange_valid_reply_witness:
  "valid_reply sample_query 0x1234 CompleteRecords sample_response"
  using exchange_valid_reply [OF sample_exchange sample_lens(2) sample_lens(1) sample_lens(3)] by (simp add: sample_len(2))

text \<open>C6. If for every deadline the monotonic clock passes it after finitely many calls, the
  native \<open>exchange\<close> returns, without a panic, however often the kernel interrupts it, wakes it
  early, splits its transfers or delivers packets to ignore.\<close>

theorem exchange_returns:
  assumes "clock_passes (raw_transport k)" "slice_len_ok answer" "slice_len_ok query"
    "length (nameservers config) = MAX_NAMESERVERS"
  shows "\<exists>r answer' tr'. exchange k config query query_id answer tr = Some (r, answer', tr') \<and> r \<noteq> Panic"
proof -
  obtain r a t where x: "exchange_impl (raw_transport k) (raw_start_tcp k) config query query_id answer False CompleteRecords tr = Some (r, a, t)"
    using raw.exchange_impl_returns [OF assms(1)] by blast
  from raw.exchange_impl_done [OF x assms(2-4)] have "r \<noteq> Panic" by (simp add: step_done_def)
  with x show ?thesis by (auto simp: exchange_def split: outcome.splits exchange_error.splits)
qed

theorem exchange_returns_witness:
  "\<exists>r answer' tr'. exchange sample_kernel sample_config sample_query 0x1234 (replicate 64 0) [] = Some (r, answer', tr') \<and> r \<noteq> Panic"
  by (rule exchange_returns [OF sample_clock_passes sample_lens(2) sample_lens(1) sample_lens(3)])

text \<open>C12. When the TCP part has sent its frame, the stream has accepted exactly what was left of
  the frame, in order and once, across short writes, interruptions and full buffers; the frame is the
  query behind its big-endian length.\<close>

theorem tcp_frame_exact:
  assumes "tcp_send_frame env fd queued query deadline tr = Some (Ok (), tr')"
    and "queued \<le> length query + 2" "length query \<le> 65535"
  shows "sent tr' = sent tr @ drop queued (frame query) \<and> drop 2 (frame query) = query \<and>
     unat (u16_from_be_bytes (frame query ! 0) (frame query ! 1)) = length query"
proof -
  define w where "w = (word_of_nat (length query) :: u16)"
  have w: "unat w = length query" using assms(3) by (simp add: w_def unat_of_nat)
  have "frame query ! 0 = ucast (drop_bit 8 w)" "frame query ! 1 = ucast w"
    using w by (simp_all add: frame_def unsigned_drop_bit_eq drop_bit_eq_div word_unat_eq_iff unsigned_ucast_eq take_bit_eq_mod unat_of_nat unat_div_distrib)
  then have "unat (u16_from_be_bytes (frame query ! 0) (frame query ! 1)) = length query"
    using w by (simp add: u16_be_from_to)
  then show ?thesis using tcp_send_frame_sends [OF assms(1,2)] by (simp add: sent_all_def frame_def)
qed

theorem tcp_frame_exact_witness:
  "\<exists>tr'. tcp_send_frame (raw_transport sample_kernel) 3 1 [7, 8, 9] 60000 [] = Some (Ok (), tr') \<and> sent tr' = [3, 7, 8, 9]"
proof -
  have s: "send_all (raw_transport sample_kernel) 3 bs 60000 0 tr = Some (Ok (), tr @ [ClockRead, SendCall 3 bs Stream (Complete (length bs))])"
    if "length tr = 0 \<or> length tr = 2" "bs \<noteq> []" for bs tr
    using that by (subst send_all.simps, subst send_all.simps) (auto simp: sample_remaining sample_env)
  obtain tr' where t: "tcp_send_frame (raw_transport sample_kernel) 3 1 [7, 8, 9] 60000 [] = Some (Ok (), tr')"
    by (simp add: tcp_send_frame_def s)
  from tcp_frame_exact [OF t] t show ?thesis by (simp add: frame_def)
qed

end
