(* ===== verification/InetAddress.thy ===== *)
theory InetAddress
  imports IntegerParse
begin

text \<open>
  \<open>libc/src/c_abi/x86_64/inet_address.rs\<close>: \<open>inet_pton\<close>, \<open>inet_ntop\<close>, \<open>inet_aton\<close> and
  \<open>inet_addr\<close>. A source pointer is the list of bytes readable from it and advancing it drops from
  that list; reading past it, or writing past a buffer, is \<open>Panic\<close>. A writer that appends through
  a moving output pointer takes and returns the text written so far. Failed parses return the
  destination as they leave it.
\<close>

definition AF_INET_family :: int where "AF_INET_family = 2"
definition AF_INET6_family :: int where "AF_INET6_family = 10"
definition EAFNOSUPPORT_code :: int where "EAFNOSUPPORT_code = 97"
definition ENOSPC_code :: int where "ENOSPC_code = 28"

definition decimal_digit :: "u8 \<Rightarrow> bool" where
  "decimal_digit byte \<longleftrightarrow> byte - 48 < 10"

definition hex_value :: "u8 \<Rightarrow> int" where
  "hex_value byte =
     (if byte - 48 < 10 then uint (byte - 48)
      else let lower = byte OR 32 in if lower - 97 < 6 then uint (lower - 97 + 10) else - 1)"

subsection \<open>Rendering\<close>

definition write_decimal_octet :: "bytes \<Rightarrow> u8 \<Rightarrow> bytes" where
  "write_decimal_octet out octet =
     (let out = (if 100 \<le> octet then out @ [48 + octet div 100, 48 + (octet div 10) mod 10]
                 else if 10 \<le> octet then out @ [48 + octet div 10] else out)
      in out @ [48 + octet mod 10])"

fun write_hex_loop :: "nat list \<Rightarrow> bytes \<Rightarrow> u16 \<Rightarrow> bool \<Rightarrow> bytes" where
  "write_hex_loop [] out w emitted = out"
| "write_hex_loop (shift # shifts) out w emitted =
     (let digit = ucast ((drop_bit shift (ucast w :: u32)) AND 15) :: u8 in
      if emitted \<or> digit \<noteq> 0 \<or> shift = 0
      then write_hex_loop shifts (out @ [if digit < 10 then 48 + digit else 97 + digit - 10]) w True
      else write_hex_loop shifts out w emitted)"

definition write_hex_word :: "bytes \<Rightarrow> u16 \<Rightarrow> bytes" where
  "write_hex_word out w = write_hex_loop [12, 8, 4, 0] out w False"

fun write_ipv4_from :: "nat list \<Rightarrow> bytes \<Rightarrow> bytes \<Rightarrow> (bytes, unit) outcome" where
  "write_ipv4_from [] out address = Ok out"
| "write_ipv4_from (index # rest) out address =
     and_then (get_byte address index) (\<lambda>octet.
       write_ipv4_from rest (write_decimal_octet (if index \<noteq> 0 then out @ [46] else out) octet) address)"

definition write_ipv4_text :: "bytes \<Rightarrow> bytes \<Rightarrow> (bytes, unit) outcome" where
  "write_ipv4_text out address = write_ipv4_from [0, 1, 2, 3] out address"

definition ipv6_word :: "bytes \<Rightarrow> nat \<Rightarrow> (u16, unit) outcome" where
  "ipv6_word address index =
     (let offset = index * 2 in
      and_then (get_byte address offset) (\<lambda>high. and_then (get_byte address (offset + 1)) (\<lambda>low.
        Ok ((push_bit 8 (ucast high)) OR ucast low))))"

fun write_words :: "nat list \<Rightarrow> bytes \<Rightarrow> bytes \<Rightarrow> (bytes, unit) outcome" where
  "write_words [] out address = Ok out"
| "write_words (index # rest) out address =
     and_then (ipv6_word address index) (\<lambda>w.
       write_words rest (write_hex_word (if index \<noteq> 0 then out @ [58] else out) w) address)"

fun ipv4_mapped_from :: "nat list \<Rightarrow> bytes \<Rightarrow> (bool, unit) outcome" where
  "ipv4_mapped_from [] address =
     and_then (get_byte address 10) (\<lambda>tenth. and_then (get_byte address 11) (\<lambda>eleventh.
       Ok (tenth = 255 \<and> eleventh = 255)))"
| "ipv4_mapped_from (index # rest) address =
     and_then (get_byte address index) (\<lambda>byte. if byte \<noteq> 0 then Ok False else ipv4_mapped_from rest address)"

definition ipv4_mapped :: "bytes \<Rightarrow> (bool, unit) outcome" where
  "ipv4_mapped address = ipv4_mapped_from [0..<10] address"

fun c_string_length :: "bytes \<Rightarrow> (nat, unit) outcome" where
  "c_string_length [] = Panic"
| "c_string_length (byte # input) =
     (if byte = 0 then Ok 0 else and_then (c_string_length input) (\<lambda>n. Ok (n + 1)))"

fun colon_zero_span :: "bytes \<Rightarrow> (nat, unit) outcome" where
  "colon_zero_span [] = Panic"
| "colon_zero_span (byte # input) =
     (if byte \<noteq> 58 \<and> byte \<noteq> 48 then Ok 0 else and_then (colon_zero_span input) (\<lambda>n. Ok (n + 1)))"

fun copy_c_string :: "bytes \<Rightarrow> bytes \<Rightarrow> (bytes, unit) outcome" where
  "copy_c_string destination [] = Panic"
| "copy_c_string [] (byte # source) = Panic"
| "copy_c_string (_ # destination) (byte # source) =
     (if byte = 0 then Ok (byte # destination)
      else and_then (copy_c_string destination source) (\<lambda>rest. Ok (byte # rest)))"

definition snprintf_ipv4_copy :: "bytes \<Rightarrow> nat \<Rightarrow> bytes \<Rightarrow> (bytes, unit) outcome" where
  "snprintf_ipv4_copy destination capacity source =
     (if capacity = 0 then Ok destination
      else put_range destination 0 (take (min (length source) (capacity - 1)) source @ [0]))"

text \<open>The fixed local buffer, zero-initialised, after the text and its terminator are written.\<close>

definition local_buffer :: "nat \<Rightarrow> bytes \<Rightarrow> (bytes, unit) outcome" where
  "local_buffer len text = put_range (replicate len 0) 0 (text @ [0])"

text \<open>The search for the longest run of \<open>:\<close> and \<open>0\<close>.\<close>

function find_run :: "bytes \<Rightarrow> nat \<Rightarrow> nat \<Rightarrow> nat \<Rightarrow> (nat \<times> nat \<times> nat, unit) outcome" where
  "find_run buffer cursor best maxrun =
     (if length buffer \<le> cursor then Panic
      else if buffer ! cursor = 0 then Ok (cursor, best, maxrun)
      else if cursor = 0 \<or> buffer ! cursor = 58 then
        (case colon_zero_span (drop cursor buffer) of
           Ok span \<Rightarrow>
             if maxrun + (if best = 0 then 1 else 0) < span then find_run buffer (cursor + 1) cursor span
             else find_run buffer (cursor + 1) best maxrun
         | Err e \<Rightarrow> Err e
         | Panic \<Rightarrow> Panic)
      else find_run buffer (cursor + 1) best maxrun)"
  by pat_completeness auto
termination
  by (relation "measure (\<lambda>(buffer, cursor, best, maxrun). length buffer - cursor)") auto

declare find_run.simps [simp del]

definition put_byte :: "bytes \<Rightarrow> nat \<Rightarrow> u8 \<Rightarrow> (bytes, unit) outcome" where
  "put_byte buffer i byte = (if i < length buffer then Ok (buffer[i := byte]) else Panic)"

fun move_left :: "nat \<Rightarrow> nat \<Rightarrow> nat \<Rightarrow> bytes \<Rightarrow> (bytes, unit) outcome" where
  "move_left 0 from_index to_index buffer = Ok buffer"
| "move_left (Suc count) from_index to_index buffer =
     and_then (get_byte buffer from_index) (\<lambda>byte. and_then (put_byte buffer to_index byte) (\<lambda>buffer.
       move_left count (from_index + 1) (to_index + 1) buffer))"

definition compress_run :: "bytes \<Rightarrow> (bytes, unit) outcome" where
  "compress_run buffer =
     and_then (find_run buffer 0 0 2) (\<lambda>(cursor, best, maxrun).
       if 3 < maxrun then
         and_then (put_byte buffer best 58) (\<lambda>buffer. and_then (put_byte buffer (best + 1) 58) (\<lambda>buffer.
           move_left (cursor - best - maxrun + 1) (best + maxrun) (best + 2) buffer))
       else Ok buffer)"

definition render_ipv6 :: "bytes \<Rightarrow> (bytes, unit) outcome" where
  "render_ipv6 address =
     and_then (ipv4_mapped address) (\<lambda>mapped.
       if mapped then
         and_then (write_words [0..<6] [] address) (\<lambda>out. write_ipv4_text (out @ [58]) (drop 12 address))
       else write_words [0..<8] [] address)"

text \<open>The result pointer is \<open>destination\<close> or null; then the destination and \<open>errno\<close> if set.\<close>

definition inet_ntop :: "int \<Rightarrow> bytes \<Rightarrow> bytes \<Rightarrow> u32 \<Rightarrow> (bool \<times> bytes \<times> int option, unit) outcome" where
  "inet_ntop address_family address destination len =
     (let capacity = unat len in
      if address_family = AF_INET_family then
        and_then (write_ipv4_text [] address) (\<lambda>text.
        and_then (local_buffer 16 text) (\<lambda>buffer.
        and_then (snprintf_ipv4_copy destination capacity (take (length text) buffer)) (\<lambda>destination.
          Ok (if length text < capacity then (True, destination, None) else (False, destination, Some ENOSPC_code)))))
      else if address_family = AF_INET6_family then
        and_then (render_ipv6 address) (\<lambda>text.
        and_then (local_buffer 100 text) (\<lambda>buffer.
        and_then (compress_run buffer) (\<lambda>buffer.
        and_then (c_string_length buffer) (\<lambda>rendered_length.
          if rendered_length < capacity then
            and_then (copy_c_string destination buffer) (\<lambda>destination. Ok (True, destination, None))
          else Ok (False, destination, Some ENOSPC_code)))))
      else Ok (False, destination, Some EAFNOSUPPORT_code))"

subsection \<open>Parsing\<close>

text \<open>At most \<open>left\<close> more decimal digits from \<open>source\<close>: the value and the digit count.\<close>

fun octet_digits :: "nat \<Rightarrow> bytes \<Rightarrow> int \<Rightarrow> nat \<Rightarrow> (int \<times> nat, unit) outcome" where
  "octet_digits 0 source v digits = Ok (v, digits)"
| "octet_digits (Suc left) source v digits =
     and_then (get_byte source digits) (\<lambda>byte.
       if \<not> decimal_digit byte then Ok (v, digits)
       else octet_digits left source (10 * v + uint (byte - 48)) (digits + 1))"

text \<open>The component loop of \<open>inet_pton_ipv4\<close> with \<open>4 - component\<close> turns left; the status and the destination.\<close>

fun pton4_loop :: "nat \<Rightarrow> nat \<Rightarrow> bytes \<Rightarrow> bytes \<Rightarrow> (int \<times> bytes, unit) outcome" where
  "pton4_loop 0 component source destination = Ok (0, destination)"
| "pton4_loop (Suc turns) component source destination =
     and_then (octet_digits 3 source 0 0) (\<lambda>(v, digits).
     and_then (get_byte source digits) (\<lambda>delimiter.
     and_then (get_byte source 0) (\<lambda>first.
       if digits = 0 \<or> (1 < digits \<and> first = 48) \<or> 255 < v then Ok (0, destination)
       else and_then (put_byte destination component (word_of_int v)) (\<lambda>destination.
         if delimiter = 0 \<and> component = 3 then Ok (1, destination)
         else if delimiter \<noteq> 46 then Ok (0, destination)
         else pton4_loop turns (component + 1) (drop (digits + 1) source) destination))))"

definition inet_pton_ipv4 :: "bytes \<Rightarrow> bytes \<Rightarrow> (int \<times> bytes, unit) outcome" where
  "inet_pton_ipv4 source destination = pton4_loop 4 0 source destination"

fun hex_digits :: "nat \<Rightarrow> bytes \<Rightarrow> int \<Rightarrow> nat \<Rightarrow> (int \<times> nat, unit) outcome" where
  "hex_digits 0 source v digits = Ok (v, digits)"
| "hex_digits (Suc left) source v digits =
     and_then (get_byte source digits) (\<lambda>byte.
       let digit = hex_value byte in
       if digit < 0 then Ok (v, digits) else hex_digits left source (16 * v + digit) (digits + 1))"

text \<open>How the loop of \<open>inet_pton_ipv6\<close> ends: a rejection, or the loop variables at the \<open>break\<close>.\<close>

datatype scan6 = Reject | Scanned bytes "u16 list" nat "nat option" bool

function pton6_loop :: "bytes \<Rightarrow> u16 list \<Rightarrow> nat \<Rightarrow> nat option \<Rightarrow> (scan6, unit) outcome" where
  "pton6_loop source words index break_index =
     (case source of
        [] \<Rightarrow> Panic
      | byte # rest \<Rightarrow>
          if byte = 58 \<and> break_index = None then
            let words = words[index mod 8 := 0] in
            (case rest of
               [] \<Rightarrow> Panic
             | following # _ \<Rightarrow>
                 if following = 0 then Ok (Scanned rest words index (Some index) False)
                 else if index = 7 then Ok Reject
                 else pton6_loop rest words (index + 1) (Some index))
          else
            (case hex_digits 4 source 0 0 of
               Panic \<Rightarrow> Panic
             | Err e \<Rightarrow> Err e
             | Ok (v, digits) \<Rightarrow>
                 if digits = 0 then Ok Reject
                 else if length source \<le> digits then Panic
                 else
                   let words = words[index mod 8 := word_of_int v];
                       delimiter = source ! digits
                   in if delimiter = 0 \<and> (break_index \<noteq> None \<or> index = 7)
                      then Ok (Scanned source words index break_index False)
                      else if index = 7 then Ok Reject
                      else if delimiter \<noteq> 58 then
                        if delimiter \<noteq> 46 \<or> (index < 6 \<and> break_index = None) then Ok Reject
                        else Ok (Scanned source (words[(index + 1) mod 8 := 0]) (index + 1) break_index True)
                      else pton6_loop (drop (digits + 1) source) words (index + 1) break_index))"
  by pat_completeness auto
termination
  by (relation "measure (\<lambda>(source, words, index, break_index). length source)") auto

declare pton6_loop.simps [simp del]

text \<open>The expansion of the gap: a descending copy and a zero fill of the eight words.\<close>

fun move_words :: "nat \<Rightarrow> nat \<Rightarrow> nat \<Rightarrow> u16 list \<Rightarrow> (u16 list, unit) outcome" where
  "move_words 0 from_index to_index words = Ok words"
| "move_words (Suc moved) from_index to_index words =
     and_then (get_byte words (from_index + moved)) (\<lambda>w.
       if to_index + moved < length words
       then move_words moved from_index to_index (words[to_index + moved := w])
       else Panic)"

fun zero_words :: "nat list \<Rightarrow> nat \<Rightarrow> u16 list \<Rightarrow> (u16 list, unit) outcome" where
  "zero_words [] break_index words = Ok words"
| "zero_words (offset # rest) break_index words =
     (if break_index + offset < length words
      then zero_words rest break_index (words[break_index + offset := 0]) else Panic)"

definition expand_gap :: "nat option \<Rightarrow> nat \<Rightarrow> u16 list \<Rightarrow> (u16 list, unit) outcome" where
  "expand_gap break_index index words =
     (case break_index of
        None \<Rightarrow> Ok words
      | Some b \<Rightarrow>
          and_then (move_words (index + 1 - b) b (b + 7 - index) words) (\<lambda>words.
            zero_words [0..<7 - index] b words))"

fun store_words :: "nat list \<Rightarrow> u16 list \<Rightarrow> bytes \<Rightarrow> (bytes, unit) outcome" where
  "store_words [] words destination = Ok destination"
| "store_words (word_index # rest) words destination =
     and_then (get_byte words word_index) (\<lambda>w.
     and_then (put_byte destination (word_index * 2) (ucast (drop_bit 8 w))) (\<lambda>destination.
     and_then (put_byte destination (word_index * 2 + 1) (ucast w)) (\<lambda>destination.
       store_words rest words destination)))"

definition finish_ipv6 :: "scan6 \<Rightarrow> bytes \<Rightarrow> (int \<times> bytes, unit) outcome" where
  "finish_ipv6 r destination =
     (case r of
        Reject \<Rightarrow> Ok (0, destination)
      | Scanned source words index break_index needs_ipv4_tail \<Rightarrow>
          and_then (expand_gap break_index index words) (\<lambda>words.
          and_then (store_words [0..<8] words destination) (\<lambda>destination.
            if needs_ipv4_tail then
              and_then (inet_pton_ipv4 source (drop 12 destination)) (\<lambda>(status, tail).
                Ok (if status \<le> 0 then 0 else 1, take 12 destination @ tail))
            else Ok (1, destination))))"

definition inet_pton_ipv6 :: "bytes \<Rightarrow> bytes \<Rightarrow> (int \<times> bytes, unit) outcome" where
  "inet_pton_ipv6 source destination =
     and_then (get_byte source 0) (\<lambda>first.
       if first = 58 then
         and_then (get_byte source 1) (\<lambda>second.
           if second \<noteq> 58 then Ok (0, destination)
           else and_then (pton6_loop (drop 1 source) (replicate 8 0) 0 None) (\<lambda>r. finish_ipv6 r destination))
       else and_then (pton6_loop source (replicate 8 0) 0 None) (\<lambda>r. finish_ipv6 r destination))"

definition inet_pton :: "int \<Rightarrow> bytes \<Rightarrow> bytes \<Rightarrow> (int \<times> bytes \<times> int option, unit) outcome" where
  "inet_pton address_family source destination =
     (if address_family = AF_INET_family then
        and_then (inet_pton_ipv4 source destination) (\<lambda>(status, destination). Ok (status, destination, None))
      else if address_family = AF_INET6_family then
        and_then (inet_pton_ipv6 source destination) (\<lambda>(status, destination). Ok (status, destination, None))
      else Ok (- 1, destination, Some EAFNOSUPPORT_code))"

subsection \<open>The historical grammar\<close>

text \<open>The scan of \<open>__inet_aton\<close>: \<open>None\<close> is its \<open>return 0\<close>; \<open>errno\<close> keeps what \<open>strtoul\<close> last set.\<close>

fun aton_loop :: "nat \<Rightarrow> bytes \<Rightarrow> u64 list \<Rightarrow> nat \<Rightarrow> int option \<Rightarrow>
    ((u64 list \<times> nat) option \<times> int option, unit) outcome" where
  "aton_loop 0 cursor values components err = Ok (Some (values, components), err)"
| "aton_loop (Suc turns) cursor values components err =
     and_then (strtoul cursor (Some 0) 0) (\<lambda>(v, endptr, e).
       let err = (case e of None \<Rightarrow> err | Some _ \<Rightarrow> e); stop = the endptr in
       and_then (get_byte cursor stop) (\<lambda>end_byte. and_then (get_byte cursor 0) (\<lambda>first.
         if stop = 0 \<or> (end_byte \<noteq> 0 \<and> end_byte \<noteq> 46) \<or> \<not> decimal_digit first then Ok (None, err)
         else
           let values = values[components := v] in
           if end_byte = 0 then Ok (Some (values, components), err)
           else aton_loop turns (drop (stop + 1) cursor) values (components + 1) err)))"

definition spread_components :: "nat \<Rightarrow> u64 list \<Rightarrow> u64 list" where
  "spread_components components values =
     (let values = (if components = 0 then values[1 := values ! 0 AND 0xffffff, 0 := drop_bit 24 (values ! 0)] else values);
          values = (if components \<le> 1 then values[2 := values ! 1 AND 0xffff, 1 := drop_bit 16 (values ! 1)] else values)
      in if components \<le> 2 then values[3 := values ! 2 AND 0xff, 2 := drop_bit 8 (values ! 2)] else values)"

fun store_components :: "nat list \<Rightarrow> u64 list \<Rightarrow> bytes \<Rightarrow> (int \<times> bytes, unit) outcome" where
  "store_components [] values destination = Ok (1, destination)"
| "store_components (component # rest) values destination =
     (if 255 < values ! component then Ok (0, destination)
      else and_then (put_byte destination component (ucast (values ! component))) (\<lambda>destination.
        store_components rest values destination))"

definition inet_aton :: "bytes \<Rightarrow> bytes \<Rightarrow> (int \<times> bytes \<times> int option, unit) outcome" where
  "inet_aton source destination =
     and_then (aton_loop 4 source (replicate 4 0) 0 None) (\<lambda>(r, err).
       case r of
         None \<Rightarrow> Ok (0, destination, err)
       | Some (values, components) \<Rightarrow>
           if components = 4 then Ok (0, destination, err)
           else and_then (store_components [0..<4] (spread_components components values) destination)
             (\<lambda>(status, destination). Ok (status, destination, err)))"

definition inet_addr :: "bytes \<Rightarrow> (u32 \<times> int option, unit) outcome" where
  "inet_addr source =
     and_then (inet_aton source (replicate 4 0)) (\<lambda>(status, address, err).
       Ok (if status = 0 then - 1
           else u32_from_le_bytes (address ! 0) (address ! 1) (address ! 2) (address ! 3), err))"

end
