(* ===== verification/InetText.thy ===== *)
theory InetText
  imports InetAddress
begin

text \<open>
  Reference descriptions of the text that \<open>inet_address.rs\<close> reads and writes: the decimal text of an
  octet, dotted octets, the hexadecimal text of a group, groups joined by colons. The writers produce
  these texts and the component loop of \<open>inet_pton_ipv4\<close> accepts exactly dotted octets.
\<close>

subsection \<open>Octets\<close>

definition octet_text :: "u8 \<Rightarrow> bytes" where
  "octet_text b = write_decimal_octet [] b"

definition digits_int :: "bytes \<Rightarrow> int" where
  "digits_int ds = foldl (\<lambda>v b. 10 * v + uint (b - 48)) 0 ds"

definition octet_digits_ok :: "bytes \<Rightarrow> bool" where
  "octet_digits_ok ds \<longleftrightarrow> ds \<noteq> [] \<and> length ds \<le> 3 \<and> list_all decimal_digit ds \<and> (1 < length ds \<longrightarrow> hd ds \<noteq> 48)"

lemma write_decimal_octet_eq: "write_decimal_octet out b = out @ octet_text b"
  by (simp add: write_decimal_octet_def octet_text_def Let_def)

lemma decimal_digit_iff: "decimal_digit b \<longleftrightarrow> unat (b - 48) < 10"
  by (simp add: decimal_digit_def word_less_nat_alt)

lemma unat_octet: "unat (b div 100) = unat b div 100" "unat (b div 10) = unat b div 10"
  "unat (b mod 10) = unat b mod 10" "unat ((b div 10) mod 10) = unat b div 10 mod 10" "unat b < 256" for b :: u8
  using unsigned_less [of b, where ?'a = nat] by (simp_all add: unat_div_distrib unat_mod_distrib)

lemma octet_text_of:
  assumes "unat b = n"
  shows "octet_text b = (if 100 \<le> n then [48 + word_of_nat (n div 100), 48 + word_of_nat (n div 10 mod 10), 48 + word_of_nat (n mod 10)]
     else if 10 \<le> n then [48 + word_of_nat (n div 10), 48 + word_of_nat (n mod 10)] else [48 + word_of_nat n])"
proof -
  have b: "b = word_of_nat n" using assms by auto
  have n: "n < 256" using assms unat_octet(5) by blast
  have "b div 100 = word_of_nat (n div 100)" "(b div 10) mod 10 = word_of_nat (n div 10 mod 10)" "b mod 10 = word_of_nat (n mod 10)" "b div 10 = word_of_nat (n div 10)"
    using n assms by (simp_all add: word_unat_eq_iff unat_octet unat_of_nat)
  with assms b show ?thesis
    by (auto simp: octet_text_def write_decimal_octet_def Let_def word_le_nat_alt)
qed

lemma digit_byte:
  assumes "k < 10"
  shows "decimal_digit (48 + word_of_nat k)" "uint ((48 + word_of_nat k :: u8) - 48) = int k" "(48 + word_of_nat k = (48 :: u8)) = (k = 0)"
proof -
  have u: "unat (word_of_nat k :: u8) = k" using assms by (simp add: unat_of_nat)
  show "decimal_digit (48 + word_of_nat k)" using assms u by (simp add: decimal_digit_iff)
  show "uint ((48 + word_of_nat k :: u8) - 48) = int k" using u by (simp add: uint_nat)
  show "(48 + word_of_nat k = (48 :: u8)) = (k = 0)" using u by auto
qed

lemma octet_text_ok: "octet_digits_ok (octet_text b)" "digits_int (octet_text b) = uint b"
proof -
  define n where "n = unat b"
  have n: "n < 256" using unat_octet(5) by (simp add: n_def)
  have t: "octet_text b = (if 100 \<le> n then [48 + word_of_nat (n div 100), 48 + word_of_nat (n div 10 mod 10), 48 + word_of_nat (n mod 10)]
     else if 10 \<le> n then [48 + word_of_nat (n div 10), 48 + word_of_nat (n mod 10)] else [48 + word_of_nat n])"
    by (rule octet_text_of) (simp add: n_def)
  have u: "uint b = int n" by (simp add: n_def)
  have d: "n div 10 mod 10 < 10" "n mod 10 < 10" by simp_all
  consider "100 \<le> n" | "10 \<le> n" "n < 100" | "n < 10" by linarith
  then show "octet_digits_ok (octet_text b)"
  proof cases
    case 1
    have q: "n div 100 < 10" "n div 100 \<noteq> 0" using 1 n by auto
    show ?thesis unfolding t using 1 digit_byte [OF q(1)] digit_byte [OF d(1)] digit_byte [OF d(2)] q(2) by (simp add: octet_digits_ok_def)
  next
    case 2
    have q: "n div 10 < 10" "n div 10 \<noteq> 0" using 2 by auto
    show ?thesis unfolding t using 2 digit_byte [OF q(1)] digit_byte [OF d(2)] q(2) by (simp add: octet_digits_ok_def)
  next
    case 3
    then show ?thesis unfolding t using digit_byte [OF 3] by (simp add: octet_digits_ok_def)
  qed
  consider "100 \<le> n" | "10 \<le> n" "n < 100" | "n < 10" by linarith
  then show "digits_int (octet_text b) = uint b"
  proof cases
    case 1
    have q: "n div 100 < 10" using n by auto
    have "n div 100 = n div 10 div 10" by (simp add: div_mult2_eq [symmetric])
    then have "n = 10 * (10 * (n div 100) + n div 10 mod 10) + n mod 10" by (simp only: mult_div_mod_eq)
    then have "int n = int (10 * (10 * (n div 100) + n div 10 mod 10) + n mod 10)" by simp
    then have "int n = 10 * (10 * int (n div 100) + int (n div 10 mod 10)) + int (n mod 10)"
      by (simp only: of_nat_add of_nat_mult of_nat_numeral)
    then show ?thesis unfolding t u using 1 digit_byte(2) [OF q] digit_byte(2) [OF d(1)] digit_byte(2) [OF d(2)]
      by (simp only: if_True digits_int_def foldl.simps mult_zero_right add_0)
  next
    case 2
    have q: "n div 10 < 10" using 2 by auto
    have "int n = int (10 * (n div 10) + n mod 10)" by simp
    then have "int n = 10 * int (n div 10) + int (n mod 10)" by (simp only: of_nat_add of_nat_mult of_nat_numeral)
    moreover have "octet_text b = [48 + word_of_nat (n div 10), 48 + word_of_nat (n mod 10)]" using t 2 by simp
    ultimately show ?thesis unfolding u using digit_byte(2) [OF q] digit_byte(2) [OF d(2)]
      by (simp only: digits_int_def foldl.simps mult_zero_right add_0)
  next
    case 3
    then show ?thesis unfolding t u using digit_byte(2) [OF 3] by (simp add: digits_int_def)
  qed
qed

lemma digit_byte_of:
  assumes "decimal_digit a"
  obtains k where "k < 10" "a = 48 + word_of_nat k"
  using assms that [of "unat (a - 48)"] by (simp add: decimal_digit_iff)

lemma octet_text_unique:
  assumes ok: "octet_digits_ok ds" and v: "digits_int ds \<le> 255"
  shows "octet_text (word_of_int (digits_int ds)) = ds"
proof -
  have of_n: "octet_text (word_of_int (int n)) = (if 100 \<le> n then [48 + word_of_nat (n div 100), 48 + word_of_nat (n div 10 mod 10), 48 + word_of_nat (n mod 10)]
     else if 10 \<le> n then [48 + word_of_nat (n div 10), 48 + word_of_nat (n mod 10)] else [48 + word_of_nat n])" if "n \<le> 255" for n
    by (rule octet_text_of) (use that in \<open>simp add: unat_of_nat\<close>)
  consider a where "ds = [a]" | a b where "ds = [a, b]" | a b c where "ds = [a, b, c]"
    using ok unfolding octet_digits_ok_def by (cases ds; cases "tl ds"; cases "tl (tl ds)") auto
  then show ?thesis
  proof cases
    case (1 a)
    with ok obtain x where x: "x < 10" "a = 48 + word_of_nat x" by (auto simp: octet_digits_ok_def elim: digit_byte_of)
    have d: "digits_int ds = int x" unfolding 1 digits_int_def x(2) using digit_byte(2) [OF x(1)] by simp
    show ?thesis unfolding d using of_n [of x] x by (simp add: 1)
  next
    case (2 a b)
    with ok obtain x y where x: "x < 10" "a = 48 + word_of_nat x" and y: "y < 10" "b = 48 + word_of_nat y"
      by (auto simp: octet_digits_ok_def elim!: digit_byte_of)
    have x0: "x \<noteq> 0" using ok digit_byte(3) [OF x(1)] by (auto simp: 2 x(2) octet_digits_ok_def)
    have d: "digits_int ds = int (10 * x + y)"
      unfolding 2 digits_int_def x(2) y(2) foldl.simps digit_byte(2) [OF x(1)] digit_byte(2) [OF y(1)] by simp
    have e: "(10 * x + y) div 10 = x" "(10 * x + y) mod 10 = y" "10 \<le> 10 * x + y" "\<not> 100 \<le> 10 * x + y"
      using x(1) y(1) x0 by (simp_all add: div_nat_eqI)
    show ?thesis unfolding d using of_n [of "10 * x + y"] v d e x y by (simp add: 2)
  next
    case (3 a b c)
    with ok obtain x y z where x: "x < 10" "a = 48 + word_of_nat x" and y: "y < 10" "b = 48 + word_of_nat y" and z: "z < 10" "c = 48 + word_of_nat z"
      by (auto simp: octet_digits_ok_def elim!: digit_byte_of)
    have x0: "x \<noteq> 0" using ok digit_byte(3) [OF x(1)] by (auto simp: 3 x(2) octet_digits_ok_def)
    have d: "digits_int ds = int (10 * (10 * x + y) + z)"
      unfolding 3 digits_int_def x(2) y(2) z(2) foldl.simps digit_byte(2) [OF x(1)] digit_byte(2) [OF y(1)] digit_byte(2) [OF z(1)] by simp
    have e: "(10 * (10 * x + y) + z) div 100 = x" "(10 * (10 * x + y) + z) div 10 = 10 * x + y" "(10 * x + y) mod 10 = y" "(10 * (10 * x + y) + z) mod 10 = z"
      "100 \<le> 10 * (10 * x + y) + z"
    proof -
      show "(10 * (10 * x + y) + z) div 100 = x" by (rule div_nat_eqI) (use x(1) y(1) z(1) in simp_all)
      show "(10 * (10 * x + y) + z) div 10 = 10 * x + y" by (rule div_nat_eqI) (use z(1) in simp_all)
      show "(10 * (10 * x + y) + z) mod 10 = z" by (subst mod_mult_self4) (use z(1) in simp)
    qed (use y(1) z(1) x0 in simp_all)
    show ?thesis unfolding d using of_n [of "10 * (10 * x + y) + z"] v d e x y z by (simp add: 3 del: mult_Suc_right)
  qed
qed

subsection \<open>Dotted decimal text\<close>

fun dotted_octets :: "bytes \<Rightarrow> bytes" where
  "dotted_octets [] = []"
| "dotted_octets [b] = octet_text b"
| "dotted_octets (b # bs) = octet_text b @ 46 # dotted_octets bs"

lemma dotted_octets_Cons: "bs \<noteq> [] \<Longrightarrow> dotted_octets (b # bs) = octet_text b @ 46 # dotted_octets bs"
  by (cases bs) auto

lemma octet_text_inj: "octet_text a = octet_text b \<Longrightarrow> a = b"
  using octet_text_ok(2) [of a] octet_text_ok(2) [of b] by (metis word_uint_eqI)

lemma not_digits [simp]: "\<not> decimal_digit 0" "\<not> decimal_digit 46" "\<not> decimal_digit 58"
  by (simp_all add: decimal_digit_def)

lemma octet_digits_eq:
  "0 \<in> set (drop k source) \<Longrightarrow> octet_digits left source v k =
     Ok (foldl (\<lambda>v b. 10 * v + uint (b - 48)) v (take left (takeWhile decimal_digit (drop k source))),
         k + length (take left (takeWhile decimal_digit (drop k source))))"
proof (induction left arbitrary: v k)
  case (Suc left)
  then have k: "k < length source" by (metis drop_all empty_iff list.set(1) not_less)
  then have d: "drop k source = source ! k # drop (Suc k) source" by (simp add: Cons_nth_drop_Suc)
  show ?case
  proof (cases "decimal_digit (source ! k)")
    case True
    then have "source ! k \<noteq> 0" by auto
    with Suc.prems d have "0 \<in> set (drop (Suc k) source)" by simp
    from Suc.IH [OF this] True k d show ?thesis by (simp add: get_byte_def)
  next
    case False
    with k d show ?thesis by (simp add: get_byte_def)
  qed
qed simp

text \<open>The digits at the front of a NUL-terminated string, and the byte behind them.\<close>

definition front_digits :: "bytes \<Rightarrow> bytes" where
  "front_digits source = take 3 (takeWhile decimal_digit source)"

lemma front_octet_digits:
  assumes "0 \<in> set source"
  shows "octet_digits 3 source 0 0 = Ok (digits_int (front_digits source), length (front_digits source))"
    "length (front_digits source) < length source"
proof -
  show "octet_digits 3 source 0 0 = Ok (digits_int (front_digits source), length (front_digits source))"
    using octet_digits_eq [of 0 source 3 0] assms by (simp add: front_digits_def digits_int_def)
  have "takeWhile decimal_digit source \<noteq> source" using assms not_digits(1) set_takeWhileD [of 0 decimal_digit source] by metis
  then have "length (takeWhile decimal_digit source) < length source"
    by (metis length_takeWhile_le le_neq_implies_less takeWhile_eq_take take_all_iff le_refl)
  then show "length (front_digits source) < length source" by (simp add: front_digits_def)
qed

lemma front_digits_text:
  assumes s: "takeWhile (\<lambda>b. b \<noteq> 0) source = octet_text b @ t" and t: "t = [] \<or> hd t = 46" and z: "0 \<in> set source"
  shows "front_digits source = octet_text b" "source ! length (octet_text b) = (if t = [] then 0 else 46)"
proof -
  have dr: "dropWhile (\<lambda>b. b \<noteq> 0) source \<noteq> []" using z by (simp add: dropWhile_eq_Nil_conv)
  then obtain rest where r: "dropWhile (\<lambda>b. b \<noteq> 0) source = 0 # rest"
    using hd_dropWhile [of "\<lambda>b. b \<noteq> 0" source] by (cases "dropWhile (\<lambda>b. b \<noteq> 0) source") auto
  have src: "source = octet_text b @ t @ 0 # rest" using takeWhile_dropWhile_id [of "\<lambda>b. b \<noteq> 0" source] s r by simp
  have all: "list_all decimal_digit (octet_text b)" "length (octet_text b) \<le> 3" using octet_text_ok(1) [of b] by (auto simp: octet_digits_ok_def)
  have stop: "\<not> decimal_digit (hd (t @ 0 # rest))" using t by (cases t) auto
  have "takeWhile decimal_digit (octet_text b @ t @ 0 # rest) = octet_text b"
    using all(1) stop by (subst takeWhile_append2) (auto simp: list_all_iff, cases "t @ 0 # rest", auto)
  then show "front_digits source = octet_text b" using all(2) by (simp add: front_digits_def src)
  show "source ! length (octet_text b) = (if t = [] then 0 else 46)" using t unfolding src by (cases t) auto
qed

lemma front_digits_props:
  "list_all decimal_digit (front_digits source)" "length (front_digits source) \<le> 3"
  "front_digits source = take (length (front_digits source)) source"
proof -
  show "list_all decimal_digit (front_digits source)"
    by (auto simp: front_digits_def list_all_iff dest!: in_set_takeD set_takeWhileD)
  show "length (front_digits source) \<le> 3" by (simp add: front_digits_def)
  define m where "m = length (takeWhile decimal_digit source)"
  have "takeWhile decimal_digit source = take m source" unfolding m_def by (rule takeWhile_eq_take)
  then have f: "front_digits source = take (min 3 m) source" by (simp add: front_digits_def)
  have "m \<le> length source" unfolding m_def by (rule length_takeWhile_le)
  then show "front_digits source = take (length (front_digits source)) source" by (simp add: f min_def)
qed

text \<open>A string that is a list of \<open>n\<close> dotted octets starts with the text of the first.\<close>

lemma dotted_front:
  assumes "takeWhile (\<lambda>b. b \<noteq> 0) source = dotted_octets (b # bs)" "0 \<in> set source"
  shows "front_digits source = octet_text b" "source ! length (octet_text b) = (if bs = [] then 0 else 46)"
  using front_digits_text [of source b "if bs = [] then [] else 46 # dotted_octets bs"] assms
  by (cases "bs = []"; simp add: dotted_octets_Cons)+

lemma takeWhile_split:
  assumes "n < length source" "list_all (\<lambda>b. b \<noteq> 0) (take n source)"
  shows "takeWhile (\<lambda>b. b \<noteq> 0) source =
     take n source @ (if source ! n = 0 then [] else source ! n # takeWhile (\<lambda>b. b \<noteq> 0) (drop (Suc n) source))"
proof -
  have "source = take n source @ source ! n # drop (Suc n) source" by (rule id_take_nth_drop [OF assms(1)])
  then have "takeWhile (\<lambda>b. b \<noteq> 0) source = takeWhile (\<lambda>b. b \<noteq> 0) (take n source @ source ! n # drop (Suc n) source)" by simp
  also have "\<dots> = take n source @ takeWhile (\<lambda>b. b \<noteq> 0) (source ! n # drop (Suc n) source)"
    using assms(2) by (subst takeWhile_append2) (auto simp: list_all_iff)
  finally show ?thesis by simp
qed

abbreviation c_text :: "bytes \<Rightarrow> bytes" where
  "c_text source \<equiv> takeWhile (\<lambda>b. b \<noteq> 0) source"

lemma c_text_front_digits:
  assumes "0 \<in> set source" and n: "n = length (front_digits source)"
  shows "c_text source = front_digits source @ (if source ! n = 0 then [] else source ! n # c_text (drop (Suc n) source))"
    and "source ! n \<noteq> 0 \<Longrightarrow> 0 \<in> set (drop (Suc n) source)"
proof -
  note digits = front_digits_props [of source, folded n]
  have len: "n < length source" using front_octet_digits(2) [OF assms(1)] by (simp add: n)
  have nz: "list_all (\<lambda>b. b \<noteq> 0) (take n source)"
    unfolding digits(3) [symmetric] using digits(1) by (auto simp: list_all_iff)
  show "c_text source = front_digits source @ (if source ! n = 0 then [] else source ! n # c_text (drop (Suc n) source))"
    using takeWhile_split [OF len nz] unfolding digits(3) [symmetric] .
  have "0 \<in> set (take n source @ source ! n # drop (Suc n) source)"
    using assms(1) id_take_nth_drop [OF len] by simp
  then show "source ! n \<noteq> 0 \<Longrightarrow> 0 \<in> set (drop (Suc n) source)" using nz by (auto simp: list_all_iff)
qed

text \<open>One turn of the component loop accepts exactly the text of an octet.\<close>

lemma pton4_step:
  assumes "0 \<in> set source" "component < length destination"
  shows "pton4_loop (Suc turns) component source destination =
     (let ds = front_digits source; n = length ds in
      if octet_digits_ok ds \<and> digits_int ds \<le> 255
      then let destination = destination[component := word_of_int (digits_int ds)] in
           if source ! n = 0 \<and> component = 3 then Ok (1, destination) else if source ! n \<noteq> 46 then Ok (0, destination)
           else pton4_loop turns (component + 1) (drop (n + 1) source) destination
      else Ok (0, destination))"
proof -
  define ds where "ds = front_digits source"
  define n where "n = length ds"
  note fd = front_octet_digits [OF assms(1), folded ds_def]
  note digits = front_digits_props [of source, folded ds_def, folded n_def]
  have source: "source \<noteq> []" using assms(1) by auto
  have "hd ds = source ! 0" if "ds \<noteq> []"
  proof -
    have "hd ds = hd (take n source)" using arg_cong [OF digits(3), of hd] .
    then show ?thesis using that source by (simp add: n_def hd_conv_nth)
  qed
  then have "octet_digits_ok ds \<longleftrightarrow> \<not> (n = 0 \<or> (1 < n \<and> source ! 0 = 48))"
    using digits(1,2) by (auto simp: octet_digits_ok_def n_def)
  then show ?thesis
    using fd assms(2) source unfolding ds_def [symmetric] n_def [symmetric] Let_def
    by (auto simp: get_byte_def n_def [symmetric] put_byte_def)
qed

lemma pton4_first:
  assumes "0 \<in> set source" "c_text source = dotted_octets bs" "bs \<noteq> []"
  shows "\<exists>b bs'. bs = b # bs' \<and> front_digits source = octet_text b \<and>
    source ! length (front_digits source) = (if bs' = [] then 0 else 46)"
proof -
  from assms(3) obtain b bs' where bs: "bs = b # bs'" by (cases bs) auto
  show ?thesis using bs dotted_front [OF assms(2) [unfolded bs] assms(1)] by simp
qed

lemma splice_Cons_update:
  "component < length destination \<Longrightarrow>
   splice destination component (b # bs) = splice (destination[component := b]) (Suc component) bs"
  by (simp add: splice_def take_Suc_conv_app_nth)

text \<open>What the loop owes from component \<open>c\<close> on: a status, and the octets exactly when the text is dotted octets.\<close>

definition pton4_outcome :: "nat \<Rightarrow> nat \<Rightarrow> bytes \<Rightarrow> bytes \<Rightarrow> (int \<times> bytes, unit) outcome \<Rightarrow> bool" where
  "pton4_outcome turns c source destination r \<longleftrightarrow>
     (\<forall>bs. length bs = turns \<and> c_text source = dotted_octets bs \<longrightarrow> r = Ok (1, splice destination c bs)) \<and>
     ((\<nexists>bs. length bs = turns \<and> c_text source = dotted_octets bs) \<longrightarrow>
      (\<exists>destination'. r = Ok (0, destination') \<and> length destination' = length destination \<and> drop 4 destination' = drop 4 destination))"

lemma pton4_outcome_reject:
  assumes "\<And>bs. length bs = turns \<Longrightarrow> c_text source \<noteq> dotted_octets bs" "length destination' = length destination" "drop 4 destination' = drop 4 destination"
  shows "pton4_outcome turns c source destination (Ok (0, destination'))"
  using assms by (auto simp: pton4_outcome_def)

lemma pton4_loop_outcome:
  assumes "0 \<in> set source" "component + turns = 4" "0 < turns" "4 \<le> length destination"
  shows "pton4_outcome turns component source destination (pton4_loop turns component source destination)"
  using assms
proof (induction turns arbitrary: component source destination)
  case (Suc turns)
  define ds where "ds = front_digits source"
  define n where "n = length ds"
  define b where "b = (word_of_int (digits_int ds) :: u8)"
  define dest1 where "dest1 = destination[component := b]"
  have c: "component < length destination" using Suc.prems by simp
  note step = pton4_step [OF Suc.prems(1) c, of turns, unfolded Let_def, folded ds_def, folded n_def, folded b_def, folded dest1_def]
  note str = c_text_front_digits [OF Suc.prems(1), of n, folded ds_def, OF n_def]
  have len: "length dest1 = length destination" "drop 4 dest1 = drop 4 destination" using Suc.prems(2) by (simp_all add: dest1_def)
  show ?case
  proof (cases "octet_digits_ok ds \<and> digits_int ds \<le> 255")
    case False
    have "c_text source \<noteq> dotted_octets bs" if "length bs = Suc turns" for bs
    proof
      assume "c_text source = dotted_octets bs"
      from pton4_first [OF Suc.prems(1) this] that obtain b where "ds = octet_text b" by (force simp: ds_def)
      then show False using False octet_text_ok [of b] unsigned_less [of b, where ?'a = int] by simp
    qed
    then show ?thesis using step False by (simp del: pton4_loop.simps add: pton4_outcome_reject)
  next
    case True
    then have t: "octet_text b = ds" unfolding b_def by (intro octet_text_unique) simp_all
    have first: "\<exists>bs'. bs = b # bs' \<and> source ! n = (if bs' = [] then 0 else 46)"
      if "c_text source = dotted_octets bs" "length bs = Suc turns" for bs
    proof -
      from that(2) have "bs \<noteq> []" by auto
      from pton4_first [OF Suc.prems(1) that(1) this] obtain b' bs' where
        "bs = b' # bs'" "ds = octet_text b'" "source ! n = (if bs' = [] then 0 else 46)" by (metis ds_def n_def)
      then show ?thesis using t octet_text_inj by auto
    qed
    consider (dot) "source ! n = 46" "turns \<noteq> 0" | (fin) "source ! n = 0" "turns = 0"
      | (bad) "source ! n \<noteq> (if turns = 0 then 0 else 46)" by (cases "turns = 0") auto
    then show ?thesis
    proof cases
      case dot
      have tail: "length bs = Suc turns \<and> c_text source = dotted_octets bs \<longleftrightarrow>
          (\<exists>bs'. bs = b # bs' \<and> length bs' = turns \<and> c_text (drop (Suc n) source) = dotted_octets bs')" for bs
      proof -
        have "c_text source = dotted_octets (b # bs') \<longleftrightarrow> c_text (drop (Suc n) source) = dotted_octets bs'"
          if "length bs' = turns" for bs' using that dot t by (cases bs') (simp_all add: str(1) dotted_octets_Cons)
        then show ?thesis using first [of bs] by (cases bs) auto
      qed
      have "pton4_outcome turns (Suc component) (drop (Suc n) source) dest1 (pton4_loop turns (Suc component) (drop (Suc n) source) dest1)"
        by (rule Suc.IH) (use Suc.prems dot str(2) len in auto)
      then show ?thesis using step True dot len splice_Cons_update [OF c, of b]
        by (auto simp del: pton4_loop.simps simp add: pton4_outcome_def tail dest1_def)
    next
      case fin
      then have s: "c_text source = dotted_octets [b]" using t by (simp add: str(1))
      have "dest1 = splice destination component [b]" using c by (simp add: dest1_def list_update_splice)
      moreover have "pton4_loop (Suc turns) component source destination = Ok (1, dest1)"
        unfolding step using True fin Suc.prems(2) by simp
      moreover have "bs = [b]" if "c_text source = dotted_octets bs" "length bs = Suc turns" for bs
        using first [OF that] that(2) fin by auto
      ultimately show ?thesis using s fin unfolding pton4_outcome_def by (metis length_Cons list.size(3))
    next
      case bad
      have "c_text source \<noteq> dotted_octets bs" if "length bs = Suc turns" for bs
        using first [OF _ that] that bad by (auto split: if_splits)
      moreover have "pton4_loop (Suc turns) component source destination = Ok (0, dest1)"
        unfolding step using True bad Suc.prems(2) by (cases turns) auto
      ultimately show ?thesis using len by (simp del: pton4_loop.simps add: pton4_outcome_reject)
    qed
  qed
qed simp

subsection \<open>Hexadecimal groups\<close>

definition nibble :: "u16 \<Rightarrow> nat \<Rightarrow> u8" where
  "nibble w shift = ucast ((drop_bit shift (ucast w :: u32)) AND 15)"

definition hex_char :: "u8 \<Rightarrow> u8" where
  "hex_char digit = (if digit < 10 then 48 + digit else 97 + digit - 10)"

lemma unat_nibble: "unat (nibble w shift) = unat w div 2 ^ shift mod 16"
  using unat_u16_less [of w] by (simp add: nibble_def unat_ucast_mod unat_bits)

lemma digit_cases:
  assumes "unat (d :: u8) < 16"
  shows "d \<in> {0, 1, 2, 3, 4, 5, 6, 7, 8, 9, 10, 11, 12, 13, 14, 15}"
proof -
  have "d = word_of_nat (unat d)" by simp
  moreover have "n \<in> {0, 1, 2, 3, 4, 5, 6, 7, 8, 9, 10, 11, 12, 13, 14, 15}" if "n < 16" for n :: nat
    using that by (simp add: numeral_eq_Suc less_Suc_eq)
  ultimately show ?thesis using assms by fastforce
qed

lemma hex_char_facts:
  assumes "unat d < 16"
  shows "hex_value (hex_char d) = uint d" "hex_char d \<notin> {0, 46, 58}" "hex_char d = 48 \<longleftrightarrow> d = 0"
  using digit_cases [OF assms] by (auto simp: hex_value_def hex_char_def Let_def)

lemma write_hex_loop_nibble:
  "write_hex_loop (shift # shifts) out w emitted =
     (if emitted \<or> nibble w shift \<noteq> 0 \<or> shift = 0
      then write_hex_loop shifts (out @ [hex_char (nibble w shift)]) w True
      else write_hex_loop shifts out w emitted)"
  by (simp only: write_hex_loop.simps Let_def nibble_def hex_char_def)

lemma write_hex_word_eq:
  "write_hex_word out w =
     out @ (if nibble w 12 \<noteq> 0 then map (\<lambda>s. hex_char (nibble w s)) [12, 8, 4, 0]
            else if nibble w 8 \<noteq> 0 then map (\<lambda>s. hex_char (nibble w s)) [8, 4, 0]
            else if nibble w 4 \<noteq> 0 then map (\<lambda>s. hex_char (nibble w s)) [4, 0] else [hex_char (nibble w 0)])"
  by (simp add: write_hex_word_def write_hex_loop_nibble del: write_hex_loop.simps(2))

definition group_text :: "u16 \<Rightarrow> bytes" where
  "group_text w = write_hex_word [] w"

lemma write_hex_word_text: "write_hex_word out w = out @ group_text w"
  by (simp add: group_text_def write_hex_word_eq)

lemma nibble_hex:
  "hex_value (hex_char (nibble w s)) = uint (nibble w s)" "hex_char (nibble w s) \<noteq> 0" "hex_char (nibble w s) \<noteq> 46"
  "hex_char (nibble w s) \<noteq> 58" "hex_char (nibble w s) = 48 \<longleftrightarrow> nibble w s = 0"
  using hex_char_facts [of "nibble w s"] by (simp_all add: unat_nibble)

lemma unat_nibbles:
  "unat w = 4096 * unat (nibble w 12) + 256 * unat (nibble w 8) + 16 * unat (nibble w 4) + unat (nibble w 0)"
proof -
  have b: "n = 16 * (n div 16) + n mod 16" for n :: nat by simp
  have n: "unat (nibble w 12) = unat w div 4096" "unat (nibble w 8) = unat w div 256 mod 16"
    "unat (nibble w 4) = unat w div 16 mod 16" "unat (nibble w 0) = unat w mod 16"
    using unat_u16_less [of w] by (simp_all add: unat_nibble less_mult_imp_div_less)
  have "unat w div 16 = 16 * (unat w div 256) + unat w div 16 mod 16"
    "unat w div 256 = 16 * (unat w div 4096) + unat w div 256 mod 16"
    using b [of "unat w div 16"] b [of "unat w div 256"] by (simp_all flip: div_mult2_eq)
  then show ?thesis unfolding n using b [of "unat w"] by linarith
qed

lemma group_text_facts:
  "group_text w \<noteq> []" "length (group_text w) \<le> 4" "list_all (\<lambda>b. 0 \<le> hex_value b \<and> b \<notin> {0, 46, 58}) (group_text w)"
  "foldl (\<lambda>v b. 16 * v + hex_value b) 0 (group_text w) = uint w" "hd (group_text w) = 48 \<longleftrightarrow> w = 0"
proof -
  show "group_text w \<noteq> []" "length (group_text w) \<le> 4" by (simp_all add: group_text_def write_hex_word_eq)
  show "list_all (\<lambda>b. 0 \<le> hex_value b \<and> b \<notin> {0, 46, 58}) (group_text w)"
    by (simp add: group_text_def write_hex_word_eq nibble_hex)
  have u: "uint w = 4096 * uint (nibble w 12) + 256 * uint (nibble w 8) + 16 * uint (nibble w 4) + uint (nibble w 0)"
    using arg_cong [OF unat_nibbles [of w], of int] by simp
  show "foldl (\<lambda>v b. 16 * v + hex_value b) 0 (group_text w) = uint w"
    unfolding u by (simp add: group_text_def write_hex_word_eq nibble_hex)
  have z: "w = 0 \<longleftrightarrow> nibble w 12 = 0 \<and> nibble w 8 = 0 \<and> nibble w 4 = 0 \<and> nibble w 0 = 0"
    using unat_nibbles [of w] by (simp add: unat_eq_0 [symmetric])
  show "hd (group_text w) = 48 \<longleftrightarrow> w = 0" unfolding z by (simp add: group_text_def write_hex_word_eq nibble_hex)
qed

lemma group_text_0 [simp]: "group_text 0 = [48]"
  by (simp add: group_text_def write_hex_word_eq nibble_def hex_char_def)

lemma hex_digits_run:
  assumes "list_all (\<lambda>b. 0 \<le> hex_value b) ds" "length ds \<le> left" "hex_value c < 0"
  shows "hex_digits left (pre @ ds @ c # rest) v (length pre) =
     Ok (foldl (\<lambda>v b. 16 * v + hex_value b) v ds, length pre + length ds)"
  using assms
proof (induction left arbitrary: pre ds v)
  case (Suc left)
  show ?case
  proof (cases ds)
    case Nil
    then show ?thesis using assms(3) by (simp add: get_byte_def)
  next
    case (Cons b ds')
    then show ?thesis using Suc.IH [of ds' "pre @ [b]" "16 * v + hex_value b"] Suc.prems
      by (simp add: get_byte_def Let_def)
  qed
qed simp

lemma hex_digits_text:
  assumes "hex_value c < 0"
  shows "hex_digits 4 (group_text w @ c # rest) 0 0 = Ok (uint w, length (group_text w))"
  using hex_digits_run [of "group_text w" 4 c "[]" rest 0] group_text_facts [of w] assms
  by (simp add: list_all_iff)

subsection \<open>Rendering\<close>

definition address_word :: "bytes \<Rightarrow> nat \<Rightarrow> u16" where
  "address_word address i = (push_bit 8 (ucast (address ! (2 * i)))) OR ucast (address ! (2 * i + 1))"

definition address_words :: "bytes \<Rightarrow> u16 list" where
  "address_words address = map (address_word address) [0..<8]"

fun colon_text :: "u16 list \<Rightarrow> bytes" where
  "colon_text [] = []"
| "colon_text [w] = group_text w"
| "colon_text (w # ws) = group_text w @ 58 # colon_text ws"

lemma colon_text_Cons: "ws \<noteq> [] \<Longrightarrow> colon_text (w # ws) = group_text w @ 58 # colon_text ws"
  by (cases ws) auto

lemma colon_text_concat: "colon_text (w # ws) = group_text w @ concat (map (\<lambda>w. 58 # group_text w) ws)"
  by (induction ws arbitrary: w) (simp_all add: colon_text_Cons)

lemma dotted_octets_concat: "dotted_octets (b # bs) = octet_text b @ concat (map (\<lambda>b. 46 # octet_text b) bs)"
  by (induction bs arbitrary: b) (simp_all add: dotted_octets_Cons)

lemma write_ipv4_from_eq:
  "0 \<notin> set is \<Longrightarrow> \<forall>i\<in>set is. i < length address \<Longrightarrow>
   write_ipv4_from is out address = Ok (out @ concat (map (\<lambda>b. 46 # octet_text b) (map ((!) address) is)))"
  by (induction "is" arbitrary: out) (auto simp: get_byte_def write_decimal_octet_eq)

lemma take_4_nth: "4 \<le> length address \<Longrightarrow> take 4 address = [address ! 0, address ! 1, address ! 2, address ! 3]"
  by (auto simp: numeral_eq_Suc Suc_le_length_iff)

lemma write_ipv4_text_eq:
  "4 \<le> length address \<Longrightarrow> write_ipv4_text out address = Ok (out @ dotted_octets (take 4 address))"
  by (cases "address = []") (simp_all add: write_ipv4_text_def write_ipv4_from_eq get_byte_def write_decimal_octet_eq take_4_nth dotted_octets_concat
      del: dotted_octets.simps)

lemma ipv6_word_eq: "2 * i + 1 < length address \<Longrightarrow> ipv6_word address i = Ok (address_word address i)"
  by (simp add: ipv6_word_def get_byte_def address_word_def Let_def mult.commute)

lemma write_words_eq:
  "0 \<notin> set is \<Longrightarrow> \<forall>i\<in>set is. 2 * i + 1 < length address \<Longrightarrow>
   write_words is out address = Ok (out @ concat (map (\<lambda>w. 58 # group_text w) (map (address_word address) is)))"
  by (induction "is" arbitrary: out) (auto simp: ipv6_word_eq write_hex_word_text)

lemma write_words_text:
  assumes "2 * n \<le> length address" "0 < n"
  shows "write_words [0..<n] [] address = Ok (colon_text (map (address_word address) [0..<n]))"
proof -
  have "[0..<n] = 0 # [1..<n]" using assms(2) by (simp add: upt_rec)
  moreover have "write_words [1..<n] out address =
      Ok (out @ concat (map (\<lambda>w. 58 # group_text w) (map (address_word address) [1..<n])))" for out
    by (rule write_words_eq) (use assms in auto)
  ultimately show ?thesis using assms by (simp add: ipv6_word_eq write_hex_word_text colon_text_concat)
qed

lemma ipv4_mapped_from_iff:
  "12 \<le> length address \<Longrightarrow> \<forall>i\<in>set is. i < length address \<Longrightarrow>
   ipv4_mapped_from is address = Ok ((\<forall>i\<in>set is. address ! i = 0) \<and> address ! 10 = 255 \<and> address ! 11 = 255)"
  by (induction "is") (auto simp: get_byte_def)

text \<open>The text before compression: the address words, or six of them and a dotted tail.\<close>

definition plain_words :: "bytes \<Rightarrow> u16 list" where
  "plain_words address = (if ipv4_mapped address = Ok True then [0, 0, 0, 0, 0, 65535] else address_words address)"

definition plain_tail :: "bytes \<Rightarrow> bytes" where
  "plain_tail address = (if ipv4_mapped address = Ok True then 58 # dotted_octets (take 4 (drop 12 address)) else [])"

lemma mapped_words:
  assumes "16 \<le> length address" "ipv4_mapped address = Ok True"
  shows "map (address_word address) [0..<6] = [0, 0, 0, 0, 0, 65535]"
proof -
  have "\<forall>i\<in>set [0..<10]. address ! i = 0" "address ! 10 = 255" "address ! 11 = 255"
    using assms ipv4_mapped_from_iff [of address "[0..<10]"] by (simp_all add: ipv4_mapped_def)
  moreover have "[0..<6] = [0, 1, 2, 3, 4, 5 :: nat]" by code_simp
  ultimately show ?thesis by (simp add: address_word_def)
qed

lemma render_ipv6_eq:
  assumes "16 \<le> length address"
  shows "render_ipv6 address = Ok (colon_text (plain_words address) @ plain_tail address)"
proof -
  obtain m where m: "ipv4_mapped address = Ok m" using ipv4_mapped_from_iff [of address "[0..<10]"] assms by (simp add: ipv4_mapped_def)
  show ?thesis
  proof (cases m)
    case True
    then show ?thesis using m assms write_words_text [of 6 address] mapped_words [OF assms]
      by (simp add: render_ipv6_def plain_words_def plain_tail_def write_ipv4_text_eq)
  next
    case False
    then show ?thesis using m assms write_words_text [of 8 address]
      by (simp add: render_ipv6_def plain_words_def plain_tail_def address_words_def)
  qed
qed

end
