(* ===== verification/InetRender.thy ===== *)
theory InetRender
  imports InetText
begin

text \<open>
  The compression of \<open>inet_ntop\<close> for IPv6: the search for the longest run of colons and zeros on the
  rendered text, the move that closes the gap, and what this means for the groups. A rendered address is the
  groups in full or the groups around one elided run of at least two zero groups.
\<close>

subsection \<open>Compression of the longest zero run\<close>

abbreviation colon_zero :: "u8 \<Rightarrow> bool" where
  "colon_zero b \<equiv> b = 58 \<or> b = 48"

lemma colon_zero_span_eq: "0 \<in> set input \<Longrightarrow> colon_zero_span input = Ok (length (takeWhile colon_zero input))"
  by (induction input) auto

text \<open>A position where the search measures a run, and the length it finds there.\<close>

definition run_at :: "bytes \<Rightarrow> nat \<Rightarrow> nat \<Rightarrow> bool" where
  "run_at t p m \<longleftrightarrow> p < length t \<and> (p = 0 \<or> t ! p = 58) \<and> m = length (takeWhile colon_zero (drop p t))"

lemma find_run_result:
  assumes "0 \<notin> set t" "cursor \<le> length t" "best = 0 \<and> maxrun = 2 \<or> run_at t best maxrun"
  shows "\<exists>best' maxrun'. find_run (t @ 0 # pad) cursor best maxrun = Ok (length t, best', maxrun') \<and>
     (best' = 0 \<and> maxrun' = 2 \<or> run_at t best' maxrun')"
  using assms(2,3)
proof (induction "length t - cursor" arbitrary: cursor best maxrun)
  case 0
  then have "(t @ 0 # pad) ! cursor = 0" "cursor = length t" by (simp_all add: nth_append)
  then show ?case using 0 by (subst find_run.simps) simp
next
  case (Suc k)
  then have c: "cursor < length t" by simp
  then have nz: "t ! cursor \<noteq> 0" using assms(1) by (metis nth_mem)
  have span: "colon_zero_span (drop cursor (t @ 0 # pad)) = Ok (length (takeWhile colon_zero (drop cursor t)))"
  proof -
    have "takeWhile colon_zero (drop cursor t @ 0 # pad) = takeWhile colon_zero (drop cursor t)"
      by (simp add: takeWhile_tail)
    then show ?thesis using c by (subst colon_zero_span_eq) simp_all
  qed
  have ih: "best = 0 \<and> maxrun = 2 \<or> run_at t best maxrun \<Longrightarrow>
     \<exists>best' maxrun'. find_run (t @ 0 # pad) (Suc cursor) best maxrun = Ok (length t, best', maxrun') \<and>
     (best' = 0 \<and> maxrun' = 2 \<or> run_at t best' maxrun')" for best maxrun
    using Suc.hyps(1) [of "Suc cursor" best maxrun] Suc.hyps(2) c by simp
  show ?case
  proof (cases "cursor = 0 \<or> t ! cursor = 58")
    case True
    then have "run_at t cursor (length (takeWhile colon_zero (drop cursor t)))" using c by (simp add: run_at_def)
    then show ?thesis using True c nz span ih Suc.prems(2) by (subst find_run.simps) (simp add: nth_append)
  next
    case False
    then show ?thesis using c nz ih Suc.prems(2) by (subst find_run.simps) (simp add: nth_append)
  qed
qed

lemma move_left_eq:
  "to_index \<le> from_index \<Longrightarrow> from_index + count \<le> length buffer \<Longrightarrow>
   move_left count from_index to_index buffer = Ok (splice buffer to_index (take count (drop from_index buffer)))"
proof (induction count arbitrary: from_index to_index buffer)
  case (Suc count)
  let ?b = "buffer[to_index := buffer ! from_index]"
  have "drop (Suc from_index) ?b = drop (Suc from_index) buffer" using Suc.prems by simp
  moreover have "take (Suc count) (drop from_index buffer) = buffer ! from_index # take count (drop (Suc from_index) buffer)"
    using Suc.prems by (simp add: take_Suc_conv_app_nth flip: Cons_nth_drop_Suc)
  moreover have "move_left count (Suc from_index) (Suc to_index) ?b = Ok (splice ?b (Suc to_index) (take count (drop (Suc from_index) ?b)))"
    by (rule Suc.IH) (use Suc.prems in auto)
  ultimately show ?case using Suc.prems splice_Cons_update [of to_index buffer]
    by (simp add: get_byte_def put_byte_def)
qed (simp add: splice_def)

text \<open>What compression makes of a text: itself, or the text with one measured run replaced by \<open>::\<close>.\<close>

definition compressed :: "bytes \<Rightarrow> bytes \<Rightarrow> bool" where
  "compressed t t' \<longleftrightarrow> t' = t \<or>
     (\<exists>p m. run_at t p m \<and> 3 < m \<and> t' = take p t @ [58, 58] @ drop (p + m) t)"

lemma compress_run_result:
  assumes "0 \<notin> set t"
  shows "\<exists>t' pad'. compress_run (t @ 0 # pad) = Ok (t' @ 0 # pad') \<and> compressed t t' \<and> length (t' @ 0 # pad') = length (t @ 0 # pad)"
proof -
  from find_run_result [OF assms, of 0 0 2 pad] obtain p m where
    r: "find_run (t @ 0 # pad) 0 0 2 = Ok (length t, p, m)" "p = 0 \<and> m = 2 \<or> run_at t p m" by auto
  show ?thesis
  proof (cases "3 < m")
    case True
    with r(2) have run: "run_at t p m" by auto
    then have m: "m \<le> length t - p" using length_takeWhile_le [of colon_zero "drop p t"] by (simp add: run_at_def)
    have p: "p + 3 < length t" using m True by linarith
    define b where "b = splice (t @ 0 # pad) p [58, 58]"
    have b: "(t @ 0 # pad)[p := 58, p + 1 := 58] = b"
      using p splice_Cons_update [of p "t @ 0 # pad" 58 "[58]"] list_update_splice [of "Suc p" "(t @ 0 # pad)[p := 58]" 58] by (simp add: b_def)
    have d: "drop (p + m) b = drop (p + m) t @ 0 # pad" 
    proof -
      have "b = (take p t @ [58, 58]) @ drop (p + 2) t @ 0 # pad" using p by (simp add: b_def splice_def)
      moreover have "p + m = length (take p t @ [58, 58]) + (m - 2)" using True p by simp
      moreover have "drop (length xs + k) (xs @ ys) = drop k ys" for xs ys :: bytes and k by simp
      ultimately have "drop (p + m) b = drop (m - 2) (drop (p + 2) t @ 0 # pad)" by (simp only:)
      moreover have "p + 2 + (m - 2) = p + m" "m - 2 \<le> length t - (p + 2)" using True m by linarith+
      ultimately show ?thesis by (simp only: drop_append drop_drop length_drop add.commute [of "m - 2"]) simp
    qed
    define n where "n = length t - p - m + 1"
    have "take n (drop (p + m) b) = drop (p + m) t @ [0]" unfolding d using m p by (simp add: n_def)
    moreover have "move_left n (p + m) (p + 2) b = Ok (splice b (p + 2) (take n (drop (p + m) b)))"
      by (rule move_left_eq) (use True m p in \<open>auto simp: b_def n_def\<close>)
    moreover have "splice b (p + 2) (drop (p + m) t @ [0]) = (take p t @ [58, 58] @ drop (p + m) t) @ 0 # drop (p + 2 + n) b"
    proof -
      have "take (p + 2) b = take p t @ [58, 58]" using p by (simp add: b_def splice_def)
      moreover have "length (drop (p + m) t @ [0]) = n" by (simp add: n_def)
      ultimately show ?thesis by (simp add: splice_def)
    qed
    moreover have "compress_run (t @ 0 # pad) = move_left n (p + m) (p + 2) b"
      using r(1) True p b unfolding compress_run_def n_def [symmetric] by (simp add: put_byte_def n_def)
    ultimately have "compress_run (t @ 0 # pad) = Ok ((take p t @ [58, 58] @ drop (p + m) t) @ 0 # drop (p + 2 + n) b)" by simp
    moreover have "compressed t (take p t @ [58, 58] @ drop (p + m) t)" using run True by (auto simp: compressed_def)
    moreover have "length ((take p t @ [58, 58] @ drop (p + m) t) @ 0 # drop (p + 2 + n) b) = length (t @ 0 # pad)"
      using m p True by (simp add: b_def n_def)
    ultimately show ?thesis by blast
  next
    case False
    then show ?thesis using r(1) by (auto simp: compress_run_def compressed_def)
  qed
qed

text \<open>
  What may follow the groups: nothing, or a colon and a tail without colons, after a last group
  that is not zero and such that the tail has no long run.
\<close>

definition tail_ok :: "u16 list \<Rightarrow> bytes \<Rightarrow> bool" where
  "tail_ok ws s \<longleftrightarrow> s = [] \<or>
     last ws \<noteq> 0 \<and> hd s = 58 \<and> 58 \<notin> set (tl s) \<and> length (takeWhile colon_zero s) \<le> 3"

lemma group_text_no_colon: "58 \<notin> set (group_text w)" "0 \<notin> set (group_text w)" "46 \<notin> set (group_text w)"
  using group_text_facts(3) [of w] by (auto simp: list_all_iff)

lemma colon_position:
  assumes "ws \<noteq> []" "s = [] \<or> hd s = 58 \<and> 58 \<notin> set (tl s)" "p < length (colon_text ws @ s)" "(colon_text ws @ s) ! p = 58"
  shows "\<exists>us vs. ws = us @ vs \<and> us \<noteq> [] \<and> take p (colon_text ws @ s) = colon_text us \<and>
     drop p (colon_text ws @ s) = (if vs = [] then s else 58 # colon_text vs @ s)"
  using assms
proof (induction ws arbitrary: p rule: list_nonempty_induct)
  case (single w)
  let ?h = "group_text w"
  have p: "length ?h \<le> p"
    using single.prems group_text_no_colon(1) [of w] by (metis colon_text.simps(2) not_le nth_append nth_mem)
  have "p = length ?h"
  proof (rule ccontr)
    assume "p \<noteq> length ?h"
    with p single.prems obtain s' where s: "s = 58 # s'" "58 \<notin> set s'" "p - Suc (length ?h) < length s'" "s' ! (p - Suc (length ?h)) = 58"
      by (cases s) (auto simp: nth_append nth_Cons' split: if_splits)
    then show False by (metis nth_mem)
  qed
  then show ?case by (intro exI [of _ "[w]"] exI [of _ "[]"]) simp
next
  case (cons w ws)
  let ?h = "group_text w" and ?t = "colon_text ws @ s"
  have t: "colon_text (w # ws) @ s = ?h @ 58 # ?t" using cons.hyps by (simp add: colon_text_Cons)
  have p: "length ?h \<le> p"
    using cons.prems(3) group_text_no_colon(1) [of w] unfolding t by (metis not_le nth_append nth_mem)
  show ?case
  proof (cases "p = length ?h")
    case True
    then show ?thesis unfolding t using cons.hyps by (intro exI [of _ "[w]"] exI [of _ ws]) simp
  next
    case False
    with p obtain q where q: "p = length ?h + Suc q" by (metis le_Suc_ex less_iff_Suc_add le_neq_implies_less add_Suc_right)
    then have "q < length ?t" "?t ! q = 58" using cons.prems(2,3) unfolding t by (simp_all add: nth_append)
    from cons.IH [OF cons.prems(1) this] obtain us vs where
      uv: "ws = us @ vs" "us \<noteq> []" "take q ?t = colon_text us" "drop q ?t = (if vs = [] then s else 58 # colon_text vs @ s)" by blast
    have "take p (?h @ 58 # ?t) = ?h @ 58 # take q ?t" "drop p (?h @ 58 # ?t) = drop q ?t" by (simp_all add: q)
    then show ?thesis unfolding t using uv by (intro exI [of _ "w # us"] exI [of _ vs]) (simp add: colon_text_Cons)
  qed
qed

lemma tail_ok_Cons: "ws \<noteq> [] \<Longrightarrow> tail_ok (w # ws) s = tail_ok ws s"
  by (simp add: tail_ok_def)

lemma group_text_stop:
  assumes "w \<noteq> 0"
  shows "takeWhile colon_zero (group_text w @ r) = []" "dropWhile colon_zero (group_text w @ r) = group_text w @ r"
  using group_text_facts(1,5) [of w] group_text_no_colon(1) [of w] assms by (cases "group_text w"; auto)+

text \<open>The run at the start of a group swallows exactly the zero groups.\<close>

lemma zero_run:
  assumes "ws \<noteq> []" "tail_ok ws s"
  shows "dropWhile colon_zero (colon_text ws @ s) = colon_text (dropWhile (\<lambda>w. w = 0) ws) @ s"
    and "length (takeWhile colon_zero (colon_text ws @ s)) \<le> 2 * length (takeWhile (\<lambda>w. w = 0) ws)"
    and "dropWhile (\<lambda>w. w = 0) ws = [] \<Longrightarrow> s = []"
  using assms
proof (induction ws rule: list_nonempty_induct)
  case (single w)
  {
    case 1 then show ?case by (cases "w = 0") (auto simp: tail_ok_def group_text_stop)
  next
    case 2 then show ?case by (cases "w = 0") (auto simp: tail_ok_def group_text_stop)
  next
    case 3 then show ?case by (auto simp: tail_ok_def split: if_splits)
  }
next
  case (cons w ws)
  {
    case 1 then show ?case using cons by (cases "w = 0") (simp_all add: colon_text_Cons group_text_stop tail_ok_Cons)
  next
    case 2 then show ?case using cons by (cases "w = 0") (simp_all add: colon_text_Cons group_text_stop tail_ok_Cons)
  next
    case 3 then show ?case using cons by (auto simp: tail_ok_Cons split: if_splits)
  }
qed

lemma run_words:
  assumes "ws \<noteq> []" "tail_ok ws s" "run_at (colon_text ws @ s) p m" "3 < m"
  shows "\<exists>us k vs. ws = us @ replicate k 0 @ vs \<and> 2 \<le> k \<and> (vs = [] \<longrightarrow> s = []) \<and>
     take p (colon_text ws @ s) @ [58, 58] @ drop (p + m) (colon_text ws @ s) = colon_text us @ [58, 58] @ colon_text vs @ s"
proof -
  let ?t = "colon_text ws @ s"
  have d: "drop (p + m) ?t = dropWhile colon_zero (drop p ?t)" and m: "m = length (takeWhile colon_zero (drop p ?t))"
    using assms(3) unfolding run_at_def dropWhile_eq_drop by (simp_all only: drop_drop add.commute)
  have split: "\<exists>us vs. ws = us @ vs \<and> vs \<noteq> [] \<and> take p ?t = colon_text us \<and> drop p ?t = (if us = [] then [] else [58]) @ colon_text vs @ s"
  proof (cases "p = 0")
    case True
    then show ?thesis using assms(1) by (intro exI [of _ "[]"] exI [of _ ws]) simp
  next
    case False
    have "s = [] \<or> hd s = 58 \<and> 58 \<notin> set (tl s)" using assms(2) by (auto simp: tail_ok_def)
    moreover have "p < length ?t" "?t ! p = 58" using assms(3) False unfolding run_at_def by simp_all
    ultimately obtain us vs where uv: "ws = us @ vs" "us \<noteq> []" "take p ?t = colon_text us" "drop p ?t = (if vs = [] then s else 58 # colon_text vs @ s)"
      using colon_position [OF assms(1), of s p] by blast
    have "vs \<noteq> []" using uv(4) m assms(2,4) by (auto simp: tail_ok_def)
    with uv show ?thesis by (intro exI [of _ us] exI [of _ vs]) simp
  qed
  then obtain us vs where uv: "ws = us @ vs" "vs \<noteq> []" "take p ?t = colon_text us"
    "drop p ?t = (if us = [] then [] else [58]) @ colon_text vs @ s" by blast
  have ok: "tail_ok vs s" using assms(2) uv(1,2) by (simp add: tail_ok_def)
  note z = zero_run [OF uv(2) ok]
  define k where "k = length (takeWhile (\<lambda>w. w = 0) vs)"
  have "replicate k 0 = takeWhile (\<lambda>w. w = 0) vs"
    unfolding k_def by (rule replicate_length_same) (auto dest: set_takeWhileD)
  then have "vs = replicate k 0 @ dropWhile (\<lambda>w. w = 0) vs" by simp
  moreover have "2 \<le> k" using m assms(4) z(2) unfolding uv(4) k_def by (auto split: if_splits)
  moreover have "drop (p + m) ?t = colon_text (dropWhile (\<lambda>w. w = 0) vs) @ s"
    unfolding d uv(4) using z(1) by simp
  ultimately show ?thesis using uv(1,3) z(3) by (metis append_assoc)
qed

lemma length_colon_text: "ws \<noteq> [] \<Longrightarrow> length (colon_text ws) < 5 * length ws"
proof (induction ws rule: list_nonempty_induct)
  case (single w)
  then show ?case using group_text_facts(2) [of w] by simp
next
  case (cons w ws)
  then show ?case using group_text_facts(2) [of w] by (simp add: colon_text_Cons)
qed

lemma octet_text_facts:
  "octet_text b \<noteq> []" "length (octet_text b) \<le> 3" "list_all decimal_digit (octet_text b)" "1 < length (octet_text b) \<Longrightarrow> hd (octet_text b) \<noteq> 48"
  using octet_text_ok(1) [of b] by (simp_all add: octet_digits_ok_def)

lemma length_dotted_octets: "bs \<noteq> [] \<Longrightarrow> length (dotted_octets bs) < 4 * length bs"
proof (induction bs rule: list_nonempty_induct)
  case (single b)
  then show ?case using octet_text_facts(2) [of b] by simp
next
  case (cons b bs)
  then show ?case using octet_text_facts(2) [of b] by (simp add: dotted_octets_Cons)
qed

lemma dotted_octets_bytes: "b \<in> set (dotted_octets bs) \<Longrightarrow> decimal_digit b \<or> b = 46"
proof (induction bs)
  case (Cons a bs)
  then show ?case using octet_text_facts(3) [of a] by (cases "bs = []") (auto simp: dotted_octets_Cons list_all_iff)
qed simp

lemma colon_text_bytes: "b \<in> set (colon_text ws) \<Longrightarrow> b \<noteq> 0"
proof (induction ws)
  case (Cons w ws)
  then show ?case using group_text_no_colon(2) [of w] by (cases "ws = []") (auto simp: colon_text_Cons)
qed simp

lemma dotted_no_run: "length (takeWhile colon_zero (dotted_octets (b # bs))) \<le> 1"
proof -
  obtain r where r: "dotted_octets (b # bs) = octet_text b @ r" "r = [] \<or> hd r = 46"
    by (cases "bs = []") (auto simp: dotted_octets_Cons)
  obtain c ds where c: "octet_text b = c # ds" using octet_text_facts(1) [of b] by (cases "octet_text b") auto
  have "c \<noteq> 58" using octet_text_facts(3) [of b] by (auto simp: c)
  moreover have "ds = [] \<or> c \<noteq> 48" using octet_text_facts(4) [of b] by (auto simp: c)
  ultimately show ?thesis using r by (cases r) (auto simp: c)
qed

lemma plain_facts:
  assumes "16 \<le> length address"
  shows "plain_words address \<noteq> []" "tail_ok (plain_words address) (plain_tail address)"
    "0 \<notin> set (colon_text (plain_words address) @ plain_tail address)"
    "length (colon_text (plain_words address) @ plain_tail address) \<le> 45"
proof -
  have four: "take 4 (drop 12 address) = [address ! 12, address ! 13, address ! 14, address ! 15]"
    using assms take_4_nth [of "drop 12 address"] by simp
  have d: "58 \<notin> set (dotted_octets bs)" "0 \<notin> set (dotted_octets bs)" for bs using dotted_octets_bytes by fastforce+
  show "plain_words address \<noteq> []" by (simp add: plain_words_def address_words_def)
  show "tail_ok (plain_words address) (plain_tail address)"
    using dotted_no_run [of "address ! 12" "[address ! 13, address ! 14, address ! 15]"] d by (auto simp: tail_ok_def plain_words_def plain_tail_def four simp del: dotted_octets.simps)
  show "0 \<notin> set (colon_text (plain_words address) @ plain_tail address)"
    using colon_text_bytes d by (auto simp: plain_tail_def simp del: dotted_octets.simps colon_text.simps)
  have "length (dotted_octets (take 4 (drop 12 address))) < 16" using length_dotted_octets [of "take 4 (drop 12 address)"] four by simp
  moreover have "length (colon_text [0, 0, 0, 0, 0, 65535]) < 30" using length_colon_text [of "[0, 0, 0, 0, 0, 65535]"] by simp
  moreover have "length (colon_text (address_words address)) < 40" using length_colon_text [of "address_words address"] by (simp add: address_words_def)
  ultimately show "length (colon_text (plain_words address) @ plain_tail address) \<le> 45"
    by (simp add: plain_words_def plain_tail_def del: colon_text.simps dotted_octets.simps)
qed

text \<open>The forms a rendered IPv6 address can have: the groups, or the groups around one elided run.\<close>

definition ipv6_form :: "u16 list \<Rightarrow> bytes \<Rightarrow> bytes \<Rightarrow> bool" where
  "ipv6_form ws s t \<longleftrightarrow> t = colon_text ws @ s \<or>
     (\<exists>us k vs. ws = us @ replicate k 0 @ vs \<and> 2 \<le> k \<and> (vs = [] \<longrightarrow> s = []) \<and>
        t = colon_text us @ [58, 58] @ colon_text vs @ s)"

lemma compressed_bytes: "compressed t t' \<Longrightarrow> 0 \<notin> set t \<Longrightarrow> 0 \<notin> set t' \<and> length t' \<le> length t"
proof -
  assume c: "compressed t t'" and z: "0 \<notin> set t"
  have "m \<le> length t - p" if "run_at t p m" for p m
    using that length_takeWhile_le [of colon_zero "drop p t"] by (simp add: run_at_def)
  then show ?thesis using c z unfolding compressed_def
    by (fastforce dest: in_set_takeD in_set_dropD)
qed

lemma ipv6_rendering:
  assumes "16 \<le> length address"
  shows "\<exists>t pad. and_then (render_ipv6 address) (\<lambda>text. and_then (local_buffer 100 text) compress_run) = Ok (t @ 0 # pad) \<and>
     ipv6_form (plain_words address) (plain_tail address) t \<and> 0 \<notin> set t \<and> length t \<le> 45"
proof -
  define T where "T = colon_text (plain_words address) @ plain_tail address"
  note plain = plain_facts [OF assms, folded T_def]
  have r: "render_ipv6 address = Ok T" using render_ipv6_eq [OF assms] by (simp add: T_def)
  have b: "local_buffer 100 T = Ok (T @ 0 # replicate (99 - length T) 0)"
    using plain(4) by (simp add: local_buffer_def put_range_def splice_0)
  from compress_run_result [OF plain(3), of "replicate (99 - length T) 0"] obtain t pad where
    c: "compress_run (T @ 0 # replicate (99 - length T) 0) = Ok (t @ 0 # pad)" "compressed T t" by blast
  have "ipv6_form (plain_words address) (plain_tail address) t"
    using c(2) run_words [OF plain(1,2), folded T_def] unfolding compressed_def ipv6_form_def T_def [symmetric] by metis
  moreover have "0 \<notin> set t" "length t \<le> 45" using compressed_bytes [OF c(2) plain(3)] plain(4) by auto
  ultimately show ?thesis using r b c(1) by auto
qed

end
