(* ===== verification/InetParse.thy ===== *)
theory InetParse
  imports InetRender
begin

text \<open>
  The IPv6 parser: how \<open>inet_pton_ipv6\<close> reads groups, the gap and a dotted tail, how the gap is expanded
  and the words stored; that it reads back every text \<open>inet_ntop\<close> renders; and that on any
  NUL-terminated source it stays inside its buffers.
\<close>

subsection \<open>Parsing the groups\<close>

lemma hex_value_stops: "hex_value 0 < 0" "hex_value 46 < 0" "hex_value 58 < 0"
  by (simp_all add: hex_value_def)

lemma pton6_group:
  assumes "list_all (\<lambda>b. 0 \<le> hex_value b) ds" "ds \<noteq> []" "length ds \<le> 4" "hex_value c < 0" "index < 8"
  shows "\<exists>v. hex_digits 4 (ds @ c # rest) 0 0 = Ok (v, length ds) \<and>
     pton6_loop (ds @ c # rest) words index br =
      (let words = words[index := word_of_int v] in
       if c = 0 \<and> (br \<noteq> None \<or> index = 7) then Ok (Scanned (ds @ c # rest) words index br False)
       else if index = 7 then Ok Reject
       else if c \<noteq> 58 then
         if c \<noteq> 46 \<or> (index < 6 \<and> br = None) then Ok Reject
         else Ok (Scanned (ds @ c # rest) (words[(index + 1) mod 8 := 0]) (index + 1) br True)
       else pton6_loop rest words (index + 1) br)"
proof -
  obtain b ds' where ds: "ds = b # ds'" using assms(2) by (cases ds) auto
  have b: "b \<noteq> 58" using assms(1) hex_value_stops(3) by (auto simp: ds)
  note digits = hex_digits_run [OF assms(1,3,4), of "[]" rest 0, simplified]
  have nth: "(ds @ c # rest) ! length ds = c" by simp
  have tail: "drop (length ds + 1) (ds @ c # rest) = rest" by simp
  show ?thesis
    apply (intro exI conjI, rule digits)
    apply (subst pton6_loop.simps)
    using b assms(2,5) unfolding ds list.case append_Cons
    unfolding append_Cons [symmetric] ds [symmetric] digits outcome.case prod.case nth tail Let_def
    by (simp add: ds)
qed

lemma group_text_hex: "list_all (\<lambda>b. 0 \<le> hex_value b) (group_text w)"
  using group_text_facts(3) [of w] by (simp add: list_all_iff)

lemma pton6_word:
  assumes "hex_value c < 0" "index < 8"
  shows "pton6_loop (group_text w @ c # rest) words index br =
      (let words = words[index := w] in
       if c = 0 \<and> (br \<noteq> None \<or> index = 7) then Ok (Scanned (group_text w @ c # rest) words index br False)
       else if index = 7 then Ok Reject
       else if c \<noteq> 58 then
         if c \<noteq> 46 \<or> (index < 6 \<and> br = None) then Ok Reject
         else Ok (Scanned (group_text w @ c # rest) (words[(index + 1) mod 8 := 0]) (index + 1) br True)
       else pton6_loop rest words (index + 1) br)"
proof -
  from pton6_group [OF group_text_hex group_text_facts(1,2) assms, of w rest words br] hex_digits_text [OF assms(1), of w rest]
  obtain v where v: "v = uint w" and e: "pton6_loop (group_text w @ c # rest) words index br =
      (let words = words[index := word_of_int v] in
       if c = 0 \<and> (br \<noteq> None \<or> index = 7) then Ok (Scanned (group_text w @ c # rest) words index br False)
       else if index = 7 then Ok Reject
       else if c \<noteq> 58 then
         if c \<noteq> 46 \<or> (index < 6 \<and> br = None) then Ok Reject
         else Ok (Scanned (group_text w @ c # rest) (words[(index + 1) mod 8 := 0]) (index + 1) br True)
       else pton6_loop rest words (index + 1) br)" by auto
  show ?thesis using e by (simp add: v)
qed

abbreviation groups :: "u16 list \<Rightarrow> bytes" where
  "groups ws \<equiv> concat (map (\<lambda>w. group_text w @ [58]) ws)"

lemma colon_text_groups: "ws \<noteq> [] \<Longrightarrow> colon_text ws @ 58 # r = groups ws @ r"
  by (induction ws rule: list_nonempty_induct) (simp_all add: colon_text_Cons)

lemma colon_text_snoc: "colon_text (ws @ [w]) = groups ws @ group_text w"
  by (induction ws) (simp_all add: colon_text_Cons)

lemma pton6_groups:
  "index + length ws \<le> 7 \<Longrightarrow> length words = 8 \<Longrightarrow>
   pton6_loop (groups ws @ rest) words index br = pton6_loop rest (splice words index ws) (index + length ws) br"
proof (induction ws arbitrary: index words)
  case Nil
  then show ?case by (simp add: splice_def)
next
  case (Cons w ws)
  then show ?case using pton6_word [OF hex_value_stops(3), of index w "groups ws @ rest" words br] splice_Cons_update [of index words w ws]
    by simp
qed

lemma pton6_end:
  assumes "vs \<noteq> []" "index + length vs \<le> 8" "br \<noteq> None \<or> index + length vs = 8" "length words = 8"
  shows "\<exists>src. pton6_loop (colon_text vs @ 0 # r) words index br = Ok (Scanned src (splice words index vs) (index + length vs - 1) br False)"
proof -
  obtain us v where vs: "vs = us @ [v]" using assms(1) by (cases vs rule: rev_cases) auto
  have "(splice words index us)[index + length us := v] = splice words index vs"
    using splice_splice [of index us "[v]" words] assms(2,4) by (simp add: vs list_update_splice)
  then show ?thesis using pton6_groups [of index us words "group_text v @ 0 # r" br] assms
      pton6_word [OF hex_value_stops(1), of "index + length us" v r "splice words index us" br]
    by (auto simp: vs colon_text_snoc)
qed

lemma octet_text_hex: "list_all (\<lambda>b. 0 \<le> hex_value b) (octet_text b)"
  using octet_text_facts(3) [of b] by (auto simp: list_all_iff decimal_digit_def hex_value_def)

lemma pton6_dotted:
  assumes "index \<le> 6" "br \<noteq> None \<or> index = 6" "bs \<noteq> []"
  shows "\<exists>v. pton6_loop (dotted_octets (b # bs) @ r) words index br =
     Ok (Scanned (dotted_octets (b # bs) @ r) (words[index := v, index + 1 := 0]) (index + 1) br True)"
  using pton6_group [OF octet_text_hex octet_text_facts(1) _ hex_value_stops(2), of b index "dotted_octets bs @ r" words br]
    octet_text_facts(2) [of b] assms by (auto simp: dotted_octets_Cons Let_def)

subsection \<open>Expanding the gap and storing the words\<close>

lemma move_words_eq:
  "f \<le> t \<Longrightarrow> t + n \<le> length words \<Longrightarrow> move_words n f t words = Ok (splice words t (take n (drop f words)))"
proof (induction n arbitrary: words)
  case (Suc n)
  let ?w = "words[t + n := words ! (f + n)]"
  have "take n (drop f ?w) = take n (drop f words)" using Suc.prems by (intro nth_equalityI) auto
  moreover have "move_words n f t ?w = Ok (splice ?w t (take n (drop f ?w)))"
    by (rule Suc.IH) (use Suc.prems in auto)
  moreover have "splice ?w t (take n (drop f words)) = splice words t (take (Suc n) (drop f words))"
    using Suc.prems by (intro nth_equalityI) (auto simp: nth_splice nth_list_update take_Suc_conv_app_nth nth_append min_def)
  ultimately show ?case using Suc.prems by (simp add: get_byte_def)
qed (simp add: splice_def)

lemma zero_words_eq:
  "k \<le> n \<Longrightarrow> b + n \<le> length words \<Longrightarrow> zero_words [k..<n] b words = Ok (splice words (b + k) (replicate (n - k) 0))"
proof (induction "n - k" arbitrary: k words)
  case (Suc d)
  then have "[k..<n] = k # [Suc k..<n]" "n - k = Suc (n - Suc k)" by (simp_all add: upt_rec)
  then show ?case using Suc.hyps(1) [of "Suc k" "words[b + k := 0]"] Suc.hyps(2) Suc.prems splice_Cons_update [of "b + k" words 0]
    by (simp add: upt_rec)
qed (simp add: splice_def)

lemma expand_gap_eq:
  assumes "length words = 8" "b \<le> index" "index \<le> 7"
  shows "expand_gap (Some b) index words = Ok (take b words @ replicate (7 - index) 0 @ take (index + 1 - b) (drop b words))"
proof -
  define moved where "moved = take (index + 1 - b) (drop b words)"
  have l: "length moved = index + 1 - b" using assms by (simp add: moved_def)
  have m: "move_words (index + 1 - b) b (b + 7 - index) words = Ok (splice words (b + 7 - index) moved)"
    unfolding moved_def by (rule move_words_eq) (use assms in auto)
  have s: "splice words (b + 7 - index) moved = take (b + 7 - index) words @ moved"
    using assms l by (simp add: splice_def)
  have "zero_words [0..<7 - index] b (take (b + 7 - index) words @ moved) =
      Ok (splice (take (b + 7 - index) words @ moved) b (replicate (7 - index) 0))"
    using zero_words_eq [of 0 "7 - index" b "take (b + 7 - index) words @ moved"] assms l by simp
  moreover have "splice (take (b + 7 - index) words @ moved) b (replicate (7 - index) 0) = take b words @ replicate (7 - index) 0 @ moved"
  proof -
    have "b + 7 - index = b + (7 - index)" using assms(3) by simp
    then show ?thesis using assms by (simp add: splice_def)
  qed
  ultimately show ?thesis using m s unfolding moved_def [symmetric] by (simp add: expand_gap_def)
qed

definition word_bytes :: "u16 \<Rightarrow> bytes" where
  "word_bytes w = [ucast (drop_bit 8 w), ucast w]"

lemma length_word_bytes: "length (concat (map word_bytes ws)) = 2 * length ws"
  by (induction ws) (simp_all add: word_bytes_def)

lemma store_words_eq:
  "k \<le> length words \<Longrightarrow> 2 * length words \<le> length destination \<Longrightarrow>
   store_words [k..<length words] words destination = Ok (splice destination (2 * k) (concat (map word_bytes (drop k words))))"
proof (induction "length words - k" arbitrary: k destination)
  case (Suc d)
  then have u: "[k..<length words] = k # [Suc k..<length words]" "drop k words = words ! k # drop (Suc k) words"
    by (simp_all add: upt_rec Cons_nth_drop_Suc)
  let ?w = "words ! k"
  show ?case using Suc.hyps(1) [of "Suc k" "destination[2 * k := ucast (drop_bit 8 ?w), Suc (2 * k) := ucast ?w]"] Suc.hyps(2) Suc.prems
      splice_Cons_update [of "2 * k" destination "ucast (drop_bit 8 ?w)"]
      splice_Cons_update [of "Suc (2 * k)" "destination[2 * k := ucast (drop_bit 8 ?w)]" "ucast ?w"]
    by (simp add: u get_byte_def put_byte_def word_bytes_def mult.commute)
qed (simp add: splice_def)

lemma word_bytes_address: "word_bytes (address_word address i) = [address ! (2 * i), address ! (2 * i + 1)]"
proof -
  let ?h = "address ! (2 * i)" and ?l = "address ! (2 * i + 1)"
  have "unat (push_bit 8 (ucast ?h) :: u16) = 256 * unat ?h" "unat (ucast ?l :: u16) = unat ?l"
    using unat_u8_less [of ?h] unat_u8_less [of ?l] by (simp_all add: unat_ucast_mod push_bit_eq_mult unat_word_ariths)
  then have "unat (address_word address i) = 256 * unat ?h + unat ?l"
    unfolding address_word_def using unat_u8_less [of ?l] unat_or_disjoint [of "ucast ?l :: u16" 8 "push_bit 8 (ucast ?h)"] by simp
  then show ?thesis using unat_u8_less [of ?h] unat_u8_less [of ?l]
    by (simp add: word_bytes_def word_unat_eq_iff unat_ucast_mod unat_bits)
qed

lemma address_bytes:
  assumes "16 \<le> length address"
  shows "concat (map word_bytes (address_words address)) = take 16 address"
proof (intro nth_equalityI)
  have u: "[0..<8] = [0, 1, 2, 3, 4, 5, 6, 7 :: nat]" by code_simp
  have c: "concat (map word_bytes (address_words address)) = map ((!) address) [0, 1, 2, 3, 4, 5, 6, 7, 8, 9, 10, 11, 12, 13, 14, 15]"
    by (simp add: address_words_def u word_bytes_address)
  have e: "[0, 1, 2, 3, 4, 5, 6, 7, 8, 9, 10, 11, 12, 13, 14, 15 :: nat] = [0..<16]" by code_simp
  show "length (concat (map word_bytes (address_words address))) = length (take 16 address)" using assms unfolding c e by simp
  show "concat (map word_bytes (address_words address)) ! i = take 16 address ! i"
    if "i < length (concat (map word_bytes (address_words address)))" for i using that assms unfolding c e by simp
qed

subsection \<open>Reading back a rendered address\<close>

text \<open>The groups and the tail that describe an address: eight groups, or six and four dotted octets.\<close>

definition ipv6_parts :: "u16 list \<Rightarrow> bytes \<Rightarrow> bytes \<Rightarrow> bool" where
  "ipv6_parts ws d s \<longleftrightarrow> (s = [] \<and> d = [] \<and> length ws = 8) \<or> (s = 58 # dotted_octets d \<and> length d = 4 \<and> length ws = 6)"

text \<open>A scan that stands for these parts.\<close>

definition ipv6_scan :: "u16 list \<Rightarrow> bytes \<Rightarrow> bytes \<Rightarrow> scan6 \<Rightarrow> bool" where
  "ipv6_scan ws s r sc \<longleftrightarrow> (\<exists>src words index br extra. sc = Scanned src words index br (s \<noteq> []) \<and>
     expand_gap br index words = Ok (ws @ extra) \<and> length (ws @ extra) = 8 \<and> (s \<noteq> [] \<longrightarrow> src = tl s @ 0 # r))"

lemma length_4_split: "length d = 4 \<Longrightarrow> \<exists>a b. d = a # b \<and> b \<noteq> []"
  by (cases d) auto

lemma splice_full: "length ws \<le> n \<Longrightarrow> splice (replicate n x) 0 ws = ws @ replicate (n - length ws) x"
  by (simp add: splice_0)

lemma scan6_plain:
  assumes "ipv6_parts ws d s"
  shows "\<exists>sc. pton6_loop (colon_text ws @ s @ 0 # r) (replicate 8 0) 0 None = Ok sc \<and> ipv6_scan ws s r sc"
  using assms unfolding ipv6_parts_def
proof (elim disjE conjE)
  assume s: "s = []" and l: "length ws = 8"
  have "ws \<noteq> []" using l by auto
  then show ?thesis using pton6_end [of ws 0 None "replicate 8 0" r] s l
    by (auto simp: ipv6_scan_def splice_full expand_gap_def)
next
  assume s: "s = 58 # dotted_octets d" and d: "length d = 4" and l: "length ws = 6"
  obtain a b where ab: "d = a # b" "b \<noteq> []" using length_4_split [OF d] by blast
  have w: "splice (replicate 8 0) 0 ws = ws @ [0, 0]" using splice_full [of ws 8 0] l by (simp add: numeral_2_eq_2)
  have ne: "ws \<noteq> []" using l by auto
  obtain v where "pton6_loop (dotted_octets d @ 0 # r) (ws @ [0, 0]) 6 None =
      Ok (Scanned (dotted_octets d @ 0 # r) ((ws @ [0, 0])[6 := v, 7 := 0]) 7 None True)"
    using pton6_dotted [of 6 None b a "0 # r" "ws @ [0, 0]"] ab by auto
  moreover have "(ws @ [0, 0])[6 := v, 7 := 0] = ws @ [v, 0]" using l by (simp add: list_update_append)
  ultimately have "pton6_loop (colon_text ws @ s @ 0 # r) (replicate 8 0) 0 None =
      Ok (Scanned (dotted_octets d @ 0 # r) (ws @ [v, 0]) 7 None True)"
    using pton6_groups [of 0 ws "replicate 8 0" "dotted_octets d @ 0 # r" None] l w by (simp add: s colon_text_groups [OF ne])
  then show ?thesis using l by (auto simp: ipv6_scan_def expand_gap_def s)
qed

lemma pton6_double_colon:
  assumes "index < 7"
  shows "pton6_loop (58 # x # rest) words index None =
     (if x = 0 then Ok (Scanned (x # rest) (words[index := 0]) index (Some index) False)
      else pton6_loop (x # rest) (words[index := 0]) (index + 1) (Some index))"
  using assms by (subst pton6_loop.simps) (simp add: Let_def)

lemma colon_text_first: "vs \<noteq> [] \<Longrightarrow> \<exists>x y. colon_text vs = x # y \<and> x \<noteq> 0 \<and> x \<noteq> 58"
proof -
  assume "vs \<noteq> []"
  then obtain w ws where vs: "vs = w # ws" by (cases vs) auto
  obtain x y where x: "group_text w = x # y" using group_text_facts(1) [of w] by (cases "group_text w") auto
  then have "x \<noteq> 0" "x \<noteq> 58" using group_text_no_colon [of w] by auto
  with x show ?thesis unfolding vs colon_text_concat by simp
qed

lemma expand_gap_split:
  assumes "length (us @ g @ x) = 8" "g \<noteq> []"
  shows "expand_gap (Some (length us)) (length us + length g - 1) (us @ g @ x) = Ok (us @ replicate (8 - length us - length g) 0 @ g)"
proof -
  obtain h t where "g = h # t" using assms(2) by (cases g) auto
  then have "7 - (length us + length g - 1) = 8 - length us - length g" "length us + length g - 1 \<le> 7" "length us \<le> length us + length g - 1"
    using assms(1) by auto
  then show ?thesis using expand_gap_eq [of "us @ g @ x" "length us" "length us + length g - 1"] assms(1) by simp
qed

lemma replicate_snoc: "replicate k x @ x # vs = replicate (Suc k) x @ vs"
  by (simp add: replicate_app_Cons_same)

lemma splice_Nil: "splice xs i [] = xs"
  by (simp add: splice_def)

lemma gap_words:
  fixes us vs :: "u16 list"
  defines "i \<equiv> length us" and "n \<equiv> length vs"
  defines "w \<equiv> us @ replicate (8 - i) (0 :: u16)"
  assumes "i + n < 7"
  shows "w[i := 0] = w" "length w = 8" "splice w (i + 1) vs = us @ (0 # vs) @ replicate (7 - i - n) 0"
proof -
  have "replicate (8 - i) 0 = 0 # replicate (7 - i) (0 :: u16)" using assms(4) by (simp flip: replicate_Suc)
  then have w: "w = us @ 0 # replicate (7 - i) 0" by (simp add: w_def)
  show "w[i := 0] = w" "length w = 8" using assms(4) by (simp_all add: w) (simp_all add: i_def)
  show "splice w (i + 1) vs = us @ (0 # vs) @ replicate (7 - i - n) 0"
    using assms(4) by (simp add: w splice_def i_def n_def)
qed

lemma pton6_after_gap:
  assumes "length us + length vs < 7" "vs \<noteq> []"
  shows "pton6_loop (58 # colon_text vs @ x) (us @ replicate (8 - length us) 0) (length us) None =
     pton6_loop (colon_text vs @ x) (us @ replicate (8 - length us) 0) (length us + 1) (Some (length us))"
proof -
  from colon_text_first [OF assms(2)] obtain y ys where "colon_text vs = y # ys" "y \<noteq> 0" by blast
  then show ?thesis using assms(1) gap_words(1) [OF assms(1)] by (simp add: pton6_double_colon)
qed

lemma scan6_gap_plain:
  assumes "length us + k + length vs = 8" "2 \<le> k"
  shows "\<exists>sc. pton6_loop (58 # colon_text vs @ 0 # r) (us @ replicate (8 - length us) 0) (length us) None = Ok sc \<and>
     ipv6_scan (us @ replicate k 0 @ vs) [] r sc"
proof -
  define i n where "i = length us" and "n = length vs"
  have i: "i + n < 7" and k: "k = Suc (7 - (i + n))" using assms by (simp_all add: i_def n_def)
  note w = gap_words [OF i [unfolded i_def n_def], folded i_def n_def]
  have gap: "expand_gap (Some i) (i + n) (us @ (0 # vs) @ replicate (7 - i - n) 0) = Ok (us @ replicate k 0 @ vs)"
    using expand_gap_split [of us "0 # vs" "replicate (7 - i - n) 0"] i unfolding k by (simp add: i_def n_def replicate_snoc)
  have "\<exists>src. pton6_loop (58 # colon_text vs @ 0 # r) (us @ replicate (8 - i) 0) i None =
      Ok (Scanned src (us @ (0 # vs) @ replicate (7 - i - n) 0) (i + n) (Some i) False)"
  proof (cases "vs = []")
    case True
    then have "us @ replicate (8 - i) 0 = us @ (0 # vs) @ replicate (7 - i - n) 0" using w(3) by (simp add: splice_Nil)
    then show ?thesis using True i w(1) by (simp add: pton6_double_colon n_def)
  next
    case False
    show ?thesis unfolding pton6_after_gap [OF i [unfolded i_def n_def] False, folded i_def]
      using pton6_end [OF False, of "i + 1" "Some i" "us @ replicate (8 - i) 0" r] i w by (simp add: n_def)
  qed
  then show ?thesis using gap assms(1) unfolding i_def [symmetric] ipv6_scan_def by (fastforce simp: i_def n_def)
qed

lemma scan6_gap_dotted:
  assumes "length us + k + length vs = 6" "2 \<le> k" "vs \<noteq> []" "length d = 4"
  shows "\<exists>sc. pton6_loop (58 # colon_text vs @ 58 # dotted_octets d @ 0 # r) (us @ replicate (8 - length us) 0) (length us) None = Ok sc \<and>
     ipv6_scan (us @ replicate k 0 @ vs) (58 # dotted_octets d) r sc"
proof -
  obtain a b where ab: "d = a # b" "b \<noteq> []" using length_4_split [OF assms(4)] by blast
  define i n where "i = length us" and "n = length vs"
  define j where "j = i + 1 + n"
  have i: "i + n < 7" "j \<le> 6" and k: "k = Suc (5 - (i + n))" "7 - i - n = Suc (Suc (k - 1))" using assms(1,2) by (simp_all add: i_def n_def j_def)
  note w = gap_words [OF i(1) [unfolded i_def n_def], folded i_def n_def]
  define w' where "w' = us @ (0 # vs) @ replicate (7 - i - n) 0"
  have "pton6_loop (58 # colon_text vs @ 58 # dotted_octets d @ 0 # r) (us @ replicate (8 - i) 0) i None =
      pton6_loop (dotted_octets d @ 0 # r) w' j (Some i)"
    unfolding pton6_after_gap [OF i(1) [unfolded i_def n_def] assms(3), folded i_def]
    unfolding colon_text_groups [OF assms(3)]
    using pton6_groups [of "i + 1" vs "us @ replicate (8 - i) 0" "dotted_octets d @ 0 # r" "Some i"] i w
    by (simp add: j_def n_def w'_def)
  then obtain v where scan: "pton6_loop (58 # colon_text vs @ 58 # dotted_octets d @ 0 # r) (us @ replicate (8 - i) 0) i None =
      Ok (Scanned (dotted_octets d @ 0 # r) (w'[j := v, j + 1 := 0]) (j + 1) (Some i) True)"
    using pton6_dotted [of j "Some i" b a "0 # r" w'] i ab by auto
  have "w'[j := v, j + 1 := 0] = us @ (0 # vs @ [v, 0]) @ replicate (k - 1) 0"
    unfolding w'_def k(2) by (simp add: j_def i_def n_def list_update_append)
  moreover have "expand_gap (Some i) (j + 1) (us @ (0 # vs @ [v, 0]) @ replicate (k - 1) 0) = Ok ((us @ replicate k 0 @ vs) @ [v, 0])"
    using expand_gap_split [of us "0 # vs @ [v, 0]" "replicate (k - 1) 0"] assms(1,2) arg_cong [OF k(1), of "\<lambda>k. replicate k (0 :: u16)"]
    by (simp add: i_def n_def j_def replicate_snoc)
  ultimately show ?thesis using scan assms(1) unfolding i_def [symmetric] ipv6_scan_def by (fastforce simp: i_def n_def)
qed

lemma scan6_gap:
  assumes "ipv6_parts (us @ replicate k 0 @ vs) d s" "2 \<le> k" "vs = [] \<longrightarrow> s = []"
  shows "\<exists>sc. pton6_loop (58 # colon_text vs @ s @ 0 # r) (us @ replicate (8 - length us) 0) (length us) None = Ok sc \<and>
     ipv6_scan (us @ replicate k 0 @ vs) s r sc"
  using assms scan6_gap_plain [of us k vs r] scan6_gap_dotted [of us k vs d r]
  by (auto simp: ipv6_parts_def add.assoc)

lemma c_text_append: "0 \<notin> set t \<Longrightarrow> c_text (t @ 0 # r) = t"
  by (induction t) auto

lemma dotted_octets_no_zero: "0 \<notin> set (dotted_octets bs)"
  using dotted_octets_bytes by fastforce

lemma pton_dotted:
  assumes "length d = 4" "4 \<le> length destination"
  shows "inet_pton_ipv4 (dotted_octets d @ 0 # r) destination = Ok (1, d @ drop 4 destination)"
  using pton4_loop_outcome [of "dotted_octets d @ 0 # r" 0 4 destination] assms c_text_append [OF dotted_octets_no_zero, of d r]
  by (auto simp: pton4_outcome_def inet_pton_ipv4_def splice_0 simp del: pton4_loop.simps)

lemma word_bytes_prefix:
  "2 * n \<le> length address \<Longrightarrow> concat (map word_bytes (map (address_word address) [0..<n])) = take (2 * n) address"
proof (induction n)
  case (Suc n)
  then show ?case by (simp add: word_bytes_address take_Suc_conv_app_nth)
qed simp

lemma finish_scan:
  assumes "ipv6_parts ws d s" "ipv6_scan ws s r sc" "16 \<le> length destination"
  shows "finish_ipv6 sc destination = Ok (1, concat (map word_bytes ws) @ d @ drop 16 destination)"
proof -
  obtain src words index br extra where sc: "sc = Scanned src words index br (s \<noteq> [])" and
    gap: "expand_gap br index words = Ok (ws @ extra)" and l: "length (ws @ extra) = 8" and src: "s \<noteq> [] \<longrightarrow> src = tl s @ 0 # r"
    using assms(2) unfolding ipv6_scan_def by blast
  let ?b = "concat (map word_bytes ws)" and ?e = "concat (map word_bytes extra)"
  have store: "store_words [0..<8] (ws @ extra) destination = Ok (?b @ ?e @ drop 16 destination)"
    using store_words_eq [of 0 "ws @ extra" destination] l assms(3) length_word_bytes [of "ws @ extra"]
    by (simp add: splice_0)
  show ?thesis
  proof (cases "s = []")
    case True
    then show ?thesis using assms(1) l gap store by (simp add: sc finish_ipv6_def ipv6_parts_def)
  next
    case False
    then have s: "s = 58 # dotted_octets d" "length d = 4" "length ws = 6" using assms(1) by (auto simp: ipv6_parts_def)
    have b: "length ?b = 12" "length ?e = 4" using length_word_bytes [of ws] length_word_bytes [of extra] s l by simp_all
    have "inet_pton_ipv4 src (?e @ drop 16 destination) = Ok (1, d @ drop 16 destination)"
      using pton_dotted [of d "?e @ drop 16 destination" r] src s b by simp
    then show ?thesis using gap store False b by (simp add: sc finish_ipv6_def)
  qed
qed

lemma pton_ipv6_form:
  assumes "ipv6_form ws s t" "ipv6_parts ws d s" "16 \<le> length destination"
  shows "inet_pton_ipv6 (t @ 0 # r) destination = Ok (1, concat (map word_bytes ws) @ d @ drop 16 destination)"
proof -
  have start: "inet_pton_ipv6 (colon_text us @ x) destination =
      and_then (pton6_loop (colon_text us @ x) (replicate 8 0) 0 None) (\<lambda>r. finish_ipv6 r destination)" if "us \<noteq> []" for us x
    using colon_text_first [OF that] by (auto simp: inet_pton_ipv6_def get_byte_def)
  show ?thesis using assms(1) unfolding ipv6_form_def
  proof (elim disjE exE conjE)
    assume t: "t = colon_text ws @ s"
    have "ws \<noteq> []" using assms(2) by (auto simp: ipv6_parts_def)
    then show ?thesis using start [of ws "s @ 0 # r"] scan6_plain [OF assms(2), of r] finish_scan [OF assms(2) _ assms(3)] by (auto simp: t)
  next
    fix us k vs
    assume ws: "ws = us @ replicate k 0 @ vs" and k: "2 \<le> k" and vs: "vs = [] \<longrightarrow> s = []" and t: "t = colon_text us @ [58, 58] @ colon_text vs @ s"
    obtain sc where scan: "pton6_loop (58 # colon_text vs @ s @ 0 # r) (us @ replicate (8 - length us) 0) (length us) None = Ok sc" "ipv6_scan ws s r sc"
      using scan6_gap [OF assms(2) [unfolded ws] k vs, of r] unfolding ws by blast
    have "inet_pton_ipv6 (t @ 0 # r) destination = finish_ipv6 sc destination"
    proof (cases "us = []")
      case True
      then show ?thesis using scan(1) by (simp add: t inet_pton_ipv6_def get_byte_def)
    next
      case False
      have "length us + k \<le> 8" using assms(2) by (auto simp: ipv6_parts_def ws)
      then have l: "length us \<le> 6" using k by simp
      have "pton6_loop (colon_text us @ 58 # x) (replicate 8 0) 0 None = pton6_loop x (us @ replicate (8 - length us) 0) (length us) None" for x
        using pton6_groups [of 0 us "replicate 8 0" x None] l by (simp add: colon_text_groups [OF False] splice_full)
      then show ?thesis using start [OF False] scan(1) by (simp add: t)
    qed
    then show ?thesis using finish_scan [OF assms(2) scan(2) assms(3)] by simp
  qed
qed

lemma plain_parts:
  assumes "16 \<le> length address"
  defines "d \<equiv> if ipv4_mapped address = Ok True then take 4 (drop 12 address) else []"
  shows "ipv6_parts (plain_words address) d (plain_tail address)"
    and "concat (map word_bytes (plain_words address)) @ d = take 16 address"
proof -
  show "ipv6_parts (plain_words address) d (plain_tail address)"
    using assms by (simp add: ipv6_parts_def plain_words_def plain_tail_def address_words_def)
  show "concat (map word_bytes (plain_words address)) @ d = take 16 address"
    using word_bytes_prefix [of 8 address] word_bytes_prefix [of 6 address] mapped_words [of address] assms
      take_add [of 12 4 address]
    by (auto simp: plain_words_def address_words_def)
qed

lemma pton_rendered:
  assumes "16 \<le> length address" "ipv6_form (plain_words address) (plain_tail address) t" "16 \<le> length destination"
  shows "inet_pton_ipv6 (t @ 0 # r) destination = Ok (1, take 16 address @ drop 16 destination)"
  using pton_ipv6_form [OF assms(2) plain_parts(1) [OF assms(1)] assms(3), of r] plain_parts(2) [OF assms(1)]
  by (metis append_assoc)

lemma c_string_length_eq: "0 \<notin> set t \<Longrightarrow> c_string_length (t @ 0 # r) = Ok (length t)"
  by (induction t) auto

lemma copy_c_string_eq:
  "0 \<notin> set t \<Longrightarrow> length t < length destination \<Longrightarrow> copy_c_string destination (t @ 0 # r) = Ok (t @ 0 # drop (Suc (length t)) destination)"
proof (induction t arbitrary: destination)
  case Nil
  then show ?case by (cases destination) auto
next
  case (Cons b t)
  then show ?case by (cases destination) auto
qed

subsection \<open>The parser stays inside its inputs\<close>

lemma hex_digits_safe:
  "0 \<in> set (drop k source) \<Longrightarrow> \<exists>v n. hex_digits left source v0 k = Ok (v, n) \<and> k \<le> n \<and> 0 \<in> set (drop n source)"
proof (induction left arbitrary: v0 k)
  case (Suc left)
  then have k: "k < length source" by (metis drop_all empty_iff list.set(1) not_less)
  show ?case
  proof (cases "hex_value (source ! k) < 0")
    case True
    then show ?thesis using k Suc.prems by (simp add: get_byte_def Let_def)
  next
    case False
    have "source ! k \<noteq> 0" using False hex_value_stops(1) by auto
    then have "0 \<in> set (drop (Suc k) source)" using Suc.prems k by (metis Cons_nth_drop_Suc set_ConsD)
    from Suc.IH [OF this] obtain v n where "hex_digits left source (16 * v0 + hex_value (source ! k)) (Suc k) = Ok (v, n)" "Suc k \<le> n" "0 \<in> set (drop n source)"
      by blast
    then show ?thesis using False k by (auto simp: get_byte_def Let_def)
  qed
qed auto

fun scan6_ok :: "scan6 \<Rightarrow> bool" where
  "scan6_ok Reject = True"
| "scan6_ok (Scanned src words index br tail) \<longleftrightarrow>
     length words = 8 \<and> index \<le> 7 \<and> (\<forall>b. br = Some b \<longrightarrow> b \<le> index) \<and> 0 \<in> set src"

lemma pton6_loop_safe:
  "0 \<in> set source \<Longrightarrow> length words = 8 \<Longrightarrow> index \<le> 7 \<Longrightarrow> \<forall>b. br = Some b \<longrightarrow> b \<le> index \<Longrightarrow>
   \<exists>sc. pton6_loop source words index br = Ok sc \<and> scan6_ok sc"
proof (induction source arbitrary: words index br rule: length_induct)
  case (1 source)
  then obtain byte rest where source: "source = byte # rest" by (cases source) auto
  have ih: "\<exists>sc. pton6_loop s words' index' br' = Ok sc \<and> scan6_ok sc"
    if "length s < length source" "0 \<in> set s" "length words' = 8" "index' \<le> 7" "\<forall>b. br' = Some b \<longrightarrow> b \<le> index'" for s words' index' br'
    using 1(1) that by blast
  show ?case
  proof (cases "byte = 58 \<and> br = None")
    case True
    then have z: "0 \<in> set rest" using 1(2) by (auto simp: source)
    then obtain x r where rest: "rest = x # r" by (cases rest) auto
    show ?thesis using True ih [of rest "words[index := 0]" "index + 1" "Some index"] 1(2-5) z
      by (subst pton6_loop.simps) (auto simp: source rest Let_def)
  next
    case False
    from hex_digits_safe [of 0 source 4 0] 1(2) obtain v n where
      h: "hex_digits 4 source 0 0 = Ok (v, n)" "0 \<in> set (drop n source)" by auto
    then have n: "n < length source" by (metis drop_all empty_iff list.set(1) not_less)
    have rest: "0 \<in> set (drop (Suc n) source)" if "source ! n \<noteq> 0"
      using h(2) n that by (metis Cons_nth_drop_Suc set_ConsD)
    define words' where "words' = words[index := word_of_int v]"
    have "pton6_loop source words index br =
       (if n = 0 then Ok Reject
        else if source ! n = 0 \<and> (br \<noteq> None \<or> index = 7) then Ok (Scanned source words' index br False)
        else if index = 7 then Ok Reject
        else if source ! n \<noteq> 58 then
          if source ! n \<noteq> 46 \<or> (index < 6 \<and> br = None) then Ok Reject
          else Ok (Scanned source (words'[(index + 1) mod 8 := 0]) (index + 1) br True)
        else pton6_loop (drop (n + 1) source) words' (index + 1) br)"
      apply (subst pton6_loop.simps)
      using False h(1) n 1(4) unfolding source list.case
      unfolding source [symmetric] h(1) outcome.case prod.case Let_def by (auto simp: words'_def)
    moreover have "\<exists>sc. pton6_loop (drop (n + 1) source) words' (index + 1) br = Ok sc \<and> scan6_ok sc"
      if "source ! n \<noteq> 0" "index \<noteq> 7"
      by (rule ih) (use that rest 1(3-5) n in \<open>auto simp: words'_def intro: le_SucI\<close>)
    ultimately show ?thesis using 1(2-5) by (auto simp: words'_def intro: le_SucI)
  qed
qed

lemma expand_gap_safe:
  assumes "length words = 8" "index \<le> 7" "\<forall>b. br = Some b \<longrightarrow> b \<le> index"
  shows "\<exists>words'. expand_gap br index words = Ok words' \<and> length words' = 8"
proof (cases br)
  case (Some b)
  then show ?thesis using expand_gap_eq [of words b index] assms by auto
qed (simp add: expand_gap_def assms(1))

lemma pton4_safe:
  assumes "0 \<in> set source" "4 \<le> length destination"
  shows "\<exists>status destination'. inet_pton_ipv4 source destination = Ok (status, destination') \<and> status \<in> {0, 1} \<and>
     length destination' = length destination \<and> drop 4 destination' = drop 4 destination"
proof (cases "\<exists>d. length d = 4 \<and> c_text source = dotted_octets d")
  case True
  then show ?thesis using pton4_loop_outcome [OF assms(1), of 0 4 destination] assms(2)
    by (auto simp: pton4_outcome_def inet_pton_ipv4_def splice_0 simp del: pton4_loop.simps)
next
  case False
  then show ?thesis using pton4_loop_outcome [OF assms(1), of 0 4 destination] assms(2)
    by (auto simp: pton4_outcome_def inet_pton_ipv4_def simp del: pton4_loop.simps)
qed

lemma finish_safe:
  assumes "scan6_ok sc" "16 \<le> length destination"
  shows "\<exists>status destination'. finish_ipv6 sc destination = Ok (status, destination') \<and> status \<in> {0, 1} \<and>
     length destination' = length destination \<and> drop 16 destination' = drop 16 destination"
proof (cases sc)
  case (Scanned src words index br tail)
  with assms(1) obtain w where w: "expand_gap br index words = Ok w" "length w = 8" using expand_gap_safe [of words index br] by auto
  define out where "out = concat (map word_bytes w) @ drop 16 destination"
  have out: "store_words [0..<8] w destination = Ok out" "length out = length destination" "drop 16 out = drop 16 destination"
    using store_words_eq [of 0 w destination] w(2) assms(2) length_word_bytes [of w] by (simp_all add: splice_0 out_def)
  have "0 \<in> set src" using assms(1) by (simp add: Scanned)
  moreover have "4 \<le> length (drop 12 out)" using out(2) assms(2) by simp
  ultimately obtain st d where d: "inet_pton_ipv4 src (drop 12 out) = Ok (st, d)" "st \<in> {0, 1}"
    "length d = length (drop 12 out)" "drop 4 d = drop 4 (drop 12 out)" using pton4_safe by blast
  then show ?thesis using w(1) out assms(2) by (auto simp: Scanned finish_ipv6_def)
qed (simp add: finish_ipv6_def)

lemma pton6_safe:
  assumes "0 \<in> set source" "16 \<le> length destination"
  shows "\<exists>status destination'. inet_pton_ipv6 source destination = Ok (status, destination') \<and> status \<in> {0, 1} \<and>
     length destination' = length destination \<and> drop 16 destination' = drop 16 destination"
proof -
  obtain x r where source: "source = x # r" using assms(1) by (cases source) auto
  show ?thesis
  proof (cases "x = 58")
    case True
    then have z: "0 \<in> set r" using assms(1) by (auto simp: source)
    then obtain y r' where r: "r = y # r'" by (cases r) auto
    obtain sc where "pton6_loop r (replicate 8 0) 0 None = Ok sc" "scan6_ok sc"
      using pton6_loop_safe [OF z, of "replicate 8 0" 0 None] by auto
    then show ?thesis using True finish_safe [OF _ assms(2), of sc]
      by (cases "y = 58") (auto simp: source r inet_pton_ipv6_def get_byte_def)
  next
    case False
    obtain sc where "pton6_loop source (replicate 8 0) 0 None = Ok sc" "scan6_ok sc"
      using pton6_loop_safe [OF assms(1), of "replicate 8 0" 0 None] by auto
    then show ?thesis using False finish_safe [OF _ assms(2), of sc] by (auto simp: source inet_pton_ipv6_def get_byte_def)
  qed
qed

end
