(* ===== verification/InetProps.thy ===== *)
theory InetProps
  imports InetParse IntegerParseProps
begin

text \<open>
  The properties of \<open>inet_ntop\<close>, \<open>inet_pton\<close>, \<open>inet_aton\<close> and \<open>inet_addr\<close>: round trip, accepted
  grammar, buffer sizes and \<open>errno\<close>, memory safety, and the arithmetic of the historical grammar.
\<close>

subsection \<open>What \<open>inet_ntop\<close> writes\<close>

lemma ntop4_cases:
  assumes "4 \<le> length address" "unat len \<le> length destination"
  defines "t \<equiv> dotted_octets (take 4 address)"
  shows "inet_ntop AF_INET_family address destination len =
     Ok (if length t < unat len then (True, splice destination 0 (t @ [0]), None)
         else (False, if len = 0 then destination else splice destination 0 (take (unat len - 1) t @ [0]), Some ENOSPC_code))"
proof -
  have four: "take 4 address \<noteq> []" "length (take 4 address) = 4" using assms(1) by auto
  have l: "length t < 16" using length_dotted_octets [OF four(1)] four(2) by (simp add: t_def)
  have b: "local_buffer 16 t = Ok (t @ 0 # replicate (15 - length t) 0)"
    using l by (simp add: local_buffer_def put_range_def splice_0)
  have c: "snprintf_ipv4_copy destination (unat len) t =
      Ok (if len = 0 then destination else splice destination 0 (take (unat len - 1) t @ [0]))"
  proof (cases "len = 0")
    case False
    then have "0 < unat len" by (simp add: unat_gt_0)
    then show ?thesis using assms(2) False by (auto simp: snprintf_ipv4_copy_def put_range_def min_def)
  qed (simp add: snprintf_ipv4_copy_def)
  have "take (unat len - 1) t = t" "len \<noteq> 0" if "length t < unat len" using that by auto
  then show ?thesis using b c write_ipv4_text_eq [OF assms(1), of "[]", folded t_def]
    by (auto simp: inet_ntop_def Let_def)
qed

lemma ntop6_cases:
  assumes "16 \<le> length address"
  shows "\<exists>t. ipv6_form (plain_words address) (plain_tail address) t \<and> 0 \<notin> set t \<and> length t \<le> 45 \<and>
     (\<forall>destination len. unat len \<le> length destination \<longrightarrow> inet_ntop AF_INET6_family address destination len =
       Ok (if length t < unat len then (True, splice destination 0 (t @ [0]), None) else (False, destination, Some ENOSPC_code)))"
proof -
  from ipv6_rendering [OF assms] obtain t pad where
    r: "and_then (render_ipv6 address) (\<lambda>text. and_then (local_buffer 100 text) compress_run) = Ok (t @ 0 # pad)" and
    t: "ipv6_form (plain_words address) (plain_tail address) t" "0 \<notin> set t" "length t \<le> 45" by blast
  from r obtain plain buffer where "render_ipv6 address = Ok plain" "local_buffer 100 plain = Ok buffer" "compress_run buffer = Ok (t @ 0 # pad)"
    by (auto simp: and_then_Ok_conv)
  then have "inet_ntop AF_INET6_family address destination len =
       Ok (if length t < unat len then (True, splice destination 0 (t @ [0]), None) else (False, destination, Some ENOSPC_code))"
    if "unat len \<le> length destination" for destination len
    using that c_string_length_eq [OF t(2), of pad] copy_c_string_eq [OF t(2), of destination pad]
    by (auto simp: inet_ntop_def Let_def AF_INET_family_def AF_INET6_family_def splice_0)
  with t show ?thesis by blast
qed

lemma splice_text: "splice destination 0 (t @ [0]) = t @ 0 # drop (Suc (length t)) destination"
  by (simp add: splice_0)

text \<open>C8. For both families, every address rendered by \<open>inet_ntop\<close> into a buffer of the standard size (16 bytes
  for IPv4, 46 for IPv6) is parsed back by \<open>inet_pton\<close> to the same bytes, whatever run of zero groups was
  elided and whether or not the tail is dotted; the parser writes those bytes and no others.\<close>

theorem inet_ntop_pton_round_trip:
  assumes "(family = AF_INET_family \<and> n = 4 \<and> 16 \<le> len) \<or> (family = AF_INET6_family \<and> n = 16 \<and> 46 \<le> len)"
    and "n \<le> length address" "unat len \<le> length destination" "n \<le> length network"
  shows "\<exists>text. inet_ntop family address destination len = Ok (True, text, None) \<and> length text = length destination \<and>
     inet_pton family text network = Ok (1, take n address @ drop n network, None)"
  using assms(1)
proof (elim disjE conjE)
  assume f: "family = AF_INET_family" "n = 4" "16 \<le> len"
  let ?t = "dotted_octets (take 4 address)"
  have four: "take 4 address \<noteq> []" "length (take 4 address) = 4" using assms(2) f(2) by auto
  have len: "16 \<le> unat len" using f(3) by (simp add: word_le_nat_alt)
  then have l: "length ?t < unat len" using length_dotted_octets [OF four(1)] four(2) by simp
  have "inet_ntop family address destination len = Ok (True, splice destination 0 (?t @ [0]), None)"
    using ntop4_cases [of address len destination] assms(2,3) f l by simp
  moreover have "length (splice destination 0 (?t @ [0])) = length destination" using l assms(3) by simp
  moreover have "inet_pton family (splice destination 0 (?t @ [0])) network = Ok (1, take n address @ drop n network, None)"
    using pton_dotted [OF four(2)] assms(4) f by (simp add: inet_pton_def splice_text)
  ultimately show ?thesis by blast
next
  assume f: "family = AF_INET6_family" "n = 16" "46 \<le> len"
  have len: "46 \<le> unat len" using f(3) by (simp add: word_le_nat_alt)
  from ntop6_cases [of address] assms(2) f(2) obtain t where
    t: "ipv6_form (plain_words address) (plain_tail address) t" "0 \<notin> set t" "length t \<le> 45" and
    r: "\<forall>destination len. unat len \<le> length destination \<longrightarrow> inet_ntop AF_INET6_family address destination len =
       Ok (if length t < unat len then (True, splice destination 0 (t @ [0]), None) else (False, destination, Some ENOSPC_code))"
    by auto
  have l: "length t < unat len" using t(3) len by simp
  have "inet_ntop family address destination len = Ok (True, splice destination 0 (t @ [0]), None)"
    using r assms(3) f l by auto
  moreover have "length (splice destination 0 (t @ [0])) = length destination" using l assms(3) by simp
  moreover have "inet_pton family (splice destination 0 (t @ [0])) network = Ok (1, take n address @ drop n network, None)"
    using pton_rendered [OF _ t(1)] assms(2,4) f by (simp add: inet_pton_def splice_text AF_INET_family_def AF_INET6_family_def)
  ultimately show ?thesis by blast
qed

text \<open>C13. On a NUL-terminated source \<open>inet_pton\<close> for IPv4 returns 1 exactly when the string is four octets in
  decimal without leading zeros, joined by dots, and then stores those octets; otherwise it returns 0 and
  leaves everything behind the first four bytes alone.\<close>

theorem inet_pton_ipv4_exact:
  assumes "0 \<in> set source" "4 \<le> length destination"
  shows "(\<forall>address. length address = 4 \<and> c_text source = dotted_octets address \<longrightarrow>
       inet_pton AF_INET_family source destination = Ok (1, address @ drop 4 destination, None)) \<and>
     ((\<nexists>address. length address = 4 \<and> c_text source = dotted_octets address) \<longrightarrow>
       (\<exists>destination'. inet_pton AF_INET_family source destination = Ok (0, destination', None) \<and>
          length destination' = length destination \<and> drop 4 destination' = drop 4 destination))"
  using pton4_loop_outcome [OF assms(1), of 0 4 destination] assms(2)
  unfolding pton4_outcome_def inet_pton_def inet_pton_ipv4_def
  by (auto simp: splice_0 simp del: pton4_loop.simps)

text \<open>C14. On any NUL-terminated source, and a destination of the address size, \<open>inet_pton\<close> reads no byte past the
  terminator, returns 0 or 1, sets no \<open>errno\<close> and writes inside the address only.\<close>

theorem inet_pton_safe:
  assumes "0 \<in> set source" "n \<le> length destination" "family = AF_INET_family \<and> n = 4 \<or> family = AF_INET6_family \<and> n = 16"
  shows "\<exists>status destination'. inet_pton family source destination = Ok (status, destination', None) \<and> status \<in> {0, 1} \<and>
     length destination' = length destination \<and> drop n destination' = drop n destination"
  using assms(3)
proof (elim disjE conjE)
  assume f: "family = AF_INET_family" "n = 4"
  then show ?thesis using pton4_safe [OF assms(1), of destination] assms(2) by (auto simp: inet_pton_def)
next
  assume f: "family = AF_INET6_family" "n = 16"
  then show ?thesis using pton6_safe [OF assms(1), of destination] assms(2)
    by (auto simp: inet_pton_def AF_INET_family_def AF_INET6_family_def)
qed

text \<open>C23. The text of an address, of at most 15 or 45 bytes, does not depend on the caller's buffer. \<open>inet_ntop\<close>
  succeeds and stores it with its terminator exactly when it fits the given length; otherwise it fails with
  \<open>ENOSPC\<close>, leaving an IPv6 destination untouched and an IPv4 destination with the truncated text.\<close>

theorem inet_ntop_capacity:
  assumes "(family = AF_INET_family \<and> 4 \<le> length address \<and> bound = 15) \<or> (family = AF_INET6_family \<and> 16 \<le> length address \<and> bound = 45)"
  shows "\<exists>text. 0 \<notin> set text \<and> length text \<le> bound \<and>
     (\<forall>destination len. unat len \<le> length destination \<longrightarrow>
        inet_ntop family address destination len =
          Ok (if length text < unat len then (True, splice destination 0 (text @ [0]), None)
              else (False,
                    if family = AF_INET6_family \<or> len = 0 then destination
                    else splice destination 0 (take (unat len - 1) text @ [0]), Some ENOSPC_code)))"
  using assms
proof (elim disjE conjE)
  assume f: "family = AF_INET_family" "4 \<le> length address" "bound = 15"
  have "take 4 address \<noteq> []" "length (take 4 address) = 4" using f(2) by auto
  then have "length (dotted_octets (take 4 address)) \<le> bound" using length_dotted_octets [of "take 4 address"] f(3) by simp
  then show ?thesis using ntop4_cases [OF f(2)] dotted_octets_no_zero f(1)
    by (intro exI [of _ "dotted_octets (take 4 address)"]) (auto simp: AF_INET_family_def AF_INET6_family_def)
next
  assume f: "family = AF_INET6_family" "16 \<le> length address" "bound = 45"
  then show ?thesis using ntop6_cases [OF f(2)] by auto
qed

subsection \<open>The historical grammar\<close>

lemma decimal_digit_is_decimal: "decimal_digit b \<longleftrightarrow> is_decimal b"
proof -
  have "unat (b - 48) < 10 \<longleftrightarrow> 48 \<le> unat b \<and> unat b \<le> 57"
    using unat_u8_less [of b] by (cases "48 \<le> b") (auto simp: unat_sub_if_size word_size word_le_nat_alt)
  then show ?thesis by (simp add: decimal_digit_iff is_decimal_def word_le_nat_alt)
qed

lemma digit_values:
  "decimal_digit c \<Longrightarrow> digit_value c = c - 48" "decimal_digit c \<longleftrightarrow> digit_value c < 10"
  "digit_value 46 = 255" "digit_value 0 = 255"
  using digit_value_decimal [of c] by (simp_all add: decimal_digit_is_decimal digit_value_def)

lemma digits_value_decimal:
  "list_all decimal_digit ds \<Longrightarrow> int (digits_value 10 ds) = digits_int ds"
proof -
  have "int (foldl (\<lambda>a c. a * unat (10 :: u8) + unat (digit_value c)) a ds) = foldl (\<lambda>v b. 10 * v + uint (b - 48)) (int a) ds"
    if "list_all decimal_digit ds" for a using that
    by (induction ds arbitrary: a) (simp_all add: digit_values(1) mult.commute)
  then show "list_all decimal_digit ds \<Longrightarrow> ?thesis" by (simp add: digits_value_def digits_int_def)
qed

lemma digit_not_space_sign: "decimal_digit c \<Longrightarrow> \<not> ascii_space c \<and> c \<noteq> 45 \<and> c \<noteq> 43"
  by (auto simp: decimal_digit_def ascii_space_def)

lemma octet_48: "octet_text b = 48 # ds \<Longrightarrow> ds = []"
  using octet_text_facts(4) [of b] by auto

lemma octet_subject:
  assumes "c = 0 \<or> c = 46"
  shows "\<exists>base. subject (octet_text b @ c # rest) 0 = (False, base, 0, octet_text b) \<and> digits_value base (octet_text b) = unat b"
proof -
  define s where "s = octet_text b @ c # rest"
  obtain x ds where x: "octet_text b = x # ds" using octet_text_facts(1) [of b] by (cases "octet_text b") auto
  have all: "list_all decimal_digit (octet_text b)" by (rule octet_text_facts(3))
  have "decimal_digit x" using all by (simp add: x)
  then have pre: "space_end s = 0" "sign_end s = 0" "\<not> is_negative s"
    using digit_not_space_sign [of x] by (simp_all add: s_def x space_end_def sign_end_def is_negative_def)
  have "s ! 1 = c" if "x = 48" using octet_48 [of b ds] that by (simp add: s_def x)
  then have nohex: "\<not> hex_prefix s 0" using assms pre(2) by (auto simp: hex_prefix_def s_def x or_x)
  show ?thesis
  proof (cases "x = 48")
    case True
    then have t: "octet_text b = [48]" using octet_48 [of b ds] x by simp
    then have "b = 0" using octet_text_ok(2) [of b] by (simp add: digits_int_def uint_0_iff)
    moreover have "subject s 0 = (False, 8, 0, [48])"
      using pre nohex assms by (auto simp: subject_def s_def t digit_value_def)
    ultimately show ?thesis unfolding s_def [symmetric] using t by (simp add: digits_value_def digit_value_def)
  next
    case False
    have "takeWhile (\<lambda>c. digit_value c < 10) s = octet_text b"
      using all assms unfolding s_def by (subst takeWhile_append2) (auto simp: list_all_iff digit_values(2-4))
    then have "subject s 0 = (False, 10, 0, octet_text b)" using pre nohex False by (simp add: subject_def s_def x)
    moreover have "digits_value 10 (octet_text b) = unat b"
      using digits_value_decimal [OF all] octet_text_ok(2) [of b] by (metis nat_int nat_uint_eq)
    ultimately show ?thesis unfolding s_def [symmetric] by auto
  qed
qed

lemma strtoul_octet:
  assumes "c = 0 \<or> c = 46" "0 \<in> set (c # rest)"
  shows "strtoul (octet_text b @ c # rest) (Some 0) 0 = Ok (ucast b, Some (length (octet_text b)), None)"
proof -
  let ?s = "octet_text b @ c # rest"
  from octet_subject [OF assms(1), of b rest] obtain base where
    s: "subject ?s 0 = (False, base, 0, octet_text b)" "digits_value base (octet_text b) = unat b" by blast
  have d: "converts ?s 0" "denoted ?s 0 = int (unat b)" "conversion_end ?s 0 = length (octet_text b)"
    using s octet_text_facts(1) [of b] by (simp_all add: converts_def denoted_def conversion_end_def)
  have "\<not> 2 ^ 64 \<le> \<bar>int (unat b)\<bar>" using unsigned_less [of b, where ?'a = int] by simp
  moreover have "word_of_int (int (unat b)) = (ucast b :: u64)" by simp
  ultimately show ?thesis using strtoul_cases [of ?s 0 "Some 0"] assms(2) d by (auto simp: base_ok_def)
qed

lemma dotted_source:
  assumes "c_text source = dotted_octets (b # bs)" "0 \<in> set source"
  defines "c \<equiv> if bs = [] then 0 else 46"
  shows "\<exists>rest. source = octet_text b @ c # rest \<and> 0 \<in> set (c # rest) \<and> (bs \<noteq> [] \<longrightarrow> c_text rest = dotted_octets bs)"
proof -
  note front = dotted_front [OF assms(1,2)]
  define n where "n = length (octet_text b)"
  have n: "n = length (front_digits source)" using front(1) by (simp add: n_def)
  note str = c_text_front_digits [OF assms(2) n]
  have "n < length source" using front_octet_digits(2) [OF assms(2)] by (simp add: n)
  from id_take_nth_drop [OF this] have "source = take n source @ source ! n # drop (Suc n) source" .
  moreover have "take n source = octet_text b" using front_digits_props(3) [of source] front(1) n by simp
  moreover have "source ! n = c" using front(2) by (simp add: n_def c_def)
  ultimately have "source = octet_text b @ c # drop (Suc n) source" by simp
  moreover have "0 \<in> set (c # drop (Suc n) source)" using str(2) \<open>source ! n = c\<close> by (cases "c = 0") auto
  moreover have "bs \<noteq> [] \<longrightarrow> c_text (drop (Suc n) source) = dotted_octets bs"
    using str(1) assms(1) front \<open>source ! n = c\<close> by (auto simp: dotted_octets_Cons c_def)
  ultimately show ?thesis by blast
qed

lemma aton_loop_dotted:
  assumes "c_text source = dotted_octets bs" "0 \<in> set source" "bs \<noteq> []" "length bs \<le> turns" "components + length bs \<le> length vals"
  shows "aton_loop turns source vals components None =
     Ok (Some (splice vals components (map ucast bs), components + length bs - 1), None)"
  using assms
proof (induction bs arbitrary: turns source vals components)
  case (Cons b bs)
  then obtain turns' where turns: "turns = Suc turns'" by (cases turns) auto
  define c where "c = (if bs = [] then 0 else (46 :: u8))"
  obtain rest where source: "source = octet_text b @ c # rest" "0 \<in> set (c # rest)" "bs \<noteq> [] \<longrightarrow> c_text rest = dotted_octets bs"
    using dotted_source [OF Cons.prems(1,2)] unfolding c_def by blast
  have c: "c = 0 \<or> c = 46" by (simp add: c_def)
  have first: "source ! 0 = hd (octet_text b)" "decimal_digit (source ! 0)" "source \<noteq> []"
    using octet_text_facts(1,3) [of b] by (cases "octet_text b"; simp add: source)+
  have step: "aton_loop turns source vals components None =
      (if c = 0 then Ok (Some (vals[components := ucast b], components), None)
       else aton_loop turns' rest (vals[components := ucast b]) (components + 1) None)"
    using strtoul_octet [OF c source(2), of b] first octet_text_facts(1) [of b] c
    by (auto simp: turns source(1) get_byte_def Let_def)
  show ?case
  proof (cases "bs = []")
    case True
    then show ?thesis using step Cons.prems(5) by (simp add: c_def list_update_splice)
  next
    case False
    have "aton_loop turns' rest (vals[components := ucast b]) (components + 1) None =
       Ok (Some (splice (vals[components := ucast b]) (components + 1) (map ucast bs), components + 1 + length bs - 1), None)"
      by (rule Cons.IH) (use Cons.prems False source turns in \<open>auto simp: c_def\<close>)
    then show ?thesis using step False Cons.prems(5) splice_Cons_update [of components vals "ucast b"] by (simp add: c_def)
  qed
qed simp

lemma store_components_eq:
  "k \<le> 4 \<Longrightarrow> length vals = 4 \<Longrightarrow> 4 \<le> length destination \<Longrightarrow>
   (if \<forall>i<4. k \<le> i \<longrightarrow> vals ! i < 256
    then store_components [k..<4] vals destination = Ok (1, splice destination k (map ucast (drop k vals)))
    else \<exists>destination'. store_components [k..<4] vals destination = Ok (0, destination') \<and>
      length destination' = length destination \<and> drop 4 destination' = drop 4 destination)"
proof (induction "4 - k" arbitrary: k destination)
  case (Suc d)
  then have k: "k < 4" by simp
  have u: "[k..<4] = k # [Suc k..<4]" "drop k vals = vals ! k # drop (Suc k) vals"
    using k Suc.prems by (simp_all add: upt_rec Cons_nth_drop_Suc)
  have all: "(\<forall>i<4. k \<le> i \<longrightarrow> vals ! i < 256) \<longleftrightarrow> vals ! k < 256 \<and> (\<forall>i<4. Suc k \<le> i \<longrightarrow> vals ! i < 256)"
    using k by (metis Suc_leD Suc_leI le_neq_implies_less order_refl)
  have w: "\<not> 255 < vals ! k \<longleftrightarrow> vals ! k < 256" by (auto simp: word_less_nat_alt)
  show ?case
  proof (cases "vals ! k < 256")
    case True
    have "if \<forall>i<4. Suc k \<le> i \<longrightarrow> vals ! i < 256
      then store_components [Suc k..<4] vals (destination[k := ucast (vals ! k)]) =
        Ok (1, splice (destination[k := ucast (vals ! k)]) (Suc k) (map ucast (drop (Suc k) vals)))
      else \<exists>destination'. store_components [Suc k..<4] vals (destination[k := ucast (vals ! k)]) = Ok (0, destination') \<and>
        length destination' = length (destination[k := ucast (vals ! k)]) \<and> drop 4 destination' = drop 4 (destination[k := ucast (vals ! k)])"
      by (rule Suc.hyps(1)) (use Suc.hyps(2) Suc.prems k in auto)
    then show ?thesis using True w k Suc.prems splice_Cons_update [of k destination]
      unfolding all u by (auto simp: put_byte_def split: if_splits)
  next
    case False
    then show ?thesis using w unfolding all u by auto
  qed
qed (simp add: splice_def)

lemma skip_nonzero: "0 \<in> set (drop k s) \<Longrightarrow> s ! k \<noteq> 0 \<Longrightarrow> 0 \<in> set (drop (Suc k) s)" for s :: bytes
  by (metis Cons_nth_drop_Suc drop_all empty_iff list.set(1) not_less set_ConsD)

lemma conversion_end_inside:
  assumes "0 \<in> set s"
  shows "0 \<in> set (drop (conversion_end s 0) s)"
proof -
  obtain n b off run where sb: "subject s 0 = (n, b, off, run)" by (cases "subject s 0")
  have b: "b \<le> 36" and off: "off = (if hex_prefix s 0 then sign_end s + 1 + 1 else sign_end s)"
    and run: "run = takeWhile (\<lambda>c. digit_value c < b) (drop off s)"
    using sb by (auto simp: subject_def Let_def split: if_splits)
  have z: "0 \<in> set (drop (sign_end s) s)" by (rule sign_facts(4) [OF assms])
  have "0 \<in> set (drop off s)"
  proof (cases "hex_prefix s 0")
    case True
    then have "s ! sign_end s \<noteq> 0" "s ! Suc (sign_end s) \<noteq> 0" by (auto simp: hex_prefix_def)
    then show ?thesis using True skip_nonzero [OF skip_nonzero [OF z]] by (simp add: off)
  qed (simp add: off z)
  moreover have "\<not> digit_value 0 < b" using b by (simp add: digit_values(4) word_less_nat_alt word_le_nat_alt)
  ultimately have "0 \<in> set (dropWhile (\<lambda>c. digit_value c < b) (drop off s))"
    by (metis (no_types, lifting) Un_iff set_append set_takeWhileD takeWhile_dropWhile_id)
  then show ?thesis by (simp add: conversion_end_def sb run dropWhile_eq_drop add.commute)
qed

lemma strtoul_inside:
  assumes "0 \<in> set s"
  shows "\<exists>v stop e. strtoul s (Some 0) 0 = Ok (v, Some stop, e) \<and> 0 \<in> set (drop stop s)"
  using strtoul_cases [OF assms, of 0 "Some 0"] conversion_end_inside [OF assms] assms by (simp add: base_ok_def)

lemma aton_loop_safe:
  "0 \<in> set cursor \<Longrightarrow>
   \<exists>r err'. aton_loop turns cursor vals components err = Ok (r, err') \<and>
     (\<forall>vals' n. r = Some (vals', n) \<longrightarrow> length vals' = length vals \<and> components \<le> n \<and> n \<le> components + turns)"
proof (induction turns arbitrary: cursor vals components err)
  case (Suc turns)
  from strtoul_inside [OF Suc.prems] obtain v stop e where
    s: "strtoul cursor (Some 0) 0 = Ok (v, Some stop, e)" "0 \<in> set (drop stop cursor)" by blast
  have l: "stop < length cursor" using s(2) by (metis drop_all empty_iff list.set(1) not_less)
  then have l0: "cursor \<noteq> []" by auto
  define err1 where "err1 = (case e of None \<Rightarrow> err | Some _ \<Rightarrow> e)"
  have step: "aton_loop (Suc turns) cursor vals components err =
      (if stop = 0 \<or> (cursor ! stop \<noteq> 0 \<and> cursor ! stop \<noteq> 46) \<or> \<not> decimal_digit (cursor ! 0) then Ok (None, err1)
       else if cursor ! stop = 0 then Ok (Some (vals[components := v], components), err1)
       else aton_loop turns (drop (stop + 1) cursor) (vals[components := v]) (components + 1) err1)"
    using s(1) l l0 by (simp add: get_byte_def Let_def err1_def)
  show ?case
  proof (cases "cursor ! stop = 46")
    case True
    then have "0 \<in> set (drop (stop + 1) cursor)" using skip_nonzero [OF s(2)] by simp
    from Suc.IH [OF this, of "vals[components := v]" "components + 1" err1] show ?thesis unfolding step by fastforce
  next
    case False
    then show ?thesis unfolding step by auto
  qed
qed simp

subsection \<open>Classful arithmetic\<close>

text \<open>The number \<open>n\<close> dots denote: leading parts are single octets, the last part fills the rest.\<close>

definition aton_fits :: "nat \<Rightarrow> nat list \<Rightarrow> bool" where
  "aton_fits n parts \<longleftrightarrow> (\<forall>i<n. parts ! i < 256) \<and> parts ! n < 256 ^ (4 - n)"

definition aton_number :: "nat \<Rightarrow> nat list \<Rightarrow> nat" where
  "aton_number n parts = (\<Sum>i<n. parts ! i * 256 ^ (3 - i)) + parts ! n"

definition number_bytes :: "nat \<Rightarrow> bytes" where
  "number_bytes k = map (\<lambda>i. word_of_nat (k div 256 ^ (3 - i))) [0..<4]"

lemma unat_spread:
  fixes v :: u64
  shows "unat (v AND 0xffffff) = unat v mod 2 ^ 24" "unat (v AND 0xffff) = unat v mod 2 ^ 16" "unat (v AND 0xff) = unat v mod 2 ^ 8"
proof -
  have "(0xffffff :: u64) = mask 24" "(0xffff :: u64) = mask 16" "(0xff :: u64) = mask 8" by (simp_all add: mask_eq_exp_minus_1)
  then show "unat (v AND 0xffffff) = unat v mod 2 ^ 24" "unat (v AND 0xffff) = unat v mod 2 ^ 16" "unat (v AND 0xff) = unat v mod 2 ^ 8"
    by (simp_all only: unat_and_mask_mod)
qed

lemma spread_values:
  assumes "length vals = 4" "n < 4"
  shows "map unat (spread_components n vals) =
     (let p = map unat vals in
      if n = 0 then [p ! 0 div 2 ^ 24, p ! 0 div 2 ^ 16 mod 256, p ! 0 div 2 ^ 8 mod 256, p ! 0 mod 256]
      else if n = 1 then [p ! 0, p ! 1 div 2 ^ 16, p ! 1 div 2 ^ 8 mod 256, p ! 1 mod 256]
      else if n = 2 then [p ! 0, p ! 1, p ! 2 div 2 ^ 8, p ! 2 mod 256] else p)"
proof -
  obtain a b c d where v: "vals = [a, b, c, d]" using assms(1) by (auto simp: numeral_eq_Suc length_Suc_conv)
  have m: "x mod 2 ^ 24 mod 2 ^ 16 = x mod 2 ^ 16" "x mod 2 ^ 16 mod 2 ^ 8 = x mod 2 ^ 8"
    "x mod 2 ^ 24 div 2 ^ 16 = x div 2 ^ 16 mod 256" "x mod 2 ^ 16 div 2 ^ 8 = x div 2 ^ 8 mod 256" for x :: nat
  proof -
    show "x mod 2 ^ 24 mod 2 ^ 16 = x mod 2 ^ 16" "x mod 2 ^ 16 mod 2 ^ 8 = x mod 2 ^ 8" by (simp_all add: mod_mod_cancel)
    show "x mod 2 ^ 24 div 2 ^ 16 = x div 2 ^ 16 mod 256" "x mod 2 ^ 16 div 2 ^ 8 = x div 2 ^ 8 mod 256"
      using drop_bit_take_bit [of 16 24 x] drop_bit_take_bit [of 8 16 x] by (simp_all add: drop_bit_eq_div take_bit_eq_mod)
  qed
  have "n = 0 \<or> n = 1 \<or> n = 2 \<or> n = 3" using assms(2) by linarith
  then show ?thesis
    by (elim disjE; simp add: v spread_components_def Let_def unat_spread unat_drop_bit_div m del: power_numeral; simp)
qed

lemma byte_of_nat_eq: "(word_of_nat x :: u8) = word_of_nat y \<longleftrightarrow> x mod 256 = y mod 256"
  by (simp add: word_unat_eq_iff unat_of_nat)

lemma div_shift: "0 < k \<Longrightarrow> (a * (k * m) + b) div k = a * m + b div k" for a b k m :: nat
  using div_mult_self1 [of k b "a * m"] by (simp add: ac_simps)

lemmas div_shifts = div_shift [of 16777216 _ 1] div_shift [of 65536 _ 1] div_shift [of 65536 _ 256]
  div_shift [of 256 _ 1] div_shift [of 256 _ 256] div_shift [of 256 _ 65536]

lemma aton_fits_4:
  "aton_fits 0 [a, b, c, d] \<longleftrightarrow> a < 4294967296" "aton_fits 1 [a, b, c, d] \<longleftrightarrow> a < 256 \<and> b < 16777216"
  "aton_fits 2 [a, b, c, d] \<longleftrightarrow> a < 256 \<and> b < 256 \<and> c < 65536" "aton_fits 3 [a, b, c, d] \<longleftrightarrow> a < 256 \<and> b < 256 \<and> c < 256 \<and> d < 256"
proof -
  have "i < 3 \<longleftrightarrow> i = 0 \<or> i = 1 \<or> i = 2" for i :: nat by linarith
  then show "aton_fits 3 [a, b, c, d] \<longleftrightarrow> a < 256 \<and> b < 256 \<and> c < 256 \<and> d < 256" by (auto simp: aton_fits_def)
qed (auto simp: aton_fits_def less_2_cases_iff)

lemma aton_number_4:
  "aton_number 0 [a, b, c, d] = a" "aton_number 1 [a, b, c, d] = a * 16777216 + b"
  "aton_number 2 [a, b, c, d] = a * 16777216 + b * 65536 + c" "aton_number 3 [a, b, c, d] = a * 16777216 + b * 65536 + c * 256 + d"
  by (simp_all add: aton_number_def numeral_2_eq_2 numeral_3_eq_3)

lemma number_bytes_4:
  "number_bytes k = [word_of_nat (k div 16777216), word_of_nat (k div 65536), word_of_nat (k div 256), word_of_nat k]"
proof -
  have "[0..<4] = [0, 1, 2, 3 :: nat]" by code_simp
  then show ?thesis by (simp add: number_bytes_def)
qed

lemma aton_spread:
  assumes "length vals = 4" "n < 4"
  defines "p \<equiv> map unat vals"
  shows "(\<forall>i<4. spread_components n vals ! i < 256) \<longleftrightarrow> aton_fits n p"
    and "aton_fits n p \<Longrightarrow> map ucast (spread_components n vals) = number_bytes (aton_number n p)"
proof -
  obtain a b c d where p: "p = [a, b, c, d]" using assms(1) by (auto simp: p_def numeral_eq_Suc length_Suc_conv)
  define q where "q = map unat (spread_components n vals)"
  have u: "map ucast (spread_components n vals) = map (word_of_nat :: nat \<Rightarrow> u8) q" by (simp add: q_def)
  have l: "length (spread_components n vals) = 4" using assms(1) by (simp add: spread_components_def Let_def)
  have s: "(\<forall>i<4. spread_components n vals ! i < 256) \<longleftrightarrow> list_all (\<lambda>x. x < 256) q"
    using l by (auto simp: q_def list_all_length word_less_nat_alt)
  have q: "q = (if n = 0 then [a div 2 ^ 24, a div 2 ^ 16 mod 256, a div 2 ^ 8 mod 256, a mod 256]
      else if n = 1 then [a, b div 2 ^ 16, b div 2 ^ 8 mod 256, b mod 256]
      else if n = 2 then [a, b, c div 2 ^ 8, c mod 256] else [a, b, c, d])"
    using spread_values [OF assms(1,2)] unfolding q_def p_def [symmetric] by (simp add: p Let_def)
  have n: "n = 0 \<or> n = 1 \<or> n = 2 \<or> n = 3" using assms(2) by linarith
  show "(\<forall>i<4. spread_components n vals ! i < 256) \<longleftrightarrow> aton_fits n p" unfolding s
    using n by (elim disjE) (auto simp: q p aton_fits_4 [unfolded One_nat_def] div_less_iff_less_mult)
  have "map (word_of_nat :: nat \<Rightarrow> u8) q = number_bytes (aton_number n p)" if "aton_fits n p"
  proof -
    have c: "(256 :: u8) = 0" "(65536 :: u8) = 0" "(16777216 :: u8) = 0" by simp_all
    have z: "word_of_nat k * (256 :: u8) = 0" "word_of_nat k * (65536 :: u8) = 0" "word_of_nat k * (16777216 :: u8) = 0" for k
      unfolding c by (rule mult_zero_right)+
    have z': "word_of_nat (k mod 256) = (word_of_nat k :: u8)" for k by (simp add: byte_of_nat_eq)
    show ?thesis using n that
      by (elim disjE) (auto simp: q p number_bytes_4 aton_number_4 [unfolded One_nat_def] aton_fits_4 [unfolded One_nat_def] add.assoc div_shifts [simplified] z z')
  qed
  then show "map ucast (spread_components n vals) = number_bytes (aton_number n p)" if "aton_fits n p" unfolding u using that .
qed

lemma length_number_bytes: "length (number_bytes k) = 4"
  by (simp add: number_bytes_def)


lemma aton_dotted:
  assumes "0 \<in> set source" "4 \<le> length destination" "c_text source = dotted_octets d" "length d = 4"
  shows "inet_aton source destination = Ok (1, d @ drop 4 destination, None)"
proof -
  have ne: "d \<noteq> []" using assms(4) by auto
  have w: "splice (replicate 4 0) 0 (map ucast d) = (map ucast d :: u64 list)" using assms(4) by (simp add: splice_0)
  have loop: "aton_loop 4 source (replicate 4 0) 0 None = Ok (Some (map ucast d, 3), None)"
    using aton_loop_dotted [OF assms(3,1) ne, of 4 0 "replicate 4 0"] assms(4) unfolding w by (simp del: aton_loop.simps)
  have "(ucast b :: u64) < 256" for b :: u8 using unat_u8_less [of b] by (simp add: word_less_nat_alt unat_ucast_mod)
  then have "store_components [0..<4] (map ucast d) destination = Ok (1, splice destination 0 (map ucast (map ucast d :: u64 list)))"
    using store_components_eq [of 0 "map ucast d" destination] assms(2,4) by simp
  moreover have "ucast (ucast b :: u64) = b" for b :: u8 using unat_u8_less [of b] by (simp add: word_unat_eq_iff unat_ucast_mod)
  then have "map ucast (map ucast d :: u64 list) = d" by (simp add: comp_def)
  moreover have "spread_components 3 (map ucast d) = map ucast d" by (simp add: spread_components_def)
  ultimately show ?thesis using loop assms(4) by (simp add: inet_aton_def splice_0 del: aton_loop.simps)
qed

text \<open>C25. Whatever \<open>inet_pton\<close> accepts for IPv4, \<open>inet_aton\<close> accepts with the same bytes, without touching \<open>errno\<close>,
  and \<open>inet_addr\<close> returns those bytes as a word in memory order.\<close>

theorem inet_aton_agrees_pton:
  assumes "0 \<in> set source" "4 \<le> length destination" "inet_pton AF_INET_family source destination = Ok (1, address, None)"
  shows "inet_aton source destination = Ok (1, address, None) \<and>
    inet_addr source = Ok (u32_from_le_bytes (address ! 0) (address ! 1) (address ! 2) (address ! 3), None)"
proof -
  from assms(3) have p: "pton4_loop 4 0 source destination = Ok (1, address)"
    by (auto simp: inet_pton_def inet_pton_ipv4_def and_then_Ok_conv simp del: pton4_loop.simps)
  note outcome = pton4_loop_outcome [OF assms(1), of 0 4 destination, unfolded pton4_outcome_def p]
  obtain d where d: "length d = 4" "c_text source = dotted_octets d" using outcome assms(2) by auto
  then have a: "address = d @ drop 4 destination" using outcome assms(2) by (auto simp: splice_0)
  have "inet_aton source destination = Ok (1, address, None)" using aton_dotted [OF assms(1,2) d(2,1)] by (simp add: a)
  moreover have "inet_aton source (replicate 4 0) = Ok (1, d, None)" using aton_dotted [OF assms(1) _ d(2,1), of "replicate 4 0"] by simp
  ultimately show ?thesis using d(1) by (simp add: inet_addr_def a nth_append)
qed

subsection \<open>Concrete inputs\<close>

text \<open>The address \<open>2001:db8::1\<close>; the strings \<open>10.0.0.1\<close>, \<open>::ffff:10.0.0.1\<close> and \<open>127.1\<close>.\<close>

definition doc_address :: bytes where
  "doc_address = [0x20, 0x01, 0x0d, 0xb8, 0, 0, 0, 0, 0, 0, 0, 0, 0, 0, 0, 1]"
definition quad_source :: bytes where "quad_source = [49, 48, 46, 48, 46, 48, 46, 49, 0]"
definition mapped_source :: bytes where
  "mapped_source = [58, 58, 102, 102, 102, 102, 58, 49, 48, 46, 48, 46, 48, 46, 49, 0]"
definition class_source :: bytes where "class_source = [49, 50, 55, 46, 49, 0]"

lemma sample_sources:
  "length doc_address = 16" "0 \<in> set quad_source" "0 \<in> set mapped_source" "0 \<in> set class_source"
  by (simp_all add: doc_address_def quad_source_def mapped_source_def class_source_def)

lemma quad_text: "c_text quad_source = dotted_octets [10, 0, 0, 1]"
  by code_simp

theorem inet_ntop_pton_round_trip_witness:
  "\<exists>text. inet_ntop AF_INET6_family doc_address (replicate 46 0) 46 = Ok (True, text, None) \<and> length text = 46 \<and>
     inet_pton AF_INET6_family text (replicate 16 0) = Ok (1, doc_address, None)"
  using inet_ntop_pton_round_trip [of AF_INET6_family 16 46 doc_address "replicate 46 0" "replicate 16 0"] sample_sources(1)
  by simp

theorem inet_pton_ipv4_exact_witness:
  "inet_pton AF_INET_family quad_source (replicate 4 7) = Ok (1, [10, 0, 0, 1], None)"
  using inet_pton_ipv4_exact [of quad_source "replicate 4 7"] sample_sources(2) quad_text by simp

theorem inet_pton_safe_witness:
  "\<exists>status destination'. inet_pton AF_INET6_family mapped_source (replicate 16 7) = Ok (status, destination', None) \<and>
     status \<in> {0, 1} \<and> length destination' = 16"
  using inet_pton_safe [of mapped_source 16 "replicate 16 7" AF_INET6_family] sample_sources(3) by auto

theorem inet_ntop_capacity_witness:
  "\<exists>text. 0 \<notin> set text \<and> length text \<le> 45 \<and>
     inet_ntop AF_INET6_family doc_address (replicate 46 7) 0 = Ok (False, replicate 46 7, Some ENOSPC_code) \<and>
     inet_ntop AF_INET6_family doc_address (replicate 46 7) 46 = Ok (True, splice (replicate 46 7) 0 (text @ [0]), None)"
proof -
  obtain t where t: "0 \<notin> set t" "length t \<le> 45" and r: "\<forall>destination len. unat len \<le> length destination \<longrightarrow>
     inet_ntop AF_INET6_family doc_address destination len =
       Ok (if length t < unat len then (True, splice destination 0 (t @ [0]), None)
           else (False, if AF_INET6_family = AF_INET6_family \<or> len = 0 then destination
                        else splice destination 0 (take (unat len - 1) t @ [0]), Some ENOSPC_code))"
    using inet_ntop_capacity [of AF_INET6_family doc_address 45] sample_sources(1) by auto
  show ?thesis using t r [rule_format, of 0 "replicate 46 7"] r [rule_format, of 46 "replicate 46 7"]
    by (intro exI [of _ t]) simp
qed

lemma class_scan: "aton_loop 4 class_source (replicate 4 0) 0 None = Ok (Some ([127, 1, 0, 0], 1), None)"
  by code_simp


theorem inet_aton_agrees_pton_witness: "inet_aton quad_source (replicate 4 7) = Ok (1, [10, 0, 0, 1], None)"
proof -
  have "inet_pton AF_INET_family quad_source (replicate 4 7) = Ok (1, [10, 0, 0, 1], None)" by code_simp
  from inet_aton_agrees_pton [OF sample_sources(2) _ this] show ?thesis by simp
qed

end
