(* ===== verification/SearchTree.thy ===== *)
theory SearchTree
  imports Prelude
begin

text \<open>
  \<open>libc/src/c_abi/x86_64/search_tree_intrusive.rs\<close>: \<open>tsearch\<close>, \<open>tfind\<close>, \<open>tdelete\<close>, \<open>twalk\<close> and
  \<open>tdestroy\<close>, in the allocator-free configuration, where every node is a private mapping.

  Pointers are 64-bit words with 0 for null. The heap maps the address of each live node mapping to its
  contents; access to any other address, and a write past the end of the \<open>path\<close> array, is \<open>Panic\<close>. A
  pointer to a link is the caller's root cell or a child field. The comparison callback is a function of
  two key pointers. \<open>env n\<close> is the answer of the kernel to the \<open>n\<close>-th mapping request: an address and
  the \<open>errno\<close> of a failure.
\<close>

definition MAX_HEIGHT :: nat where "MAX_HEIGHT = 8 * 8 * 3 div 2"
definition ENOMEM_code :: int where "ENOMEM_code = 12"

definition PREORDER :: int where "PREORDER = 0"
definition POSTORDER :: int where "POSTORDER = 1"
definition ENDORDER :: int where "ENDORDER = 2"
definition LEAF :: int where "LEAF = 3"

type_synonym pointer = u64

record node =
  nd_key :: pointer
  nd_left :: pointer
  nd_right :: pointer
  nd_height :: int

record tree_state =
  ts_root :: pointer
  ts_heap :: "pointer \<rightharpoonup> node"
  ts_requests :: nat
  ts_errno :: int

type_synonym compare = "pointer \<Rightarrow> pointer \<Rightarrow> int"
type_synonym mappings = "nat \<Rightarrow> pointer \<times> int"

datatype link = RootLink | ChildLink pointer nat

subsection \<open>Fields\<close>

definition get_node :: "tree_state \<Rightarrow> pointer \<Rightarrow> (node, unit) outcome" where
  "get_node st p = (case ts_heap st p of None \<Rightarrow> Panic | Some n \<Rightarrow> Ok n)"

definition put_node :: "tree_state \<Rightarrow> pointer \<Rightarrow> node \<Rightarrow> tree_state" where
  "put_node st p n = st\<lparr>ts_heap := (ts_heap st)(p \<mapsto> n)\<rparr>"

definition node_key :: "tree_state \<Rightarrow> pointer \<Rightarrow> (pointer, unit) outcome" where
  "node_key st p = and_then (get_node st p) (\<lambda>n. Ok (nd_key n))"

definition set_node_key :: "tree_state \<Rightarrow> pointer \<Rightarrow> pointer \<Rightarrow> (tree_state, unit) outcome" where
  "set_node_key st p key = and_then (get_node st p) (\<lambda>n. Ok (put_node st p (n\<lparr>nd_key := key\<rparr>)))"

definition child :: "tree_state \<Rightarrow> pointer \<Rightarrow> nat \<Rightarrow> (pointer, unit) outcome" where
  "child st p direction = and_then (get_node st p) (\<lambda>n. Ok (if direction = 0 then nd_left n else nd_right n))"

definition set_child :: "tree_state \<Rightarrow> pointer \<Rightarrow> nat \<Rightarrow> pointer \<Rightarrow> (tree_state, unit) outcome" where
  "set_child st p direction v =
     and_then (get_node st p) (\<lambda>n.
       Ok (put_node st p (if direction = 0 then n\<lparr>nd_left := v\<rparr> else n\<lparr>nd_right := v\<rparr>)))"

definition node_height :: "tree_state \<Rightarrow> pointer \<Rightarrow> (int, unit) outcome" where
  "node_height st p = (if p = 0 then Ok 0 else and_then (get_node st p) (\<lambda>n. Ok (nd_height n)))"

definition set_node_height :: "tree_state \<Rightarrow> pointer \<Rightarrow> int \<Rightarrow> (tree_state, unit) outcome" where
  "set_node_height st p height = and_then (get_node st p) (\<lambda>n. Ok (put_node st p (n\<lparr>nd_height := height\<rparr>)))"

definition read_link :: "tree_state \<Rightarrow> link \<Rightarrow> (pointer, unit) outcome" where
  "read_link st l = (case l of RootLink \<Rightarrow> Ok (ts_root st) | ChildLink p direction \<Rightarrow> child st p direction)"

definition write_link :: "tree_state \<Rightarrow> link \<Rightarrow> pointer \<Rightarrow> (tree_state, unit) outcome" where
  "write_link st l v =
     (case l of RootLink \<Rightarrow> Ok (st\<lparr>ts_root := v\<rparr>) | ChildLink p direction \<Rightarrow> set_child st p direction v)"

subsection \<open>Nodes\<close>

text \<open>A failed request leaves the heap alone; a mapping at address 0 is given back and reported as \<open>ENOMEM\<close>.\<close>

definition allocate_node :: "mappings \<Rightarrow> pointer \<Rightarrow> tree_state \<Rightarrow> pointer \<times> tree_state" where
  "allocate_node env key st =
     (let (mapping, err) = env (ts_requests st);
          st = st\<lparr>ts_requests := ts_requests st + 1\<rparr>
      in if mapping = - 1 then (0, st\<lparr>ts_errno := err\<rparr>)
         else if mapping = 0 then (0, st\<lparr>ts_errno := ENOMEM_code\<rparr>)
         else (mapping, put_node st mapping \<lparr>nd_key = key, nd_left = 0, nd_right = 0, nd_height = 1\<rparr>))"

text \<open>\<open>errno\<close> is saved around the release.\<close>

definition release_node :: "pointer \<Rightarrow> tree_state \<Rightarrow> tree_state" where
  "release_node p st = st\<lparr>ts_heap := (ts_heap st)(p := None)\<rparr>"

subsection \<open>Balancing\<close>

definition rotate :: "link \<Rightarrow> pointer \<Rightarrow> nat \<Rightarrow> tree_state \<Rightarrow> (int \<times> tree_state, unit) outcome" where
  "rotate l node direction st =
     (let opposite = (if direction = 0 then 1 else 0) in
      and_then (child st node direction) (\<lambda>deeper.
      and_then (child st deeper opposite) (\<lambda>middle.
      and_then (node_height st node) (\<lambda>old_height.
      and_then (node_height st middle) (\<lambda>middle_height.
      and_then (child st deeper direction) (\<lambda>outer.
      and_then (node_height st outer) (\<lambda>outer_height.
      and_then
        (if outer_height < middle_height then
           and_then (child st middle opposite) (\<lambda>c.
           and_then (set_child st node direction c) (\<lambda>st.
           and_then (child st middle direction) (\<lambda>c.
           and_then (set_child st deeper opposite c) (\<lambda>st.
           and_then (set_child st middle opposite node) (\<lambda>st.
           and_then (set_child st middle direction deeper) (\<lambda>st.
           and_then (set_node_height st node middle_height) (\<lambda>st.
           and_then (set_node_height st deeper middle_height) (\<lambda>st.
           and_then (set_node_height st middle (i32_of (middle_height + 1))) (\<lambda>st.
             Ok (middle, st))))))))))
         else
           and_then (set_child st node direction middle) (\<lambda>st.
           and_then (set_child st deeper opposite node) (\<lambda>st.
           and_then (set_node_height st node (i32_of (middle_height + 1))) (\<lambda>st.
           and_then (set_node_height st deeper (i32_of (middle_height + 2))) (\<lambda>st.
             Ok (deeper, st))))))
      (\<lambda>(middle, st).
      and_then (write_link st l middle) (\<lambda>st.
      and_then (node_height st middle) (\<lambda>new_height.
        Ok (i32_of (new_height - old_height), st)))))))))))"

definition tsearch_balance :: "link \<Rightarrow> tree_state \<Rightarrow> (int \<times> tree_state, unit) outcome" where
  "tsearch_balance l st =
     and_then (read_link st l) (\<lambda>node.
     and_then (child st node 0) (\<lambda>left.
     and_then (node_height st left) (\<lambda>left_height.
     and_then (child st node 1) (\<lambda>right.
     and_then (node_height st right) (\<lambda>right_height.
       if i32_of (i32_of (left_height - right_height) + 1) mod 2 ^ 32 < 3 then
         and_then (node_height st node) (\<lambda>old_height.
           let new_height = (if left_height < right_height then i32_of (right_height + 1) else i32_of (left_height + 1)) in
           and_then (set_node_height st node new_height) (\<lambda>st.
             Ok (i32_of (new_height - old_height), st)))
       else rotate l node (if left_height < right_height then 1 else 0) st)))))"

text \<open>The walk back over the recorded links, from the last, while the height of the subtree changes.\<close>

fun rebalance :: "link list \<Rightarrow> tree_state \<Rightarrow> (tree_state, unit) outcome" where
  "rebalance [] st = Ok st"
| "rebalance (l # ls) st =
     and_then (tsearch_balance l st) (\<lambda>(change, st). if change = 0 then Ok st else rebalance ls st)"

subsection \<open>Insertion and lookup\<close>

definition push_link :: "nat \<Rightarrow> link list \<Rightarrow> link \<Rightarrow> (link list, unit) outcome" where
  "push_link limit path l = (if length path < limit then Ok (path @ [l]) else Panic)"

lemma and_then_cong [fundef_cong]:
  "m = m' \<Longrightarrow> (\<And>a. m' = Ok a \<Longrightarrow> f a = g a) \<Longrightarrow> and_then m f = and_then m' g"
  by (cases m') auto

text \<open>The descent of \<open>tsearch\<close>: the node found, or the path to the empty link.\<close>

function tsearch_descend ::
    "compare \<Rightarrow> pointer \<Rightarrow> tree_state \<Rightarrow> pointer \<Rightarrow> link list \<Rightarrow> (pointer + link list, unit) outcome" where
  "tsearch_descend compare key st node path =
     (if node = 0 then Ok (Inr path)
      else
        and_then (node_key st node) (\<lambda>k.
          let order = compare key k in
          if order = 0 then Ok (Inl node)
          else
            let l = ChildLink node (if 0 < order then 1 else 0) in
            and_then (push_link MAX_HEIGHT path l) (\<lambda>path.
            and_then (read_link st l) (\<lambda>node.
              tsearch_descend compare key st node path))))"
  by pat_completeness auto
termination
  by (relation "measure (\<lambda>(compare, key, st, node, path). MAX_HEIGHT - length path)")
     (auto simp: push_link_def split: if_splits)

declare tsearch_descend.simps [simp del]

text \<open>\<open>root_null\<close> says that the caller passed a null pointer for the root cell.\<close>

definition tsearch ::
    "mappings \<Rightarrow> compare \<Rightarrow> pointer \<Rightarrow> bool \<Rightarrow> tree_state \<Rightarrow> (pointer \<times> tree_state, unit) outcome" where
  "tsearch env compare key root_null st =
     (if root_null then Ok (0, st)
      else
        and_then (tsearch_descend compare key st (ts_root st) [RootLink]) (\<lambda>r.
          case r of
            Inl node \<Rightarrow> Ok (node, st)
          | Inr path \<Rightarrow>
              let (inserted, st) = allocate_node env key st in
              if inserted = 0 then Ok (0, st)
              else
                and_then (write_link st (last path) inserted) (\<lambda>st.
                and_then (rebalance (rev (butlast path)) st) (\<lambda>st.
                  Ok (inserted, st)))))"

text \<open>Sequencing of runs: \<open>None\<close> is not returning.\<close>

definition then_run ::
    "('a, unit) outcome option \<Rightarrow> ('a \<Rightarrow> ('b, unit) outcome option) \<Rightarrow> ('b, unit) outcome option" where
  "then_run m f = Option.bind m (\<lambda>r. case r of Ok a \<Rightarrow> f a | Err e \<Rightarrow> Some (Err e) | Panic \<Rightarrow> Some Panic)"

lemma then_run_simps [simp]:
  "then_run None f = None" "then_run (Some (Ok a)) f = f a" "then_run (Some (Err e)) f = Some (Err e)" "then_run (Some Panic) f = Some Panic"
  by (simp_all add: then_run_def)

lemma then_run_mono [partial_function_mono]:
  assumes "mono_option m" "\<And>a. mono_option (\<lambda>g. f g a)"
  shows "mono_option (\<lambda>g. then_run (m g) (f g))"
  unfolding then_run_def
proof (rule bind_mono [OF assms(1)])
  show "mono_option (\<lambda>g. case r of Ok a \<Rightarrow> f g a | Err e \<Rightarrow> Some (Err e) | Panic \<Rightarrow> Some Panic)" for r
    using assms(2) by (cases r) (simp_all add: option.const_mono)
qed

partial_function (option) tfind_from ::
    "compare \<Rightarrow> pointer \<Rightarrow> tree_state \<Rightarrow> pointer \<Rightarrow> (pointer, unit) outcome option" where
  [code]: "tfind_from compare key st node =
     (if node = 0 then Some (Ok node)
      else
        then_run (Some (node_key st node)) (\<lambda>k.
          let order = compare key k in
          if order = 0 then Some (Ok node)
          else then_run (Some (child st node (if 0 < order then 1 else 0))) (\<lambda>node.
            tfind_from compare key st node)))"

definition tfind :: "compare \<Rightarrow> pointer \<Rightarrow> bool \<Rightarrow> tree_state \<Rightarrow> (pointer, unit) outcome option" where
  "tfind compare key root_null st = (if root_null then Some (Ok 0) else tfind_from compare key st (ts_root st))"

subsection \<open>Deletion\<close>

text \<open>The descent of \<open>tdelete\<close>: \<open>None\<close> when the key is absent.\<close>

function tdelete_descend ::
    "compare \<Rightarrow> pointer \<Rightarrow> tree_state \<Rightarrow> pointer \<Rightarrow> link list \<Rightarrow> ((pointer \<times> link list) option, unit) outcome" where
  "tdelete_descend compare key st node path =
     (if node = 0 then Ok None
      else
        and_then (node_key st node) (\<lambda>k.
          let order = compare key k in
          if order = 0 then Ok (Some (node, path))
          else
            let l = ChildLink node (if 0 < order then 1 else 0) in
            and_then (push_link (MAX_HEIGHT + 1) path l) (\<lambda>path.
            and_then (read_link st l) (\<lambda>node.
              tdelete_descend compare key st node path))))"
  by pat_completeness auto
termination
  by (relation "measure (\<lambda>(compare, key, st, node, path). MAX_HEIGHT + 1 - length path)")
     (auto simp: push_link_def split: if_splits)

declare tdelete_descend.simps [simp del]

function rightmost :: "tree_state \<Rightarrow> pointer \<Rightarrow> link list \<Rightarrow> (pointer \<times> link list, unit) outcome" where
  "rightmost st node path =
     and_then (child st node 1) (\<lambda>right.
       if right = 0 then Ok (node, path)
       else and_then (push_link (MAX_HEIGHT + 1) path (ChildLink node 1)) (\<lambda>path.
         rightmost st right path))"
  by pat_completeness auto
termination
  by (relation "measure (\<lambda>(st, node, path). MAX_HEIGHT + 1 - length path)")
     (auto simp: push_link_def split: if_splits)

declare rightmost.simps [simp del]

text \<open>The node to release, the path to it and what takes its place; the key of the predecessor moves up.\<close>

definition tdelete_select ::
    "pointer \<Rightarrow> link list \<Rightarrow> tree_state \<Rightarrow> (pointer \<times> link list \<times> pointer \<times> tree_state, unit) outcome" where
  "tdelete_select node path st =
     and_then (child st node 0) (\<lambda>left.
       if left \<noteq> 0 then
         and_then (push_link (MAX_HEIGHT + 1) path (ChildLink node 0)) (\<lambda>path.
         and_then (rightmost st left path) (\<lambda>(last_node, path).
         and_then (node_key st last_node) (\<lambda>k.
         and_then (set_node_key st node k) (\<lambda>st.
         and_then (child st last_node 0) (\<lambda>replacement.
           Ok (last_node, path, replacement, st))))))
       else and_then (child st node 1) (\<lambda>replacement. Ok (node, path, replacement, st)))"

definition tdelete :: "compare \<Rightarrow> pointer \<Rightarrow> bool \<Rightarrow> tree_state \<Rightarrow> (pointer \<times> tree_state, unit) outcome" where
  "tdelete compare key root_null st =
     (if root_null then Ok (0, st)
      else
        and_then (tdelete_descend compare key st (ts_root st) [RootLink, RootLink]) (\<lambda>r.
          case r of
            None \<Rightarrow> Ok (0, st)
          | Some (node, path) \<Rightarrow>
              and_then (read_link st (path ! (length path - 2))) (\<lambda>parent.
              and_then (tdelete_select node path st) (\<lambda>(removed, path, replacement, st).
                let st = release_node removed st in
                and_then (write_link st (last path) replacement) (\<lambda>st.
                and_then (rebalance (rev (tl (butlast path))) st) (\<lambda>st.
                  Ok (parent, st)))))))"

subsection \<open>Traversal and destruction\<close>

text \<open>The calls of the action, as node, order and depth, in the order they are made.\<close>

partial_function (option) walk ::
    "tree_state \<Rightarrow> pointer \<Rightarrow> int \<Rightarrow> ((pointer \<times> int \<times> int) list, unit) outcome option" where
  [code]: "walk st node depth =
     (if node = 0 then Some (Ok [])
      else
        then_run (Some (node_height st node)) (\<lambda>height.
          if height = 1 then Some (Ok [(node, LEAF, depth)])
          else
            then_run (Some (child st node 0)) (\<lambda>left.
            then_run (walk st left (i32_of (depth + 1))) (\<lambda>lefts.
            then_run (Some (child st node 1)) (\<lambda>right.
            then_run (walk st right (i32_of (depth + 1))) (\<lambda>rights.
              Some (Ok ([(node, PREORDER, depth)] @ lefts @ [(node, POSTORDER, depth)] @ rights @
                        [(node, ENDORDER, depth)]))))))))"

definition twalk :: "pointer \<Rightarrow> tree_state \<Rightarrow> ((pointer \<times> int \<times> int) list, unit) outcome option" where
  "twalk root st = walk st root 0"

text \<open>The keys passed to the callback, in order, and the state after the releases.\<close>

partial_function (option) destroy_tree ::
    "pointer \<Rightarrow> bool \<Rightarrow> tree_state \<Rightarrow> (pointer list \<times> tree_state, unit) outcome option" where
  [code]: "destroy_tree node free_key st =
     (if node = 0 then Some (Ok ([], st))
      else
        then_run (Some (child st node 0)) (\<lambda>left.
        then_run (destroy_tree left free_key st) (\<lambda>(lefts, st).
        then_run (Some (child st node 1)) (\<lambda>right.
        then_run (destroy_tree right free_key st) (\<lambda>(rights, st).
        then_run (if free_key then Some (and_then (node_key st node) (\<lambda>k. Ok [k])) else Some (Ok [])) (\<lambda>key.
          Some (Ok (lefts @ rights @ key, release_node node st))))))))"

definition tdestroy :: "pointer \<Rightarrow> bool \<Rightarrow> tree_state \<Rightarrow> (pointer list \<times> tree_state, unit) outcome option" where
  "tdestroy root free_key st = destroy_tree root free_key st"

end
