(* ===== verification/Spec2Isabelle.thy ===== *)
theory Spec2Isabelle
  imports Prelude Text Iso8859 Iconv IconvCodecs Converter EncodingNames Dns DnsNames DnsMessage DnsProps Timegm Calendar
    TimegmProps IntegerParse IntegerParseProps Hsearch HsearchTable HsearchProps Pattern PatternProps DnsExchange DnsTrace
    DnsExchangeProps InetAddress InetText InetRender InetParse InetProps SearchTree
begin

text \<open>
  A verification library for crabc, a C library with its allocator, loader and start-up code written in
  Rust. It covers the computational parts: those whose correctness is a statement about bytes, integers and
  the order of calls, not about what one system call does.

  \<^bold>\<open>Conventions.\<close> \<open>Prelude\<close> holds what the components share. A fallible operation returns an
  \<open>outcome\<close>: \<open>Ok\<close>, \<open>Err\<close> for an error value of the source, or \<open>Panic\<close> for a Rust panic, and
  also for a read or write outside a buffer in the parts that use raw pointers. Buffers are lists of
  bytes; a slice index or an offset from a pointer is a natural number. Machine arithmetic is on words of the
  width the source has; a cast is \<open>ucast\<close>, a signed view is \<open>i32_of\<close> or \<open>i64_of\<close>. A mutable argument
  is passed in and returned. A loop is structural recursion or a \<open>function\<close> with a measure, so it
  terminates on every input. The loops that may run forever are \<open>partial_function (option)\<close>, where \<open>None\<close>
  is not returning: the probe and growth loops of the hash table and the waiting loops of the DNS transport.
  Fuel appears once, in draining an iterator of \<open>Text\<close>, where any fuel beyond what is left gives the same
  list; elsewhere, where the model counts turns (four components of a dotted address, four digits
  of a group, the attempts of a DNS exchange), the count is the bound of the loop in the source.

  \<^bold>\<open>Parts and theories.\<close>

  \<^item> \<open>Text\<close>: \<open>crabc-core/src/text.rs\<close> (case-insensitive comparison and search, version comparison, splitting and
    token cursors) and \<open>libc/src/strverscmp.rs\<close>. Both iterators are interpretations of one locale,
    \<open>draining_iterator\<close>. The comparison and search loops compute their mathematical definition, the cursors
    yield the fields of the string, and the typed version comparison agrees with the C one except on a class of
    strings that the theory describes exactly.
  \<^item> \<open>Iso8859\<close>, \<open>Iconv\<close>, \<open>IconvCodecs\<close>, \<open>Converter\<close>, \<open>EncodingNames\<close>: \<open>crabc-core/src/iconv.rs\<close> and
    \<open>iconv_iso8859.rs\<close>. \<open>Iconv\<close> decodes and encodes one scalar in each of the encodings; \<open>IconvCodecs\<close>
    shows them inverse to each other and states the contract \<open>codec\<close> that the loop of \<open>Converter\<close> relies on.
    The converter reports exact counts, can be resumed where it stopped, and is inverted by the converter in
    the other direction.
  \<^item> \<open>Dns\<close>, \<open>DnsNames\<close>, \<open>DnsMessage\<close>, \<open>DnsProps\<close>: the wire codec of \<open>crabc-core/src/resolver.rs\<close>. Name
    compression follows a reference relation, the parser accepts the reply that echoes a query, and the readers
    of records agree with a reference decomposition of the message.
  \<^item> \<open>DnsExchange\<close>, \<open>DnsTrace\<close>, \<open>DnsExchangeProps\<close>: the transport of the same file: deadlines, UDP with
    validation of the datagram, TCP on truncation, servers and attempts, and the native transport. The kernel
    and the transport are functions from the trace of calls so far to the next answer, so a theorem about all
    of them is a theorem about every schedule. The exchange closes what it opens, accepts only valid replies,
    and returns when the clock advances. The locale \<open>tcp_start\<close> is the contract of the routine that opens
    a stream, interpreted on the native one.
  \<^item> \<open>Timegm\<close>, \<open>Calendar\<close>, \<open>TimegmProps\<close>: \<open>libc/src/c_abi/x86_64/timegm.rs\<close> against a calendar defined by
    counting days.
  \<^item> \<open>IntegerParse\<close>, \<open>IntegerParseProps\<close>: \<open>integer_parse.rs\<close>, that is \<open>strtol\<close>, \<open>strtoul\<close>, \<open>atoi\<close> and their
    siblings, against the integer that the subject sequence of the C standard denotes.
  \<^item> \<open>Hsearch\<close>, \<open>HsearchTable\<close>, \<open>HsearchProps\<close>: \<open>search_hash_table.rs\<close>. Any sequence of calls refines a map
    from key strings to entries, keeps the invariant of the open-addressing table and leaks no mapping.
    The kernel is a parameter that may refuse any request.
  \<^item> \<open>Pattern\<close>, \<open>PatternProps\<close>: \<open>crabc-core/src/pattern.rs\<close>. The matcher with one backtracking point decides the
    decomposition of the candidate along the items of the pattern.
  \<^item> \<open>InetAddress\<close>, \<open>InetText\<close>, \<open>InetRender\<close>, \<open>InetParse\<close>, \<open>InetProps\<close>: \<open>inet_address.rs\<close>. Addresses of both
    families survive printing and parsing, the dotted grammar is characterised exactly, the parsers stay inside
    their buffers, and the historical grammar of \<open>inet_aton\<close> is arithmetic on its parts. It calls \<open>strtoul\<close> of
    \<open>IntegerParse\<close>.

  \<^bold>\<open>Assumptions.\<close> The target is the x86-64 configuration. The kernel, the clock and the transport are
  arguments of the definitions. Memory that a caller passes does not overlap a buffer being written. The theorem
  that an exchange returns assumes a clock that passes every deadline after finitely many calls; its witness
  instantiates the clock.

  \<^bold>\<open>Not modelled.\<close> The system interfaces of \<open>crabc-core\<close> and \<open>crabc-rs\<close>, which marshal arguments into system
  calls. The allocator, whose correctness is about concurrent access to raw memory. The dynamic loader,
  start-up objects, compiler builtins and the unwinder, which act on the process image, registers and stack
  frames. In \<open>libc\<close>: streams, threads and signals, which need shared memory and asynchronous events;
  floating-point mathematics, much of it assembly; regular expressions and locales. In the modelled files:
  asynchronous thread cancellation during a DNS exchange, which does not return, and the configuration of the
  hash table that replaces its two mapping calls by \<open>calloc\<close> and \<open>free\<close>.
\<close>

end
